(* ===== verification/Cedar_Prelude.thy ===== *)
theory Cedar_Prelude
  imports Main "HOL-Library.Word"
begin

text \<open>
  Shared vocabulary of the development.

  \<^item> C \<open>int\<close> and \<open>int64_t\<close> values are HOL integers. Where a caller-supplied value enters an
    addition or a multiplication the result is wrapped to 32 bits with \<open>i32\<close>, so that an
    overflow of the source is visible in the model; positions and counters that an invariant
    bounds by a table size are plain integers.
  \<^item> A \<open>char*\<close> or \<open>void*\<close> is an address (an integer, 0 for \<open>NULL\<close>). A pointer to an element
    of a table owned by a component is the index of the element, \<open>None\<close> for \<open>NULL\<close>.
  \<^item> \<open>exec\<close> is the outcome of a call: it returns a value, it calls \<open>abort()\<close>, or it performs
    an access outside every object (\<open>Fault\<close>).
\<close>

type_synonym addr = int

datatype 'a exec = Ok 'a | Abort | Fault

definition ebind :: "'a exec \<Rightarrow> ('a \<Rightarrow> 'b exec) \<Rightarrow> 'b exec" where
  "ebind m f = (case m of Ok v \<Rightarrow> f v | Abort \<Rightarrow> Abort | Fault \<Rightarrow> Fault)"

definition i32 :: "int \<Rightarrow> int" where
  "i32 x = (x + 2147483648) mod 4294967296 - 2147483648"

definition int32_range :: "int \<Rightarrow> bool" where
  "int32_range x \<longleftrightarrow> - 2147483648 \<le> x \<and> x \<le> 2147483647"

text \<open>Reading and writing a C array: an index outside the array is a \<open>Fault\<close>.\<close>

definition arr_get :: "'a list \<Rightarrow> int \<Rightarrow> 'a exec" where
  "arr_get xs i = (if 0 \<le> i \<and> i < int (length xs) then Ok (xs ! nat i) else Fault)"

definition arr_set :: "'a list \<Rightarrow> int \<Rightarrow> 'a \<Rightarrow> 'a list exec" where
  "arr_set xs i v = (if 0 \<le> i \<and> i < int (length xs) then Ok (xs[nat i := v]) else Fault)"

text \<open>
  Allocation and release of heap blocks, recorded in program order; \<open>'b\<close> names the blocks of
  a component.
\<close>

datatype 'b mem_event = Alloc 'b | Free 'b

fun live_blocks :: "'b list \<Rightarrow> 'b mem_event list \<Rightarrow> 'b list" where
  "live_blocks bs [] = bs"
| "live_blocks bs (Alloc b # es) = live_blocks (b # bs) es"
| "live_blocks bs (Free b # es) = live_blocks (remove1 b bs) es"

fun frees_ok :: "'b list \<Rightarrow> 'b mem_event list \<Rightarrow> bool" where
  "frees_ok bs [] = True"
| "frees_ok bs (Alloc b # es) = frees_ok (b # bs) es"
| "frees_ok bs (Free b # es) = (b \<in> set bs \<and> frees_ok (remove1 b bs) es)"

text \<open>Division and remainder of C: the quotient is truncated towards 0.\<close>

definition c_div :: "int \<Rightarrow> int \<Rightarrow> int" where
  "c_div a b = (if (a < 0) = (b < 0) then \<bar>a\<bar> div \<bar>b\<bar> else - (\<bar>a\<bar> div \<bar>b\<bar>))"

definition c_mod :: "int \<Rightarrow> int \<Rightarrow> int" where
  "c_mod a b = a - b * c_div a b"

lemma c_div_nonneg: "0 \<le> a \<Longrightarrow> 0 < b \<Longrightarrow> c_div a b = a div b"
  by (simp add: c_div_def)

lemma c_mod_nonneg: "0 \<le> a \<Longrightarrow> 0 < b \<Longrightarrow> c_mod a b = a mod b"
  by (simp add: c_mod_def c_div_nonneg minus_mult_div_eq_mod)

lemma ebind_simps [simp]:
  "ebind (Ok v) f = f v" "ebind Abort f = Abort" "ebind Fault f = Fault"
  by (simp_all add: ebind_def)

lemma ebind_eq_Ok [simp]: "ebind m f = Ok r \<longleftrightarrow> (\<exists>v. m = Ok v \<and> f v = Ok r)"
  by (cases m) auto

lemma ebind_assoc: "ebind (ebind m f) g = ebind m (\<lambda>x. ebind (f x) g)"
  by (cases m) simp_all

lemma i32_id: "int32_range x \<Longrightarrow> i32 x = x"
  by (simp add: i32_def int32_range_def)

lemma i32_range: "int32_range (i32 x)"
proof -
  have "0 \<le> (x + 2147483648) mod 4294967296" "(x + 2147483648) mod 4294967296 < 4294967296"
    by simp_all
  then show ?thesis unfolding i32_def int32_range_def by linarith
qed

lemma i32_wrap_high: "2147483647 < x \<Longrightarrow> x < 6442450944 \<Longrightarrow> i32 x = x - 4294967296"
proof -
  assume *: "2147483647 < x" "x < 6442450944"
  have "(x + 2147483648) mod 4294967296 = (x + 2147483648 - 4294967296) mod 4294967296"
    by (metis minus_mod_self2)
  also have "\<dots> = x + 2147483648 - 4294967296"
    using * by (intro mod_pos_pos_trivial) simp_all
  finally show ?thesis by (simp add: i32_def)
qed

lemma arr_get_Ok [simp]:
  "arr_get xs i = Ok v \<longleftrightarrow> 0 \<le> i \<and> i < int (length xs) \<and> v = xs ! nat i"
  by (auto simp: arr_get_def)

lemma arr_set_Ok [simp]:
  "arr_set xs i v = Ok ys \<longleftrightarrow> 0 \<le> i \<and> i < int (length xs) \<and> ys = xs[nat i := v]"
  by (auto simp: arr_set_def)

lemma arr_get_in: "0 \<le> i \<Longrightarrow> i < int (length xs) \<Longrightarrow> arr_get xs i = Ok (xs ! nat i)"
  by simp

lemma arr_set_in: "0 \<le> i \<Longrightarrow> i < int (length xs) \<Longrightarrow> arr_set xs i v = Ok (xs[nat i := v])"
  by simp

lemma i32_add_left: "i32 (i32 a + b) = i32 (a + b)"
proof -
  have "i32 a + b + 2147483648 = (a + 2147483648) mod 4294967296 + b" by (simp add: i32_def)
  moreover have "((a + 2147483648) mod 4294967296 + b) mod 4294967296 = (a + 2147483648 + b) mod 4294967296"
    by (rule mod_add_left_eq)
  moreover have "a + 2147483648 + b = a + b + 2147483648" by simp
  ultimately have "(i32 a + b + 2147483648) mod 4294967296 = (a + b + 2147483648) mod 4294967296"
    by metis
  then show ?thesis by (simp only: i32_def [of "i32 a + b"] i32_def [of "a + b"])
qed

lemma i32_add_right: "i32 (b + i32 a) = i32 (b + a)"
  using i32_add_left [of a b] by (simp add: add.commute)

end
