(* ===== verification/Ring.thy ===== *)
theory Ring
  imports Cedar_Prelude
begin

text \<open>
  Circular tables. \<open>ring_slice xs s n\<close> lists the \<open>n\<close> entries of the table \<open>xs\<close> that start at
  position \<open>s\<close>, wrapping at the end of the table. The stream buffer manager, the stream
  manager and the two estimaters keep their frames in such tables; the lemmas here say what
  one write at the end, one read at the front and one step back do to the slice.
\<close>

definition ring_slice :: "'a list \<Rightarrow> nat \<Rightarrow> nat \<Rightarrow> 'a list" where
  "ring_slice xs s n = map (\<lambda>k. xs ! ((s + k) mod length xs)) [0..<n]"

lemma length_ring_slice [simp]: "length (ring_slice xs s n) = n"
  by (simp add: ring_slice_def)

lemma ring_slice_0 [simp]: "ring_slice xs s 0 = []"
  by (simp add: ring_slice_def)

lemma ring_slice_eq_Nil [simp]: "ring_slice xs s n = [] \<longleftrightarrow> n = 0"
  by (simp add: ring_slice_def)

lemma nth_ring_slice [simp]: "k < n \<Longrightarrow> ring_slice xs s n ! k = xs ! ((s + k) mod length xs)"
  by (simp add: ring_slice_def)

lemma ring_slice_snoc:
  "ring_slice xs s (Suc n) = ring_slice xs s n @ [xs ! ((s + n) mod length xs)]"
  by (simp add: ring_slice_def)

lemma ring_slice_append:
  "ring_slice xs s (m + n) = ring_slice xs s m @ ring_slice xs (s + m) n"
  by (induction n) (simp_all add: ring_slice_snoc add.assoc)

lemma ring_slice_Cons:
  "ring_slice xs s (Suc n) = xs ! (s mod length xs) # ring_slice xs (Suc s) n"
  using ring_slice_append [of xs s 1 n] by (simp add: ring_slice_snoc)

lemma ring_slice_mod [simp]: "ring_slice xs (s mod length xs) n = ring_slice xs s n"
  by (simp add: ring_slice_def mod_add_left_eq)

lemma ring_slice_Suc_mod [simp]:
  "ring_slice xs (Suc s mod length xs) n = ring_slice xs (Suc s) n"
  by (simp add: ring_slice_def mod_add_left_eq)

lemma ring_pos_neq:
  fixes s k n len :: nat
  assumes "k < n" "n < len"
  shows "(s + k) mod len \<noteq> (s + n) mod len"
proof
  assume "(s + k) mod len = (s + n) mod len"
  then have "len dvd (s + n) - (s + k)"
    using assms by (metis add_le_mono le_refl less_imp_le mod_eq_dvd_iff_nat)
  then have "len dvd n - k" by simp
  moreover have "0 < n - k" "n - k < len" using assms by simp_all
  ultimately show False by (auto dest: dvd_imp_le)
qed

lemma ring_slice_write_beyond:
  assumes "n < length xs"
  shows "ring_slice (xs[(s + n) mod length xs := v]) s n = ring_slice xs s n"
proof (rule nth_equalityI)
  fix k assume "k < length (ring_slice (xs[(s + n) mod length xs := v]) s n)"
  then have "k < n" by simp
  then show "ring_slice (xs[(s + n) mod length xs := v]) s n ! k = ring_slice xs s n ! k"
    using assms ring_pos_neq [of k n "length xs" s] by (simp add: nth_list_update)
qed simp

lemma ring_slice_write:
  assumes "n < length xs"
  shows "ring_slice (xs[(s + n) mod length xs := v]) s (Suc n) = ring_slice xs s n @ [v]"
proof -
  have "0 < length xs" using assms by auto
  then show ?thesis
    using ring_slice_write_beyond [OF assms] by (simp add: ring_slice_snoc)
qed

lemma set_ring_slice:
  "xs \<noteq> [] \<Longrightarrow> set (ring_slice xs s n) \<subseteq> set xs"
  by (auto simp: ring_slice_def)

text \<open>The \<open>if (pos >= max) pos = 0\<close> of the sources is addition modulo the table size.\<close>

definition ring_next :: "int \<Rightarrow> int \<Rightarrow> int" where
  "ring_next pos m = (if m \<le> pos + 1 then 0 else pos + 1)"

definition ring_prev :: "int \<Rightarrow> int \<Rightarrow> int" where
  "ring_prev pos m = (if pos - 1 < 0 then m - 1 else pos - 1)"

lemma ring_next_nat: "p < m \<Longrightarrow> ring_next (int p) (int m) = int (Suc p mod m)"
  by (auto simp: ring_next_def mod_Suc)

lemma ring_next_mod: "k < m \<Longrightarrow> ring_next (int (p mod m)) (int m) = int (Suc p mod m)"
  using ring_next_nat [of "p mod m" m] by (auto simp: mod_Suc_eq)

lemma mod_in_table [simp]: "(k :: nat) < m \<Longrightarrow> p mod m < m"
  by (rule mod_less_divisor) simp

lemma ring_prev_nat:
  assumes "p < m"
  shows "ring_prev (int p) (int m) = int ((p + (m - 1)) mod m)"
proof (cases p)
  case 0
  then show ?thesis using assms by (simp add: ring_prev_def)
next
  case (Suc q)
  have "(Suc q + (m - 1)) mod m = (q + m) mod m" using assms Suc by simp
  then show ?thesis using assms Suc by (simp add: ring_prev_def)
qed

lemma ring_prev_next: "0 \<le> p \<Longrightarrow> p < m \<Longrightarrow> ring_prev (ring_next p m) m = p"
  by (auto simp: ring_prev_def ring_next_def)

lemma ring_next_prev: "0 \<le> p \<Longrightarrow> p < m \<Longrightarrow> ring_next (ring_prev p m) m = p"
  by (auto simp: ring_prev_def ring_next_def)

lemma ring_prev_mod: "k < m \<Longrightarrow> ring_prev (int (Suc p mod m)) (int m) = int (p mod m)"
  using ring_prev_next [of "int (p mod m)" "int m"] ring_next_mod [of k m p] by auto

lemma ring_next_bounds [simp]: "0 \<le> p \<Longrightarrow> 0 < m \<Longrightarrow> 0 \<le> ring_next p m \<and> ring_next p m < m"
  by (auto simp: ring_next_def)

lemma ring_prev_bounds [simp]: "0 \<le> p \<Longrightarrow> p < m \<Longrightarrow> 0 \<le> ring_prev p m \<and> ring_prev p m < m"
  by (auto simp: ring_prev_def)

text \<open>The loop of the estimaters that copies \<open>k\<close> entries of a table of size \<open>m\<close> from position
  \<open>nStartPos\<close> on.\<close>

fun ring_read :: "int \<Rightarrow> 'a list \<Rightarrow> int \<Rightarrow> nat \<Rightarrow> 'a list \<Rightarrow> 'a list exec" where
  "ring_read m xs nStartPos 0 acc = Ok acc"
| "ring_read m xs nStartPos (Suc k) acc = ebind (arr_get xs nStartPos) (\<lambda>x.
     ring_read m xs (ring_next nStartPos m) k (acc @ [x]))"

lemma ring_read_slice:
  "p < length xs \<Longrightarrow> ring_read (int (length xs)) xs (int p) k acc = Ok (acc @ ring_slice xs p k)"
proof (induction k arbitrary: p acc)
  case (Suc k)
  have "Suc p mod length xs < length xs" using Suc.prems by simp
  then show ?case
    using Suc.IH [of "Suc p mod length xs" "acc @ [xs ! p]"] Suc.prems ring_slice_Cons [of xs p k]
    by (simp add: arr_get_def ring_next_nat)
qed simp

end
