(* ===== verification/Frame_Fifo.thy ===== *)
theory Frame_Fifo
  imports Cedar_Prelude
begin

text \<open>
  The contract of the queues between the stages of the player: a producer puts items, a
  consumer gets them in order, and a put may be refused. \<open>frame_fifo\<close> states it over the
  list of pending items; the stream buffer manager, the stream manager and the message queue
  are interpreted in it. \<open>held_fifo\<close> adds what only the stream buffer manager has: an item
  that was got stays held until it is released, and the newest held item can be given back.
\<close>

datatype 'f fifo_op = Put 'f | Get

text \<open>One run of a producer and a consumer in any interleaving: the accepted inputs, the
  outputs, and the final state.\<close>

primrec fifo_run ::
  "('f \<Rightarrow> 's \<Rightarrow> 's option) \<Rightarrow> ('s \<Rightarrow> ('f \<times> 's) option) \<Rightarrow> 'f fifo_op list \<Rightarrow> 's
     \<Rightarrow> 'f list \<times> 'f list \<times> 's" where
  "fifo_run put get [] s = ([], [], s)"
| "fifo_run put get (e # es) s =
     (case e of
        Put f \<Rightarrow>
          (case put f s of
             None \<Rightarrow> fifo_run put get es s
           | Some s' \<Rightarrow> (case fifo_run put get es s' of (ins, outs, t) \<Rightarrow> (f # ins, outs, t)))
      | Get \<Rightarrow>
          (case get s of
             None \<Rightarrow> fifo_run put get es s
           | Some (f, s') \<Rightarrow> (case fifo_run put get es s' of (ins, outs, t) \<Rightarrow> (ins, f # outs, t))))"

locale frame_fifo =
  fixes inv :: "'s \<Rightarrow> bool"
    and pending :: "'s \<Rightarrow> 'f list"
    and good :: "'f \<Rightarrow> bool"
    and stored :: "'f \<Rightarrow> 'f"
    and put :: "'f \<Rightarrow> 's \<Rightarrow> 's option"
    and get :: "'s \<Rightarrow> ('f \<times> 's) option"
  assumes put_law:
      "inv s \<Longrightarrow> good f \<Longrightarrow> put f s = Some s' \<Longrightarrow> inv s' \<and> pending s' = pending s @ [stored f]"
    and get_empty: "inv s \<Longrightarrow> pending s = [] \<Longrightarrow> get s = None"
    and get_law:
      "inv s \<Longrightarrow> pending s = f # fs \<Longrightarrow> \<exists>s'. get s = Some (f, s') \<and> inv s' \<and> pending s' = fs"
begin

lemma get_Some:
  assumes "inv s" "get s = Some (f, s')"
  shows "inv s' \<and> pending s = f # pending s'"
proof (cases "pending s")
  case Nil
  with assms show ?thesis by (simp add: get_empty)
next
  case (Cons g gs)
  with assms show ?thesis using get_law [OF assms(1) Cons] by auto
qed

lemma get_None: "inv s \<Longrightarrow> get s = None \<longleftrightarrow> pending s = []"
  by (metis get_empty get_law list.exhaust option.distinct(1))

text \<open>Nothing is lost, duplicated or reordered: what was pending followed by what was accepted
  is what came out followed by what is still pending.\<close>

lemma run_fifo:
  assumes "inv s" "\<forall>f. Put f \<in> set es \<longrightarrow> good f" "fifo_run put get es s = (ins, outs, s')"
  shows "inv s' \<and> pending s @ map stored ins = outs @ pending s'"
  using assms
proof (induction es arbitrary: s ins outs)
  case Nil
  then show ?case by simp
next
  case (Cons e es)
  have rest: "\<forall>f. Put f \<in> set es \<longrightarrow> good f" using Cons.prems(2) by simp
  show ?case
  proof (cases e)
    case (Put f)
    show ?thesis
    proof (cases "put f s")
      case None
      then show ?thesis using Cons.IH [OF Cons.prems(1) rest] Cons.prems(3) Put by simp
    next
      case (Some t)
      then have "inv t \<and> pending t = pending s @ [stored f]"
        using put_law [OF Cons.prems(1) _ Some] Cons.prems(2) Put by simp
      then show ?thesis
        using Cons.IH [OF _ rest, of t] Cons.prems(3) Put Some by (auto split: prod.splits)
    qed
  next
    case Get
    show ?thesis
    proof (cases "get s")
      case None
      then show ?thesis using Cons.IH [OF Cons.prems(1) rest] Cons.prems(3) Get by simp
    next
      case (Some r)
      then obtain f t where r: "get s = Some (f, t)" by (cases r) auto
      then have "inv t \<and> pending s = f # pending t" using get_Some Cons.prems(1) by blast
      then show ?thesis
        using Cons.IH [OF _ rest, of t] Cons.prems(3) Get r by (auto split: prod.splits)
    qed
  qed
qed

end

locale held_fifo = frame_fifo +
  fixes held :: "'s \<Rightarrow> 'f list"
    and give_back :: "'s \<Rightarrow> 's option"
    and release :: "'s \<Rightarrow> 's option"
  assumes put_held: "inv s \<Longrightarrow> good f \<Longrightarrow> put f s = Some s' \<Longrightarrow> held s' = held s"
    and get_held: "inv s \<Longrightarrow> get s = Some (f, s') \<Longrightarrow> held s' = held s @ [f]"
    and give_back_law:
      "inv s \<Longrightarrow> held s = hs @ [f] \<Longrightarrow>
         \<exists>s'. give_back s = Some s' \<and> inv s' \<and> held s' = hs \<and> pending s' = f # pending s"
    and release_law:
      "inv s \<Longrightarrow> held s = f # hs \<Longrightarrow>
         \<exists>s'. release s = Some s' \<and> inv s' \<and> held s' = hs \<and> pending s' = pending s"
begin

text \<open>Getting an item and giving it back restores the order of the items.\<close>

lemma get_give_back:
  assumes "inv s" "get s = Some (f, s')"
  shows "\<exists>t. give_back s' = Some t \<and> inv t \<and> held t = held s \<and> pending t = pending s"
proof -
  have "inv s'" "pending s = f # pending s'" using get_Some [OF assms] by auto
  moreover have "held s' = held s @ [f]" using get_held [OF assms] .
  ultimately show ?thesis using give_back_law [of s' "held s" f] by metis
qed

text \<open>A release only takes the oldest item: the rest keeps its order.\<close>

lemma release_oldest:
  assumes "inv s" "held s = f # hs" "release s = Some s'"
  shows "f # held s' @ pending s' = held s @ pending s"
  using release_law [OF assms(1,2)] assms(2,3) by auto

end

end
