(* ===== verification/Sbm.thy ===== *)
theory Sbm
  imports Ring Frame_Fifo
begin

text \<open>
  The stream buffer manager of the video decoder, \<^verbatim>\<open>libcedarc/vdecoder/sbm.c\<close> with its header
  \<^verbatim>\<open>include/sbm.h\<close>. Bitstream data lies in one cyclic byte buffer; a cyclic table of
  \<open>SBM_FRAME_FIFO_SIZE\<close> entries describes the frames in it. Three cursors move over the table:
  \<open>nWritePos\<close> (the demuxer adds a frame), \<open>nReadPos\<close> (the decoder requests one) and
  \<open>nFlushPos\<close> (the decoder is done with one and its bytes are free again).

  A handle is \<open>Sbm option\<close> (\<open>None\<close> is \<open>NULL\<close>). A \<open>VideoStreamDataInfo*\<close> that points into the
  table is the index of the entry. \<open>lk\<close> is what \<open>lock(pSbm)\<close> returned: each operation runs as
  one critical section of the manager's mutex.
\<close>

section \<open>Data\<close>

record VideoStreamDataInfo =
  vsd_pData :: addr
  vsd_nLength :: int
  vsd_nPts :: int
  vsd_nPcr :: int
  vsd_bIsFirstPart :: int
  vsd_bIsLastPart :: int
  vsd_nID :: int
  vsd_nStreamIndex :: int
  vsd_bValid :: int
  vsd_bVideoInfoFlag :: int
  vsd_pVideoInfo :: addr

record StreamFrameFifo =
  fifo_pFrames :: "VideoStreamDataInfo list"
  fifo_nMaxFrameNum :: int
  fifo_nValidFrameNum :: int
  fifo_nUnReadFrameNum :: int
  fifo_nReadPos :: int
  fifo_nWritePos :: int
  fifo_nFlushPos :: int

record Sbm =
  sbm_pStreamBuffer :: addr
  sbm_pStreamBufferEnd :: addr
  sbm_nStreamBufferSize :: int
  sbm_pWriteAddr :: addr
  sbm_nValidDataSize :: int
  sbm_frameFifo :: StreamFrameFifo
  sbm_memops :: addr

text \<open>The heap blocks of a manager; the stream buffer comes from the physical memory adapter
  (\<open>CdcMemPalloc\<close>) or, for \<open>SbmVirCreate\<close>, from \<open>malloc\<close>.\<close>

datatype sbm_block = PallocBuffer | MallocBuffer | SbmStruct | FifoFrames

definition SBM_FRAME_FIFO_SIZE :: nat where
  "SBM_FRAME_FIFO_SIZE = 2048"

definition vsd_zero :: VideoStreamDataInfo where
  "vsd_zero = \<lparr>vsd_pData = 0, vsd_nLength = 0, vsd_nPts = 0, vsd_nPcr = 0, vsd_bIsFirstPart = 0,
     vsd_bIsLastPart = 0, vsd_nID = 0, vsd_nStreamIndex = 0, vsd_bValid = 0,
     vsd_bVideoInfoFlag = 0, vsd_pVideoInfo = 0\<rparr>"

section \<open>Operations\<close>

text \<open>The assignments that end \<open>SbmCreate\<close> and \<open>SbmVirCreate\<close>: a zeroed table whose entries
  are numbered, all cursors at 0.\<close>

definition sbm_initial :: "addr \<Rightarrow> int \<Rightarrow> addr \<Rightarrow> Sbm" where
  "sbm_initial pSbmBuf nBufferSize memops =
     \<lparr>sbm_pStreamBuffer = pSbmBuf,
      sbm_pStreamBufferEnd = pSbmBuf + nBufferSize - 1,
      sbm_nStreamBufferSize = nBufferSize,
      sbm_pWriteAddr = pSbmBuf,
      sbm_nValidDataSize = 0,
      sbm_frameFifo =
        \<lparr>fifo_pFrames = map (\<lambda>i. vsd_zero\<lparr>vsd_nID := int i\<rparr>) [0..<SBM_FRAME_FIFO_SIZE],
         fifo_nMaxFrameNum = int SBM_FRAME_FIFO_SIZE,
         fifo_nValidFrameNum = 0,
         fifo_nUnReadFrameNum = 0,
         fifo_nReadPos = 0,
         fifo_nWritePos = 0,
         fifo_nFlushPos = 0\<rparr>,
      sbm_memops = memops\<rparr>"

text \<open>\<open>pSbmBuf\<close> is the address the allocator returned (0: it failed); \<open>okSbm\<close> and \<open>okFrames\<close>
  say whether the two \<open>malloc\<close> calls succeed and \<open>ret\<close> is the result of
  \<open>pthread_mutex_init\<close>.\<close>

definition SbmCreate ::
  "int \<Rightarrow> addr \<Rightarrow> addr \<Rightarrow> bool \<Rightarrow> bool \<Rightarrow> int \<Rightarrow> Sbm option \<times> sbm_block mem_event list" where
  "SbmCreate nBufferSize memops pSbmBuf okSbm okFrames ret =
     (if nBufferSize \<le> 0 then (None, [])
      else if pSbmBuf = 0 then (None, [])
      else if \<not> okSbm then (None, [Alloc PallocBuffer, Free PallocBuffer])
      else if \<not> okFrames then
        (None, [Alloc PallocBuffer, Alloc SbmStruct, Free SbmStruct, Free PallocBuffer])
      else if ret \<noteq> 0 then
        (None, [Alloc PallocBuffer, Alloc SbmStruct, Alloc FifoFrames,
                Free FifoFrames, Free SbmStruct, Free PallocBuffer])
      else
        (Some (sbm_initial pSbmBuf nBufferSize memops),
         [Alloc PallocBuffer, Alloc SbmStruct, Alloc FifoFrames]))"

definition SbmVirCreate ::
  "int \<Rightarrow> addr \<Rightarrow> bool \<Rightarrow> bool \<Rightarrow> int \<Rightarrow> Sbm option \<times> sbm_block mem_event list" where
  "SbmVirCreate nBufferSize pSbmBuf okSbm okFrames ret =
     (if nBufferSize \<le> 0 then (None, [])
      else if pSbmBuf = 0 then (None, [])
      else if \<not> okSbm then (None, [Alloc MallocBuffer, Free MallocBuffer])
      else if \<not> okFrames then
        (None, [Alloc MallocBuffer, Alloc SbmStruct, Free SbmStruct, Free MallocBuffer])
      else if ret \<noteq> 0 then
        (None, [Alloc MallocBuffer, Alloc SbmStruct, Alloc FifoFrames,
                Free FifoFrames, Free SbmStruct, Free MallocBuffer])
      else
        (Some (sbm_initial pSbmBuf nBufferSize 0),
         [Alloc MallocBuffer, Alloc SbmStruct, Alloc FifoFrames]))"

definition SbmDestroy :: "Sbm option \<Rightarrow> sbm_block mem_event list" where
  "SbmDestroy pSbm = (case pSbm of
       None \<Rightarrow> []
     | Some s \<Rightarrow>
         (if sbm_pStreamBuffer s \<noteq> 0 then [Free PallocBuffer] else []) @
         (if fifo_pFrames (sbm_frameFifo s) \<noteq> [] then [Free FifoFrames] else []) @
         [Free SbmStruct])"

definition SbmVirDestroy :: "Sbm option \<Rightarrow> sbm_block mem_event list" where
  "SbmVirDestroy pSbm = (case pSbm of
       None \<Rightarrow> []
     | Some s \<Rightarrow>
         (if sbm_pStreamBuffer s \<noteq> 0 then [Free MallocBuffer] else []) @
         (if fifo_pFrames (sbm_frameFifo s) \<noteq> [] then [Free FifoFrames] else []) @
         [Free SbmStruct])"

definition SbmReset :: "int \<Rightarrow> Sbm option \<Rightarrow> Sbm option" where
  "SbmReset lk pSbm = (case pSbm of
       None \<Rightarrow> None
     | Some s \<Rightarrow>
         if lk \<noteq> 0 then Some s
         else Some (s\<lparr>sbm_pWriteAddr := sbm_pStreamBuffer s,
                      sbm_nValidDataSize := 0,
                      sbm_frameFifo := (sbm_frameFifo s)
                        \<lparr>fifo_nReadPos := 0, fifo_nWritePos := 0, fifo_nFlushPos := 0,
                         fifo_nValidFrameNum := 0, fifo_nUnReadFrameNum := 0\<rparr>\<rparr>))"

definition SbmBufferAddress :: "Sbm option \<Rightarrow> addr" where
  "SbmBufferAddress pSbm = (case pSbm of None \<Rightarrow> 0 | Some s \<Rightarrow> sbm_pStreamBuffer s)"

definition SbmBufferSize :: "Sbm option \<Rightarrow> int" where
  "SbmBufferSize pSbm = (case pSbm of None \<Rightarrow> 0 | Some s \<Rightarrow> sbm_nStreamBufferSize s)"

definition SbmStreamFrameNum :: "Sbm option \<Rightarrow> int" where
  "SbmStreamFrameNum pSbm =
     (case pSbm of None \<Rightarrow> 0 | Some s \<Rightarrow> fifo_nValidFrameNum (sbm_frameFifo s))"

definition SbmStreamDataSize :: "Sbm option \<Rightarrow> int" where
  "SbmStreamDataSize pSbm = (case pSbm of None \<Rightarrow> 0 | Some s \<Rightarrow> sbm_nValidDataSize s)"

definition SbmBufferWritePointer :: "Sbm option \<Rightarrow> addr" where
  "SbmBufferWritePointer pSbm = (case pSbm of None \<Rightarrow> 0 | Some s \<Rightarrow> sbm_pWriteAddr s)"

definition SbmBufferDataInfo :: "int \<Rightarrow> Sbm option \<Rightarrow> addr exec" where
  "SbmBufferDataInfo lk pSbm = (case pSbm of
       None \<Rightarrow> Ok 0
     | Some s \<Rightarrow>
         if lk \<noteq> 0 then Ok 0
         else if fifo_nUnReadFrameNum (sbm_frameFifo s) = 0 then Ok 0
         else ebind (arr_get (fifo_pFrames (sbm_frameFifo s)) (fifo_nReadPos (sbm_frameFifo s)))
                (\<lambda>d. Ok (vsd_pVideoInfo d)))"

text \<open>\<open>ppBuf\<close> and \<open>pBufSize\<close> are the two out parameters: \<open>None\<close> when the caller passed
  \<open>NULL\<close>, otherwise the value they point to before and after the call.\<close>

definition SbmRequestBuffer ::
  "int \<Rightarrow> Sbm option \<Rightarrow> int \<Rightarrow> addr option \<Rightarrow> int option \<Rightarrow> int \<times> addr option \<times> int option" where
  "SbmRequestBuffer lk pSbm nRequireSize ppBuf pBufSize =
     (case (pSbm, ppBuf, pBufSize) of
        (Some s, Some b, Some n) \<Rightarrow>
          (if lk \<noteq> 0 then (-1, ppBuf, pBufSize)
           else if fifo_nMaxFrameNum (sbm_frameFifo s) \<le> fifo_nValidFrameNum (sbm_frameFifo s)
             then (-1, ppBuf, pBufSize)
           else if sbm_nValidDataSize s < sbm_nStreamBufferSize s then
             (let nFreeSize = sbm_nStreamBufferSize s - sbm_nValidDataSize s in
              if nFreeSize < i32 (nRequireSize + 64) then (-1, ppBuf, pBufSize)
              else (0, Some (sbm_pWriteAddr s), Some nRequireSize))
           else (-1, ppBuf, pBufSize))
      | _ \<Rightarrow> (-1, ppBuf, pBufSize))"

text \<open>\<open>SbmAddStream\<close> sets \<open>bValid\<close> in the caller's structure and copies it into the table;
  the third component of the result is the caller's structure after the call.\<close>

definition SbmAddStream ::
  "int \<Rightarrow> Sbm option \<Rightarrow> VideoStreamDataInfo option
     \<Rightarrow> (int \<times> Sbm option \<times> VideoStreamDataInfo option) exec" where
  "SbmAddStream lk pSbm pDataInfo =
     (case (pSbm, pDataInfo) of
        (Some s, Some d) \<Rightarrow>
          (let f = sbm_frameFifo s in
           if lk \<noteq> 0 then Ok (-1, pSbm, pDataInfo)
           else if vsd_pData d = 0 then Ok (-1, pSbm, pDataInfo)
           else if fifo_nMaxFrameNum f \<le> fifo_nValidFrameNum f then Ok (-1, pSbm, pDataInfo)
           else if sbm_nStreamBufferSize s < i32 (vsd_nLength d + sbm_nValidDataSize s)
             then Ok (-1, pSbm, pDataInfo)
           else
             (let d' = (if vsd_bValid d = 0 then d\<lparr>vsd_bValid := 1\<rparr> else d);
                  pNewWriteAddr = sbm_pWriteAddr s + vsd_nLength d'
              in ebind (arr_set (fifo_pFrames f) (fifo_nWritePos f) d') (\<lambda>fr.
                   Ok (0,
                       Some (s\<lparr>sbm_frameFifo := f
                                 \<lparr>fifo_pFrames := fr,
                                  fifo_nWritePos := ring_next (fifo_nWritePos f) (fifo_nMaxFrameNum f),
                                  fifo_nValidFrameNum := fifo_nValidFrameNum f + 1,
                                  fifo_nUnReadFrameNum := fifo_nUnReadFrameNum f + 1\<rparr>,
                               sbm_nValidDataSize := i32 (sbm_nValidDataSize s + vsd_nLength d'),
                               sbm_pWriteAddr :=
                                 (if sbm_pStreamBufferEnd s < pNewWriteAddr
                                  then pNewWriteAddr - sbm_nStreamBufferSize s
                                  else pNewWriteAddr)\<rparr>),
                       Some d'))))
      | _ \<Rightarrow> Ok (-1, pSbm, pDataInfo))"

definition SbmRequestStream :: "int \<Rightarrow> Sbm option \<Rightarrow> int option \<times> Sbm option" where
  "SbmRequestStream lk pSbm = (case pSbm of
       None \<Rightarrow> (None, None)
     | Some s \<Rightarrow>
         (let f = sbm_frameFifo s in
          if lk \<noteq> 0 then (None, pSbm)
          else if fifo_nUnReadFrameNum f = 0 then (None, pSbm)
          else (Some (fifo_nReadPos f),
                Some (s\<lparr>sbm_frameFifo := f
                  \<lparr>fifo_nUnReadFrameNum := fifo_nUnReadFrameNum f - 1,
                   fifo_nReadPos := ring_next (fifo_nReadPos f) (fifo_nMaxFrameNum f)\<rparr>\<rparr>))))"

definition SbmReturnStream ::
  "int \<Rightarrow> Sbm option \<Rightarrow> int option \<Rightarrow> (int \<times> Sbm option) exec" where
  "SbmReturnStream lk pSbm pDataInfo =
     (case (pSbm, pDataInfo) of
        (Some s, Some i) \<Rightarrow>
          (let f = sbm_frameFifo s;
               nReadPos = ring_prev (fifo_nReadPos f) (fifo_nMaxFrameNum f)
           in if lk \<noteq> 0 then Ok (-1, pSbm)
              else if fifo_nValidFrameNum f = 0 then Ok (-1, pSbm)
              else if i \<noteq> nReadPos then Abort
              else ebind (arr_get (fifo_pFrames f) i) (\<lambda>d.
                   ebind (arr_set (fifo_pFrames f) nReadPos d) (\<lambda>fr.
                   Ok (0, Some (s\<lparr>sbm_frameFifo := f
                            \<lparr>fifo_nUnReadFrameNum := fifo_nUnReadFrameNum f + 1,
                             fifo_pFrames := fr,
                             fifo_nReadPos := nReadPos\<rparr>\<rparr>)))))
      | _ \<Rightarrow> Ok (-1, pSbm))"

definition SbmFlushStream ::
  "int \<Rightarrow> Sbm option \<Rightarrow> int option \<Rightarrow> (int \<times> Sbm option) exec" where
  "SbmFlushStream lk pSbm pDataInfo = (case pSbm of
       None \<Rightarrow> Ok (-1, None)
     | Some s \<Rightarrow>
         (let f = sbm_frameFifo s;
              nFlushPos = fifo_nFlushPos f
          in if lk \<noteq> 0 then Ok (-1, pSbm)
             else if fifo_nValidFrameNum f = 0 then Ok (-1, pSbm)
             else if pDataInfo \<noteq> Some nFlushPos then Abort
             else ebind (arr_get (fifo_pFrames f) nFlushPos) (\<lambda>d.
                  Ok (0, Some (s\<lparr>sbm_frameFifo := f
                           \<lparr>fifo_nValidFrameNum := fifo_nValidFrameNum f - 1,
                            fifo_nFlushPos := ring_next nFlushPos (fifo_nMaxFrameNum f)\<rparr>,
                         sbm_nValidDataSize := i32 (sbm_nValidDataSize s - vsd_nLength d)\<rparr>)))))"

section \<open>Invariant and abstraction\<close>

text \<open>The table: \<open>nValidFrameNum\<close> entries from \<open>nFlushPos\<close> on are in use, the last
  \<open>nUnReadFrameNum\<close> of them have not been requested yet.\<close>

definition fifo_inv :: "StreamFrameFifo \<Rightarrow> bool" where
  "fifo_inv f \<longleftrightarrow>
     0 < fifo_nMaxFrameNum f \<and> int (length (fifo_pFrames f)) = fifo_nMaxFrameNum f \<and>
     0 \<le> fifo_nUnReadFrameNum f \<and> fifo_nUnReadFrameNum f \<le> fifo_nValidFrameNum f \<and>
     fifo_nValidFrameNum f \<le> fifo_nMaxFrameNum f \<and>
     0 \<le> fifo_nFlushPos f \<and> fifo_nFlushPos f < fifo_nMaxFrameNum f \<and>
     fifo_nReadPos f =
       (fifo_nFlushPos f + (fifo_nValidFrameNum f - fifo_nUnReadFrameNum f))
         mod fifo_nMaxFrameNum f \<and>
     fifo_nWritePos f = (fifo_nFlushPos f + fifo_nValidFrameNum f) mod fifo_nMaxFrameNum f"

definition sbm_held :: "Sbm \<Rightarrow> VideoStreamDataInfo list" where
  "sbm_held s = (let f = sbm_frameFifo s in
     ring_slice (fifo_pFrames f) (nat (fifo_nFlushPos f))
       (nat (fifo_nValidFrameNum f - fifo_nUnReadFrameNum f)))"

definition sbm_unread :: "Sbm \<Rightarrow> VideoStreamDataInfo list" where
  "sbm_unread s = (let f = sbm_frameFifo s in
     ring_slice (fifo_pFrames f) (nat (fifo_nReadPos f)) (nat (fifo_nUnReadFrameNum f)))"

text \<open>The byte buffer: the write address lies in it and \<open>nValidDataSize\<close> is the number of
  bytes of the frames in use, at most the buffer size.\<close>

definition sbm_inv :: "Sbm \<Rightarrow> bool" where
  "sbm_inv s \<longleftrightarrow>
     fifo_inv (sbm_frameFifo s) \<and>
     0 < sbm_pStreamBuffer s \<and>
     0 < sbm_nStreamBufferSize s \<and> sbm_nStreamBufferSize s \<le> 1073741824 \<and>
     sbm_pStreamBufferEnd s = sbm_pStreamBuffer s + sbm_nStreamBufferSize s - 1 \<and>
     sbm_pStreamBuffer s \<le> sbm_pWriteAddr s \<and> sbm_pWriteAddr s \<le> sbm_pStreamBufferEnd s \<and>
     (\<forall>d \<in> set (sbm_held s @ sbm_unread s). 0 \<le> vsd_nLength d) \<and>
     sbm_nValidDataSize s = sum_list (map vsd_nLength (sbm_held s @ sbm_unread s)) \<and>
     sbm_nValidDataSize s \<le> sbm_nStreamBufferSize s"

text \<open>The same with natural numbers: \<open>h\<close> requested entries from \<open>fl\<close> on, then \<open>u\<close> unread ones.\<close>

definition fifo_at :: "StreamFrameFifo \<Rightarrow> nat \<Rightarrow> nat \<Rightarrow> nat \<Rightarrow> bool" where
  "fifo_at f fl h u \<longleftrightarrow>
     fifo_nMaxFrameNum f = int (length (fifo_pFrames f)) \<and> fl < length (fifo_pFrames f) \<and>
     h + u \<le> length (fifo_pFrames f) \<and> fifo_nFlushPos f = int fl \<and>
     fifo_nUnReadFrameNum f = int u \<and> fifo_nValidFrameNum f = int (h + u) \<and>
     fifo_nReadPos f = int ((fl + h) mod length (fifo_pFrames f)) \<and>
     fifo_nWritePos f = int ((fl + h + u) mod length (fifo_pFrames f))"

lemma fifo_inv_iff: "fifo_inv f \<longleftrightarrow> (\<exists>fl h u. fifo_at f fl h u)"
proof
  assume inv: "fifo_inv f"
  let ?fl = "nat (fifo_nFlushPos f)" and ?u = "nat (fifo_nUnReadFrameNum f)"
  let ?h = "nat (fifo_nValidFrameNum f - fifo_nUnReadFrameNum f)"
  have "fifo_at f ?fl ?h ?u"
    using inv by (auto simp: fifo_inv_def fifo_at_def zmod_int add.assoc)
  then show "\<exists>fl h u. fifo_at f fl h u" by blast
next
  assume "\<exists>fl h u. fifo_at f fl h u"
  then show "fifo_inv f" by (auto simp: fifo_inv_def fifo_at_def zmod_int add.assoc)
qed

lemma fifo_at_held:
  "fifo_at (sbm_frameFifo s) fl h u \<Longrightarrow>
     sbm_held s = ring_slice (fifo_pFrames (sbm_frameFifo s)) fl h"
  by (simp add: sbm_held_def fifo_at_def Let_def)

lemma fifo_at_unread:
  "fifo_at (sbm_frameFifo s) fl h u \<Longrightarrow>
     sbm_unread s = ring_slice (fifo_pFrames (sbm_frameFifo s)) (fl + h) u"
  by (simp add: sbm_unread_def fifo_at_def Let_def)

lemma fifo_at_all:
  "fifo_at (sbm_frameFifo s) fl h u \<Longrightarrow>
     sbm_held s @ sbm_unread s = ring_slice (fifo_pFrames (sbm_frameFifo s)) fl (h + u)"
  by (simp add: fifo_at_held fifo_at_unread ring_slice_append)

section \<open>One operation at a time\<close>

text \<open>Adding a frame that fits.\<close>

definition sbm_accepts :: "Sbm \<Rightarrow> VideoStreamDataInfo \<Rightarrow> bool" where
  "sbm_accepts s d \<longleftrightarrow>
     vsd_pData d \<noteq> 0 \<and>
     fifo_nValidFrameNum (sbm_frameFifo s) < fifo_nMaxFrameNum (sbm_frameFifo s) \<and>
     vsd_nLength d + sbm_nValidDataSize s \<le> sbm_nStreamBufferSize s"

definition vsd_good :: "VideoStreamDataInfo \<Rightarrow> bool" where
  "vsd_good d \<longleftrightarrow> 0 \<le> vsd_nLength d \<and> vsd_nLength d \<le> 1073741823"

definition vsd_marked :: "VideoStreamDataInfo \<Rightarrow> VideoStreamDataInfo" where
  "vsd_marked d = (if vsd_bValid d = 0 then d\<lparr>vsd_bValid := 1\<rparr> else d)"

lemma vsd_marked_simps [simp]:
  "vsd_nLength (vsd_marked d) = vsd_nLength d" "vsd_pData (vsd_marked d) = vsd_pData d"
  "vsd_bValid (vsd_marked d) \<noteq> 0"
  by (simp_all add: vsd_marked_def)

text \<open>The table and the byte counters after a successful add, request, return and flush.\<close>

definition sbm_added :: "Sbm \<Rightarrow> VideoStreamDataInfo \<Rightarrow> Sbm" where
  "sbm_added s d =
     s\<lparr>sbm_frameFifo := (sbm_frameFifo s)
         \<lparr>fifo_pFrames := (fifo_pFrames (sbm_frameFifo s))
            [nat (fifo_nWritePos (sbm_frameFifo s)) := vsd_marked d],
          fifo_nWritePos := ring_next (fifo_nWritePos (sbm_frameFifo s))
            (fifo_nMaxFrameNum (sbm_frameFifo s)),
          fifo_nValidFrameNum := fifo_nValidFrameNum (sbm_frameFifo s) + 1,
          fifo_nUnReadFrameNum := fifo_nUnReadFrameNum (sbm_frameFifo s) + 1\<rparr>,
       sbm_nValidDataSize := sbm_nValidDataSize s + vsd_nLength d,
       sbm_pWriteAddr :=
         (if sbm_pStreamBufferEnd s < sbm_pWriteAddr s + vsd_nLength d
          then sbm_pWriteAddr s + vsd_nLength d - sbm_nStreamBufferSize s
          else sbm_pWriteAddr s + vsd_nLength d)\<rparr>"

lemma sbm_inv_fifo: "sbm_inv s \<Longrightarrow> \<exists>fl h u. fifo_at (sbm_frameFifo s) fl h u"
  by (simp add: sbm_inv_def fifo_inv_iff)

lemma sbm_inv_data_nonneg: "sbm_inv s \<Longrightarrow> 0 \<le> sbm_nValidDataSize s"
  unfolding sbm_inv_def by (metis (no_types, lifting) imageE list.set_map sum_list_nonneg)

lemma sbm_no_overflow:
  assumes "sbm_inv s" "vsd_good d"
  shows "i32 (vsd_nLength d + sbm_nValidDataSize s) = vsd_nLength d + sbm_nValidDataSize s"
    "i32 (sbm_nValidDataSize s + vsd_nLength d) = sbm_nValidDataSize s + vsd_nLength d"
  using assms sbm_inv_data_nonneg [OF assms(1)]
  by (simp_all add: i32_id int32_range_def sbm_inv_def vsd_good_def)

lemma SbmAddStream_Some:
  assumes "sbm_inv s" "vsd_good d"
  shows "SbmAddStream 0 (Some s) (Some d) =
     (if sbm_accepts s d then Ok (0, Some (sbm_added s d), Some (vsd_marked d))
      else Ok (-1, Some s, Some d))"
proof -
  obtain fl h u where "fifo_at (sbm_frameFifo s) fl h u" using sbm_inv_fifo assms(1) by blast
  then have "0 \<le> fifo_nWritePos (sbm_frameFifo s)"
    "fifo_nWritePos (sbm_frameFifo s) < int (length (fifo_pFrames (sbm_frameFifo s)))"
    by (auto simp: fifo_at_def)
  then show ?thesis
    using sbm_no_overflow [OF assms]
    by (auto simp: SbmAddStream_def sbm_accepts_def sbm_added_def Let_def arr_set_in
        vsd_marked_def [symmetric])
qed

lemma fifo_at_added:
  assumes "fifo_at (sbm_frameFifo s) fl h u" "h + u < length (fifo_pFrames (sbm_frameFifo s))"
  shows "fifo_at (sbm_frameFifo (sbm_added s d)) fl h (Suc u)"
  using assms by (auto simp: fifo_at_def sbm_added_def ring_next_mod)

lemma sbm_added_lists:
  assumes "fifo_at (sbm_frameFifo s) fl h u" "h + u < length (fifo_pFrames (sbm_frameFifo s))"
  shows "sbm_held (sbm_added s d) = sbm_held s"
    "sbm_unread (sbm_added s d) = sbm_unread s @ [vsd_marked d]"
proof -
  let ?fr = "fifo_pFrames (sbm_frameFifo s)"
  have fr: "fifo_pFrames (sbm_frameFifo (sbm_added s d)) = ?fr[(fl + (h + u)) mod length ?fr := vsd_marked d]"
    using assms(1) by (simp add: sbm_added_def fifo_at_def add.assoc)
  note at = fifo_at_added [OF assms, of d]
  have all: "sbm_held (sbm_added s d) @ sbm_unread (sbm_added s d) =
      (sbm_held s @ sbm_unread s) @ [vsd_marked d]"
    using fifo_at_all [OF at] fifo_at_all [OF assms(1)] fr ring_slice_write [OF assms(2)] by simp
  have "length (sbm_held (sbm_added s d)) = length (sbm_held s)"
    using fifo_at_held [OF at] fifo_at_held [OF assms(1)] by simp
  then show "sbm_held (sbm_added s d) = sbm_held s"
    "sbm_unread (sbm_added s d) = sbm_unread s @ [vsd_marked d]"
    using all by (simp_all add: append_eq_append_conv)
qed

lemma sbm_added_inv:
  assumes "sbm_inv s" "vsd_good d" "sbm_accepts s d"
  shows "sbm_inv (sbm_added s d)"
proof -
  obtain fl h u where at: "fifo_at (sbm_frameFifo s) fl h u"
    using sbm_inv_fifo assms(1) by blast
  have room: "h + u < length (fifo_pFrames (sbm_frameFifo s))"
    using at assms(3) by (simp add: fifo_at_def sbm_accepts_def)
  note lists = sbm_added_lists [OF at room, of d]
  have "fifo_inv (sbm_frameFifo (sbm_added s d))"
    using fifo_at_added [OF at room] fifo_inv_iff by blast
  moreover have "0 \<le> vsd_nLength d" "vsd_nLength d \<le> sbm_nStreamBufferSize s"
    "vsd_nLength d + sbm_nValidDataSize s \<le> sbm_nStreamBufferSize s"
    using assms sbm_inv_data_nonneg [OF assms(1)] by (auto simp: vsd_good_def sbm_accepts_def)
  ultimately show ?thesis
    using assms(1) lists unfolding sbm_inv_def by (auto simp: sbm_added_def)
qed

text \<open>Requesting, returning and flushing.\<close>

definition sbm_requested :: "Sbm \<Rightarrow> Sbm" where
  "sbm_requested s = s\<lparr>sbm_frameFifo := (sbm_frameFifo s)
     \<lparr>fifo_nUnReadFrameNum := fifo_nUnReadFrameNum (sbm_frameFifo s) - 1,
      fifo_nReadPos := ring_next (fifo_nReadPos (sbm_frameFifo s))
        (fifo_nMaxFrameNum (sbm_frameFifo s))\<rparr>\<rparr>"

definition sbm_returned :: "Sbm \<Rightarrow> Sbm" where
  "sbm_returned s = s\<lparr>sbm_frameFifo := (sbm_frameFifo s)
     \<lparr>fifo_nUnReadFrameNum := fifo_nUnReadFrameNum (sbm_frameFifo s) + 1,
      fifo_nReadPos := ring_prev (fifo_nReadPos (sbm_frameFifo s))
        (fifo_nMaxFrameNum (sbm_frameFifo s))\<rparr>\<rparr>"

definition sbm_flushed :: "Sbm \<Rightarrow> Sbm" where
  "sbm_flushed s = s\<lparr>sbm_frameFifo := (sbm_frameFifo s)
     \<lparr>fifo_nValidFrameNum := fifo_nValidFrameNum (sbm_frameFifo s) - 1,
      fifo_nFlushPos := ring_next (fifo_nFlushPos (sbm_frameFifo s))
        (fifo_nMaxFrameNum (sbm_frameFifo s))\<rparr>,
     sbm_nValidDataSize := sbm_nValidDataSize s -
       vsd_nLength (fifo_pFrames (sbm_frameFifo s) ! nat (fifo_nFlushPos (sbm_frameFifo s)))\<rparr>"

lemma fifo_at_requested:
  "fifo_at (sbm_frameFifo s) fl h (Suc u) \<Longrightarrow> fifo_at (sbm_frameFifo (sbm_requested s)) fl (Suc h) u"
  by (auto simp: fifo_at_def sbm_requested_def ring_next_mod)

lemma fifo_at_returned:
  "fifo_at (sbm_frameFifo s) fl (Suc h) u \<Longrightarrow> fifo_at (sbm_frameFifo (sbm_returned s)) fl h (Suc u)"
  by (auto simp: fifo_at_def sbm_returned_def ring_prev_mod)

lemma fifo_at_flushed:
  assumes "fifo_at (sbm_frameFifo s) fl (Suc h) u"
  shows "fifo_at (sbm_frameFifo (sbm_flushed s)) (Suc fl mod length (fifo_pFrames (sbm_frameFifo s))) h u"
proof -
  let ?m = "length (fifo_pFrames (sbm_frameFifo s))"
  have "(Suc fl mod ?m + h) mod ?m = (Suc fl + h) mod ?m"
    "(Suc fl mod ?m + h + u) mod ?m = (Suc fl + h + u) mod ?m"
    by (metis mod_add_left_eq add.assoc)+
  moreover have "fl mod ?m = fl" using assms by (simp add: fifo_at_def)
  ultimately show ?thesis
    using assms ring_next_mod [of fl ?m fl] by (auto simp: fifo_at_def sbm_flushed_def)
qed

lemma sbm_requested_lists:
  assumes "fifo_at (sbm_frameFifo s) fl h (Suc u)"
  shows "sbm_held (sbm_requested s) =
      sbm_held s @ [fifo_pFrames (sbm_frameFifo s) ! nat (fifo_nReadPos (sbm_frameFifo s))]"
    "sbm_unread s = fifo_pFrames (sbm_frameFifo s) ! nat (fifo_nReadPos (sbm_frameFifo s)) #
      sbm_unread (sbm_requested s)"
  using fifo_at_held [OF assms] fifo_at_unread [OF assms] assms
    fifo_at_held [OF fifo_at_requested [OF assms]] fifo_at_unread [OF fifo_at_requested [OF assms]]
  by (simp_all add: sbm_requested_def fifo_at_def ring_slice_snoc [of _ fl h]
      ring_slice_Cons [of _ "fl + h" u])

lemma sbm_returned_lists:
  assumes "fifo_at (sbm_frameFifo s) fl (Suc h) u"
  shows "sbm_held s = sbm_held (sbm_returned s) @ [last (sbm_held s)]"
    "sbm_unread (sbm_returned s) = last (sbm_held s) # sbm_unread s"
  using fifo_at_held [OF assms] fifo_at_unread [OF assms] assms
    fifo_at_held [OF fifo_at_returned [OF assms]] fifo_at_unread [OF fifo_at_returned [OF assms]]
  by (simp_all add: sbm_returned_def fifo_at_def ring_slice_snoc [of _ fl h]
      ring_slice_Cons [of _ "fl + h" u])

lemma sbm_flushed_lists:
  assumes "fifo_at (sbm_frameFifo s) fl (Suc h) u"
  shows "sbm_held s = fifo_pFrames (sbm_frameFifo s) ! nat (fifo_nFlushPos (sbm_frameFifo s)) #
      sbm_held (sbm_flushed s)"
    "sbm_unread (sbm_flushed s) = sbm_unread s"
proof -
  let ?fr = "fifo_pFrames (sbm_frameFifo s)"
  have "fifo_pFrames (sbm_frameFifo (sbm_flushed s)) = ?fr" by (simp add: sbm_flushed_def)
  moreover have "ring_slice ?fr (Suc fl mod length ?fr + h) u = ring_slice ?fr (fl + Suc h) u"
    by (metis add_Suc_shift mod_add_left_eq ring_slice_mod)
  moreover have "fl mod length ?fr = fl" "fifo_nFlushPos (sbm_frameFifo s) = int fl"
    using assms by (simp_all add: fifo_at_def)
  ultimately show "sbm_held s = ?fr ! nat (fifo_nFlushPos (sbm_frameFifo s)) # sbm_held (sbm_flushed s)"
    "sbm_unread (sbm_flushed s) = sbm_unread s"
    using fifo_at_held [OF assms] fifo_at_unread [OF assms]
      fifo_at_held [OF fifo_at_flushed [OF assms]] fifo_at_unread [OF fifo_at_flushed [OF assms]]
    by (simp_all add: ring_slice_Cons)
qed

lemma sbm_inv_counts:
  assumes "sbm_inv s"
  shows "int (length (sbm_unread s)) = fifo_nUnReadFrameNum (sbm_frameFifo s)"
    "int (length (sbm_held s)) =
      fifo_nValidFrameNum (sbm_frameFifo s) - fifo_nUnReadFrameNum (sbm_frameFifo s)"
  using assms by (auto simp: sbm_inv_def fifo_inv_def sbm_unread_def sbm_held_def Let_def)

lemma sbm_at_unread:
  assumes "sbm_inv s" "sbm_unread s \<noteq> []"
  obtains fl h u where "fifo_at (sbm_frameFifo s) fl h (Suc u)"
proof -
  obtain fl h u where at: "fifo_at (sbm_frameFifo s) fl h u" using sbm_inv_fifo assms(1) by blast
  then obtain v where "u = Suc v" using assms(2) fifo_at_unread [OF at] by (cases u) auto
  with at that show ?thesis by blast
qed

lemma sbm_at_held:
  assumes "sbm_inv s" "sbm_held s \<noteq> []"
  obtains fl h u where "fifo_at (sbm_frameFifo s) fl (Suc h) u"
proof -
  obtain fl h u where at: "fifo_at (sbm_frameFifo s) fl h u" using sbm_inv_fifo assms(1) by blast
  then obtain v where "h = Suc v" using assms(2) fifo_at_held [OF at] by (cases h) auto
  with at that show ?thesis by blast
qed

lemma sbm_inv_same_data:
  assumes "sbm_inv s" "fifo_inv (sbm_frameFifo t)"
    "sbm_held t @ sbm_unread t = sbm_held s @ sbm_unread s"
    "\<exists>g. t = s\<lparr>sbm_frameFifo := g\<rparr>"
  shows "sbm_inv t"
  using assms by (auto simp: sbm_inv_def)

lemma sbm_requested_inv:
  assumes "sbm_inv s" "sbm_unread s \<noteq> []"
  shows "sbm_inv (sbm_requested s)"
proof -
  obtain fl h u where at: "fifo_at (sbm_frameFifo s) fl h (Suc u)" using assms by (rule sbm_at_unread)
  show ?thesis
  proof (rule sbm_inv_same_data [OF assms(1)])
    show "fifo_inv (sbm_frameFifo (sbm_requested s))"
      using fifo_at_requested [OF at] fifo_inv_iff by blast
    show "sbm_held (sbm_requested s) @ sbm_unread (sbm_requested s) = sbm_held s @ sbm_unread s"
      using sbm_requested_lists [OF at] by simp
  qed (auto simp: sbm_requested_def)
qed

lemma sbm_returned_inv:
  assumes "sbm_inv s" "sbm_held s \<noteq> []"
  shows "sbm_inv (sbm_returned s)"
proof -
  obtain fl h u where at: "fifo_at (sbm_frameFifo s) fl (Suc h) u" using assms by (rule sbm_at_held)
  show ?thesis
  proof (rule sbm_inv_same_data [OF assms(1)])
    show "fifo_inv (sbm_frameFifo (sbm_returned s))"
      using fifo_at_returned [OF at] fifo_inv_iff by blast
    show "sbm_held (sbm_returned s) @ sbm_unread (sbm_returned s) = sbm_held s @ sbm_unread s"
      using sbm_returned_lists [OF at] by (metis append.assoc append_Cons append_Nil)
  qed (auto simp: sbm_returned_def)
qed

lemma sbm_flushed_inv:
  assumes "sbm_inv s" "sbm_held s \<noteq> []"
  shows "sbm_inv (sbm_flushed s)"
proof -
  obtain fl h u where at: "fifo_at (sbm_frameFifo s) fl (Suc h) u" using assms by (rule sbm_at_held)
  let ?d = "fifo_pFrames (sbm_frameFifo s) ! nat (fifo_nFlushPos (sbm_frameFifo s))"
  note l = sbm_flushed_lists [OF at]
  have "fifo_inv (sbm_frameFifo (sbm_flushed s))" using fifo_at_flushed [OF at] fifo_inv_iff by blast
  moreover have "sbm_nValidDataSize (sbm_flushed s) = sbm_nValidDataSize s - vsd_nLength ?d"
    by (simp add: sbm_flushed_def)
  moreover have "0 \<le> vsd_nLength ?d" using assms(1) l by (simp add: sbm_inv_def)
  moreover have "sum_list (map vsd_nLength (sbm_held s @ sbm_unread s)) =
      vsd_nLength ?d + sum_list (map vsd_nLength (sbm_held (sbm_flushed s) @ sbm_unread (sbm_flushed s)))"
    using l by simp
  moreover have "set (sbm_held (sbm_flushed s) @ sbm_unread (sbm_flushed s)) \<subseteq> set (sbm_held s @ sbm_unread s)"
    using l by auto
  ultimately show ?thesis using assms(1) unfolding sbm_inv_def
    by (auto simp: sbm_flushed_def subset_iff)
qed

lemma SbmRequestStream_Some:
  assumes "sbm_inv s"
  shows "SbmRequestStream 0 (Some s) =
    (if sbm_unread s = [] then (None, Some s)
     else (Some (fifo_nReadPos (sbm_frameFifo s)), Some (sbm_requested s)))"
  using sbm_inv_counts(1) [OF assms]
  by (auto simp: SbmRequestStream_def sbm_requested_def Let_def)

lemma sbm_read_pos_in:
  assumes "sbm_inv s"
  shows "0 \<le> fifo_nReadPos (sbm_frameFifo s)"
    "fifo_nReadPos (sbm_frameFifo s) < int (length (fifo_pFrames (sbm_frameFifo s)))"
    "fifo_nMaxFrameNum (sbm_frameFifo s) = int (length (fifo_pFrames (sbm_frameFifo s)))"
  using assms by (auto simp: sbm_inv_def fifo_inv_def)

lemma SbmReturnStream_Some:
  assumes "sbm_inv s" "sbm_held s \<noteq> []"
    "i = ring_prev (fifo_nReadPos (sbm_frameFifo s)) (fifo_nMaxFrameNum (sbm_frameFifo s))"
  shows "SbmReturnStream 0 (Some s) (Some i) = Ok (0, Some (sbm_returned s))"
proof -
  have "fifo_nValidFrameNum (sbm_frameFifo s) \<noteq> 0"
    using sbm_inv_counts [OF assms(1)] assms(2) by (auto simp: neq_Nil_conv)
  moreover have "0 \<le> i" "i < int (length (fifo_pFrames (sbm_frameFifo s)))"
    using sbm_read_pos_in [OF assms(1)] assms(3) by (metis ring_prev_bounds)+
  ultimately show ?thesis
    using assms(3) by (simp add: SbmReturnStream_def sbm_returned_def Let_def arr_get_in arr_set_in)
qed

lemma SbmFlushStream_Some:
  assumes "sbm_inv s" "sbm_held s \<noteq> []"
  shows "SbmFlushStream 0 (Some s) (Some (fifo_nFlushPos (sbm_frameFifo s))) =
    Ok (0, Some (sbm_flushed s))"
proof -
  obtain fl h u where at: "fifo_at (sbm_frameFifo s) fl (Suc h) u" using assms by (rule sbm_at_held)
  let ?d = "fifo_pFrames (sbm_frameFifo s) ! nat (fifo_nFlushPos (sbm_frameFifo s))"
  have "sbm_inv (sbm_flushed s)" using sbm_flushed_inv assms by blast
  then have "0 \<le> sbm_nValidDataSize (sbm_flushed s)"
    "sbm_nValidDataSize (sbm_flushed s) \<le> 1073741824"
    using sbm_inv_data_nonneg by (auto simp: sbm_inv_def)
  then have "i32 (sbm_nValidDataSize s - vsd_nLength ?d) = sbm_nValidDataSize s - vsd_nLength ?d"
    by (intro i32_id) (simp add: int32_range_def sbm_flushed_def)
  moreover have "fifo_nValidFrameNum (sbm_frameFifo s) \<noteq> 0" "0 \<le> fifo_nFlushPos (sbm_frameFifo s)"
    "fifo_nFlushPos (sbm_frameFifo s) < int (length (fifo_pFrames (sbm_frameFifo s)))"
    using at by (auto simp: fifo_at_def)
  ultimately show ?thesis
    by (simp add: SbmFlushStream_def sbm_flushed_def Let_def arr_get_in)
qed

section \<open>The manager as a queue\<close>

definition sbm_put :: "VideoStreamDataInfo \<Rightarrow> Sbm \<Rightarrow> Sbm option" where
  "sbm_put d s = (case SbmAddStream 0 (Some s) (Some d) of
     Ok (r, t, _) \<Rightarrow> if r = 0 then t else None | _ \<Rightarrow> None)"

definition sbm_get :: "Sbm \<Rightarrow> (VideoStreamDataInfo \<times> Sbm) option" where
  "sbm_get s = (case SbmRequestStream 0 (Some s) of
     (Some i, Some t) \<Rightarrow>
       (case arr_get (fifo_pFrames (sbm_frameFifo t)) i of Ok d \<Rightarrow> Some (d, t) | _ \<Rightarrow> None)
   | _ \<Rightarrow> None)"

definition sbm_give_back :: "Sbm \<Rightarrow> Sbm option" where
  "sbm_give_back s =
     (case SbmReturnStream 0 (Some s)
        (Some (ring_prev (fifo_nReadPos (sbm_frameFifo s)) (fifo_nMaxFrameNum (sbm_frameFifo s)))) of
        Ok (r, t) \<Rightarrow> if r = 0 then t else None | _ \<Rightarrow> None)"

definition sbm_release :: "Sbm \<Rightarrow> Sbm option" where
  "sbm_release s =
     (case SbmFlushStream 0 (Some s) (Some (fifo_nFlushPos (sbm_frameFifo s))) of
        Ok (r, t) \<Rightarrow> if r = 0 then t else None | _ \<Rightarrow> None)"

lemma sbm_put_eq:
  "sbm_inv s \<Longrightarrow> vsd_good d \<Longrightarrow>
     sbm_put d s = (if sbm_accepts s d then Some (sbm_added s d) else None)"
  by (simp add: sbm_put_def SbmAddStream_Some)

lemma sbm_get_eq:
  assumes "sbm_inv s"
  shows "sbm_get s = (if sbm_unread s = [] then None else Some (hd (sbm_unread s), sbm_requested s))"
proof (cases "sbm_unread s = []")
  case True
  then show ?thesis using assms by (simp add: sbm_get_def SbmRequestStream_Some)
next
  case False
  then obtain fl h u where at: "fifo_at (sbm_frameFifo s) fl h (Suc u)"
    using assms sbm_at_unread by blast
  have fr: "fifo_pFrames (sbm_frameFifo (sbm_requested s)) = fifo_pFrames (sbm_frameFifo s)"
    by (simp add: sbm_requested_def)
  show ?thesis
    using False assms sbm_read_pos_in [OF assms] sbm_requested_lists(2) [OF at]
    by (simp add: sbm_get_def SbmRequestStream_Some fr arr_get_in)
qed

lemma sbm_put_law:
  assumes "sbm_inv s" "vsd_good d" "sbm_put d s = Some t"
  shows "sbm_inv t \<and> sbm_unread t = sbm_unread s @ [vsd_marked d] \<and> sbm_held t = sbm_held s"
proof -
  have t: "t = sbm_added s d" and acc: "sbm_accepts s d"
    using assms by (auto simp: sbm_put_eq split: if_splits)
  obtain fl h u where at: "fifo_at (sbm_frameFifo s) fl h u" using sbm_inv_fifo assms(1) by blast
  have "h + u < length (fifo_pFrames (sbm_frameFifo s))"
    using at acc by (simp add: fifo_at_def sbm_accepts_def)
  then show ?thesis using sbm_added_lists [OF at, of d] sbm_added_inv assms(1,2) acc t by blast
qed

lemma sbm_get_law:
  assumes "sbm_inv s" "sbm_unread s = d # ds"
  shows "sbm_get s = Some (d, sbm_requested s) \<and> sbm_inv (sbm_requested s) \<and>
    sbm_unread (sbm_requested s) = ds \<and> sbm_held (sbm_requested s) = sbm_held s @ [d]"
proof -
  obtain fl h u where at: "fifo_at (sbm_frameFifo s) fl h (Suc u)"
    using assms sbm_at_unread by (metis list.distinct(1))
  show ?thesis
    using sbm_requested_lists [OF at] assms by (simp add: sbm_get_eq sbm_requested_inv)
qed

lemma sbm_give_back_law:
  assumes "sbm_inv s" "sbm_held s = hs @ [d]"
  shows "\<exists>t. sbm_give_back s = Some t \<and> sbm_inv t \<and> sbm_held t = hs \<and> sbm_unread t = d # sbm_unread s"
proof -
  have ne: "sbm_held s \<noteq> []" using assms(2) by simp
  obtain fl h u where at: "fifo_at (sbm_frameFifo s) fl (Suc h) u" using sbm_at_held [OF assms(1) ne] .
  show ?thesis
    using sbm_returned_lists [OF at] sbm_returned_inv [OF assms(1) ne]
      SbmReturnStream_Some [OF assms(1) ne refl] assms(2)
    by (simp add: sbm_give_back_def)
qed

lemma sbm_release_law:
  assumes "sbm_inv s" "sbm_held s = d # hs"
  shows "\<exists>t. sbm_release s = Some t \<and> sbm_inv t \<and> sbm_held t = hs \<and> sbm_unread t = sbm_unread s"
proof -
  have ne: "sbm_held s \<noteq> []" using assms(2) by simp
  obtain fl h u where at: "fifo_at (sbm_frameFifo s) fl (Suc h) u" using sbm_at_held [OF assms(1) ne] .
  show ?thesis
    using sbm_flushed_lists [OF at] sbm_flushed_inv [OF assms(1) ne]
      SbmFlushStream_Some [OF assms(1) ne] assms(2)
    by (simp add: sbm_release_def)
qed

interpretation sbmq: held_fifo sbm_inv sbm_unread vsd_good vsd_marked sbm_put sbm_get
    sbm_held sbm_give_back sbm_release
proof unfold_locales
  fix s d t assume "sbm_inv s" "vsd_good d" "sbm_put d s = Some t"
  then show "sbm_inv t \<and> sbm_unread t = sbm_unread s @ [vsd_marked d]" "sbm_held t = sbm_held s"
    using sbm_put_law by blast+
next
  fix s d t assume "sbm_inv s" "sbm_get s = Some (d, t)"
  then show "sbm_held t = sbm_held s @ [d]"
    using sbm_get_law [of s "hd (sbm_unread s)" "tl (sbm_unread s)"]
    by (cases "sbm_unread s") (simp_all add: sbm_get_eq)
qed (auto simp: sbm_get_eq dest: sbm_get_law sbm_give_back_law sbm_release_law)

section \<open>The decoder as the client\<close>

text \<open>
  The decoder keeps the pointers it was given, in the order it got them. It gives back the
  newest one (\<open>SbmReturnStream\<close>) or flushes the oldest one (\<open>SbmFlushStream\<close>); the demuxer adds
  frames at any time, and a seek resets the manager, after which no pointer is used.
\<close>

datatype sbm_event =
  EvAdd VideoStreamDataInfo | EvRequest | EvReturn | EvFlush | EvReset

fun sbm_client_step :: "Sbm \<times> int list \<Rightarrow> sbm_event \<Rightarrow> (Sbm \<times> int list) exec" where
  "sbm_client_step (s, ps) (EvAdd d) =
     ebind (SbmAddStream 0 (Some s) (Some d)) (\<lambda>(r, t, _). Ok (the t, ps))"
| "sbm_client_step (s, ps) EvRequest =
     (case SbmRequestStream 0 (Some s) of
        (None, t) \<Rightarrow> Ok (the t, ps) | (Some i, t) \<Rightarrow> Ok (the t, ps @ [i]))"
| "sbm_client_step (s, ps) EvReturn =
     (if ps = [] then Ok (s, ps)
      else ebind (SbmReturnStream 0 (Some s) (Some (last ps))) (\<lambda>(r, t). Ok (the t, butlast ps)))"
| "sbm_client_step (s, ps) EvFlush =
     (if ps = [] then Ok (s, ps)
      else ebind (SbmFlushStream 0 (Some s) (Some (hd ps))) (\<lambda>(r, t). Ok (the t, tl ps)))"
| "sbm_client_step (s, ps) EvReset = Ok (the (SbmReset 0 (Some s)), [])"

fun sbm_client_run :: "Sbm \<times> int list \<Rightarrow> sbm_event list \<Rightarrow> (Sbm \<times> int list) exec" where
  "sbm_client_run st [] = Ok st"
| "sbm_client_run st (e # es) = ebind (sbm_client_step st e) (\<lambda>st'. sbm_client_run st' es)"

definition sbm_pointers :: "Sbm \<Rightarrow> int list" where
  "sbm_pointers s = (let f = sbm_frameFifo s in
     map (\<lambda>k. (fifo_nFlushPos f + int k) mod fifo_nMaxFrameNum f)
       [0..<nat (fifo_nValidFrameNum f - fifo_nUnReadFrameNum f)])"

lemma sbm_pointers_at:
  "fifo_at (sbm_frameFifo s) fl h u \<Longrightarrow>
     sbm_pointers s = map (\<lambda>k. int ((fl + k) mod length (fifo_pFrames (sbm_frameFifo s)))) [0..<h]"
  by (simp add: sbm_pointers_def fifo_at_def Let_def zmod_int)

lemma sbm_pointers_frames:
  assumes "sbm_inv s"
  shows "map (\<lambda>i. fifo_pFrames (sbm_frameFifo s) ! nat i) (sbm_pointers s) = sbm_held s"
proof -
  obtain fl h u where at: "fifo_at (sbm_frameFifo s) fl h u" using sbm_inv_fifo assms by blast
  show ?thesis using sbm_pointers_at [OF at] fifo_at_held [OF at] by (simp add: ring_slice_def)
qed

lemma SbmReset_Some: 
  assumes "sbm_inv s" "SbmReset 0 (Some s) = Some t"
  shows "sbm_inv t \<and> sbm_held t = [] \<and> sbm_unread t = [] \<and> sbm_pointers t = []"
  using assms by (auto simp: SbmReset_def sbm_inv_def fifo_inv_def sbm_held_def sbm_unread_def
      sbm_pointers_def)

lemma sbm_pointers_added:
  assumes "fifo_at (sbm_frameFifo s) fl h u" "h + u < length (fifo_pFrames (sbm_frameFifo s))"
  shows "sbm_pointers (sbm_added s d) = sbm_pointers s"
  using sbm_pointers_at [OF assms(1)] sbm_pointers_at [OF fifo_at_added [OF assms]]
  by (simp add: sbm_added_def)

lemma sbm_pointers_requested:
  assumes "fifo_at (sbm_frameFifo s) fl h (Suc u)"
  shows "sbm_pointers (sbm_requested s) = sbm_pointers s @ [fifo_nReadPos (sbm_frameFifo s)]"
  using sbm_pointers_at [OF assms] sbm_pointers_at [OF fifo_at_requested [OF assms]] assms
  by (simp add: sbm_requested_def fifo_at_def)

lemma sbm_pointers_returned:
  assumes "fifo_at (sbm_frameFifo s) fl (Suc h) u"
  shows "sbm_pointers s = sbm_pointers (sbm_returned s) @
    [ring_prev (fifo_nReadPos (sbm_frameFifo s)) (fifo_nMaxFrameNum (sbm_frameFifo s))]"
  using sbm_pointers_at [OF assms] sbm_pointers_at [OF fifo_at_returned [OF assms]] assms
  by (auto simp: sbm_returned_def fifo_at_def ring_prev_mod)

lemma sbm_pointers_flushed:
  assumes "fifo_at (sbm_frameFifo s) fl (Suc h) u"
  shows "sbm_pointers s = fifo_nFlushPos (sbm_frameFifo s) # sbm_pointers (sbm_flushed s)"
proof -
  let ?m = "length (fifo_pFrames (sbm_frameFifo s))"
  have "map (\<lambda>k. int ((fl + k) mod ?m)) [0..<Suc h] =
      int (fl mod ?m) # map (\<lambda>k. int ((Suc fl + k) mod ?m)) [0..<h]"
    by (simp add: upt_conv_Cons map_Suc_upt [symmetric] del: upt_Suc)
  moreover have "map (\<lambda>k. int ((Suc fl + k) mod ?m)) [0..<h] =
      map (\<lambda>k. int ((Suc fl mod ?m + k) mod ?m)) [0..<h]"
    by (simp add: mod_add_left_eq)
  ultimately show ?thesis
    using sbm_pointers_at [OF assms] sbm_pointers_at [OF fifo_at_flushed [OF assms]] assms
    by (simp add: sbm_flushed_def fifo_at_def)
qed

lemma sbm_client_step_ok:
  assumes inv: "sbm_inv s" and good: "\<And>d. e = EvAdd d \<Longrightarrow> vsd_good d"
  shows "\<exists>t. sbm_client_step (s, sbm_pointers s) e = Ok (t, sbm_pointers t) \<and> sbm_inv t"
proof (cases e)
  case (EvAdd d)
  obtain fl h u where at: "fifo_at (sbm_frameFifo s) fl h u" using sbm_inv_fifo inv by blast
  have "sbm_accepts s d \<Longrightarrow> h + u < length (fifo_pFrames (sbm_frameFifo s))"
    using at by (simp add: fifo_at_def sbm_accepts_def)
  then show ?thesis
    using EvAdd good [OF EvAdd] inv sbm_added_inv sbm_pointers_added [OF at]
    by (simp add: SbmAddStream_Some)
next
  case EvRequest
  show ?thesis
  proof (cases "sbm_unread s = []")
    case True
    then show ?thesis using EvRequest inv by (simp add: SbmRequestStream_Some)
  next
    case False
    then obtain fl h u where at: "fifo_at (sbm_frameFifo s) fl h (Suc u)"
      using inv sbm_at_unread by blast
    show ?thesis
      using EvRequest False inv sbm_requested_inv [OF inv False] sbm_pointers_requested [OF at]
      by (simp add: SbmRequestStream_Some)
  qed
next
  case EvReturn
  show ?thesis
  proof (cases "sbm_held s = []")
    case True
    then have "sbm_pointers s = []" using sbm_pointers_frames [OF inv] by simp
    then show ?thesis using EvReturn inv by auto
  next
    case False
    then obtain fl h u where at: "fifo_at (sbm_frameFifo s) fl (Suc h) u"
      using inv sbm_at_held by blast
    show ?thesis
      using EvReturn sbm_returned_inv [OF inv False] sbm_pointers_returned [OF at]
        SbmReturnStream_Some [OF inv False refl] by auto
  qed
next
  case EvFlush
  show ?thesis
  proof (cases "sbm_held s = []")
    case True
    then have "sbm_pointers s = []" using sbm_pointers_frames [OF inv] by simp
    then show ?thesis using EvFlush inv by auto
  next
    case False
    then obtain fl h u where at: "fifo_at (sbm_frameFifo s) fl (Suc h) u"
      using inv sbm_at_held by blast
    show ?thesis
      using EvFlush sbm_flushed_inv [OF inv False] sbm_pointers_flushed [OF at]
        SbmFlushStream_Some [OF inv False] by auto
  qed
next
  case EvReset
  then show ?thesis using SbmReset_Some [OF inv] by (auto simp: SbmReset_def)
qed

lemma sbm_client_run_ok:
  assumes "sbm_inv s" "\<And>d. EvAdd d \<in> set es \<Longrightarrow> vsd_good d"
  shows "\<exists>t. sbm_client_run (s, sbm_pointers s) es = Ok (t, sbm_pointers t) \<and> sbm_inv t"
  using assms
proof (induction es arbitrary: s)
  case Nil
  then show ?case by simp
next
  case (Cons e es)
  obtain t where t: "sbm_client_step (s, sbm_pointers s) e = Ok (t, sbm_pointers t)" "sbm_inv t"
    using sbm_client_step_ok [OF Cons.prems(1), of e] Cons.prems(2) by auto
  then show ?case using Cons.IH [OF t(2)] Cons.prems(2) by auto
qed

lemma sbm_initial_inv:
  assumes "0 < pSbmBuf" "0 < n" "n \<le> 1073741824"
  shows "sbm_inv (sbm_initial pSbmBuf n m)" "sbm_held (sbm_initial pSbmBuf n m) = []"
    "sbm_unread (sbm_initial pSbmBuf n m) = []" "sbm_pointers (sbm_initial pSbmBuf n m) = []"
  using assms
  by (auto simp: sbm_initial_def sbm_inv_def fifo_inv_def sbm_held_def sbm_unread_def
      sbm_pointers_def SBM_FRAME_FIFO_SIZE_def simp del: upt_Suc)

lemma sbm_accepted_lists:
  assumes "sbm_inv s" "sbm_accepts s d"
  shows "sbm_held (sbm_added s d) = sbm_held s"
    "sbm_unread (sbm_added s d) = sbm_unread s @ [vsd_marked d]"
proof -
  obtain fl h u where at: "fifo_at (sbm_frameFifo s) fl h u" using sbm_inv_fifo assms(1) by blast
  moreover have "h + u < length (fifo_pFrames (sbm_frameFifo s))"
    using at assms(2) by (simp add: fifo_at_def sbm_accepts_def)
  ultimately show "sbm_held (sbm_added s d) = sbm_held s"
    "sbm_unread (sbm_added s d) = sbm_unread s @ [vsd_marked d]"
    by (rule sbm_added_lists)+
qed

section \<open>Properties\<close>

text \<open>A small manager for concrete instances: 100 bytes at address 4096, three table entries.\<close>

definition sbm_example :: Sbm where
  "sbm_example = (sbm_initial 4096 100 0)\<lparr>sbm_frameFifo :=
     \<lparr>fifo_pFrames = [vsd_zero, vsd_zero, vsd_zero], fifo_nMaxFrameNum = 3,
      fifo_nValidFrameNum = 0, fifo_nUnReadFrameNum = 0, fifo_nReadPos = 0, fifo_nWritePos = 0,
      fifo_nFlushPos = 0\<rparr>\<rparr>"

definition vsd_example :: "int \<Rightarrow> VideoStreamDataInfo" where
  "vsd_example n = vsd_zero\<lparr>vsd_pData := 4096, vsd_nLength := n\<rparr>"

lemma sbm_example_inv:
  "sbm_inv sbm_example" "sbm_pointers sbm_example = []" "sbm_held sbm_example = []"
  "sbm_unread sbm_example = []"
  by (simp_all add: sbm_example_def sbm_initial_def sbm_inv_def fifo_inv_def sbm_held_def
      sbm_unread_def sbm_pointers_def)

lemma vsd_example_good: "0 \<le> n \<Longrightarrow> n \<le> 1073741823 \<Longrightarrow> vsd_good (vsd_example n)"
  by (simp add: vsd_good_def vsd_example_def vsd_zero_def)

lemma sbm_example_accepts:
  "0 \<le> n \<Longrightarrow> n \<le> 100 \<Longrightarrow> sbm_accepts sbm_example (vsd_example n)"
  by (simp add: sbm_accepts_def sbm_example_def vsd_example_def sbm_initial_def vsd_zero_def)

text \<open>C4: In every interleaving of demuxer and decoder in which the decoder gives back the
  newest pointer it holds or flushes the oldest one, no call of the manager aborts or reads or
  writes outside the frame table, and after any number of steps the invariant holds: the write
  address is inside the byte buffer, the byte counter is the total length of the frames in use
  and at most the buffer size, and the decoder's pointers are exactly the requested frames.\<close>

theorem sbm_decoder_protocol_safe:
  assumes "sbm_inv s" "sbm_pointers s = []" "\<forall>d. EvAdd d \<in> set es \<longrightarrow> vsd_good d"
  shows "\<exists>t ps. sbm_client_run (s, []) es = Ok (t, ps) \<and> sbm_inv t \<and>
    map (\<lambda>i. fifo_pFrames (sbm_frameFifo t) ! nat i) ps = sbm_held t"
proof -
  obtain t where "sbm_client_run (s, sbm_pointers s) es = Ok (t, sbm_pointers t)" "sbm_inv t"
    using sbm_client_run_ok [of s es] assms(1,3) by blast
  then show ?thesis using assms(2) sbm_pointers_frames by auto
qed

theorem sbm_decoder_protocol_safe_witness:
  "\<exists>t ps. sbm_client_run (sbm_example, [])
       [EvAdd (vsd_example 60), EvAdd (vsd_example 30), EvRequest, EvReturn, EvRequest, EvFlush,
        EvAdd (vsd_example 50), EvRequest] = Ok (t, ps) \<and> sbm_inv t \<and>
     map (\<lambda>i. fifo_pFrames (sbm_frameFifo t) ! nat i) ps = sbm_held t"
  by (rule sbm_decoder_protocol_safe) (auto simp: sbm_example_inv vsd_example_good)

text \<open>C24: The stream data obeys the FIFO rule. Over any interleaving of \<open>SbmAddStream\<close> and
  \<open>SbmRequestStream\<close> the frames that were unread followed by the accepted ones are the
  requested ones followed by those still unread; an accepted frame is stored as given, with
  its valid mark set.\<close>

theorem sbm_fifo_order:
  assumes "sbm_inv s" "\<forall>d. Put d \<in> set es \<longrightarrow> vsd_good d"
    "fifo_run sbm_put sbm_get es s = (ins, outs, t)"
  shows "sbm_unread s @ map vsd_marked ins = outs @ sbm_unread t \<and> sbm_inv t"
  using sbmq.run_fifo [OF assms] by blast

theorem sbm_fifo_order_witness:
  "\<exists>ins outs t.
     fifo_run sbm_put sbm_get [Put (vsd_example 60), Get, Put (vsd_example 30)] sbm_example =
       (ins, outs, t) \<and>
     sbm_unread sbm_example @ map vsd_marked ins = outs @ sbm_unread t \<and> sbm_inv t"
proof -
  obtain ins outs t where
    "fifo_run sbm_put sbm_get [Put (vsd_example 60), Get, Put (vsd_example 30)] sbm_example =
      (ins, outs, t)" by (rule prod_cases3)
  moreover from this have "sbm_unread sbm_example @ map vsd_marked ins = outs @ sbm_unread t \<and> sbm_inv t"
    by (rule sbm_fifo_order [rotated 2]) (auto simp: sbm_example_inv vsd_example_good)
  ultimately show ?thesis by blast
qed

text \<open>Requesting a frame and returning it at once restores the manager: the same frame will
  be requested next.\<close>

theorem sbm_request_return_round_trip:
  assumes "sbm_inv s" "SbmRequestStream 0 (Some s) = (Some i, Some t)"
  shows "SbmReturnStream 0 (Some t) (Some i) = Ok (0, Some s)"
proof -
  have u: "sbm_unread s \<noteq> []" and i: "i = fifo_nReadPos (sbm_frameFifo s)"
    and t: "t = sbm_requested s"
    using assms(2) by (auto simp: SbmRequestStream_Some [OF assms(1)] split: if_splits)
  obtain fl h v where "fifo_at (sbm_frameFifo s) fl h (Suc v)"
    using sbm_at_unread [OF assms(1) u] .
  then have inv: "sbm_inv t" "sbm_held t \<noteq> []"
    using sbm_requested_inv [OF assms(1) u] sbm_requested_lists(1) t by auto
  note pos = sbm_read_pos_in [OF assms(1)]
  have "i = ring_prev (fifo_nReadPos (sbm_frameFifo t)) (fifo_nMaxFrameNum (sbm_frameFifo t))"
    using pos i t by (simp add: sbm_requested_def ring_prev_next)
  moreover have "sbm_returned t = s"
    using pos t by (simp add: sbm_requested_def sbm_returned_def ring_prev_next)
  ultimately show ?thesis using SbmReturnStream_Some [OF inv] by simp
qed

theorem sbm_request_return_round_trip_witness:
  "SbmReturnStream 0 (Some (sbm_requested (sbm_added sbm_example (vsd_example 60)))) (Some 0) =
     Ok (0, Some (sbm_added sbm_example (vsd_example 60)))"
proof (rule sbm_request_return_round_trip)
  show "sbm_inv (sbm_added sbm_example (vsd_example 60))"
    by (rule sbm_added_inv) (simp_all add: sbm_example_inv vsd_example_good sbm_example_accepts)
  show "SbmRequestStream 0 (Some (sbm_added sbm_example (vsd_example 60))) =
      (Some 0, Some (sbm_requested (sbm_added sbm_example (vsd_example 60))))"
    by (simp add: SbmRequestStream_def sbm_requested_def sbm_added_def sbm_example_def Let_def)
qed

text \<open>C31: Space promised is space granted. When \<open>SbmRequestBuffer\<close> answers 0 for a size
  between 0 and 2147483583, the address it stores is the write address, inside the buffer, and
  a frame of at most the requested size handed to \<open>SbmAddStream\<close> next is accepted, leaving at
  least 64 bytes of the buffer unused.\<close>

theorem sbm_request_buffer_honoured:
  assumes "sbm_inv s" "0 \<le> n" "n \<le> 2147483583"
    "SbmRequestBuffer 0 (Some s) n (Some b) (Some z) = (0, Some b', Some z')"
    "vsd_pData d \<noteq> 0" "0 \<le> vsd_nLength d" "vsd_nLength d \<le> n"
  shows "z' = n \<and> sbm_pStreamBuffer s \<le> b' \<and> b' \<le> sbm_pStreamBufferEnd s \<and>
    (\<exists>t. SbmAddStream 0 (Some s) (Some d) = Ok (0, Some t, Some (vsd_marked d)) \<and>
       sbm_inv t \<and> sbm_unread t = sbm_unread s @ [vsd_marked d] \<and>
       sbm_nValidDataSize t + 64 \<le> sbm_nStreamBufferSize t)"
proof -
  have i: "i32 (n + 64) = n + 64" using assms(2,3) by (simp add: i32_id int32_range_def)
  have a: "z' = n" "b' = sbm_pWriteAddr s" "n + 64 \<le> sbm_nStreamBufferSize s - sbm_nValidDataSize s"
    "fifo_nValidFrameNum (sbm_frameFifo s) < fifo_nMaxFrameNum (sbm_frameFifo s)"
    using assms(4) i by (auto simp: SbmRequestBuffer_def Let_def split: if_splits)
  have b: "sbm_pStreamBuffer s \<le> sbm_pWriteAddr s" "sbm_pWriteAddr s \<le> sbm_pStreamBufferEnd s"
    "sbm_nStreamBufferSize s \<le> 1073741824"
    using assms(1) by (simp_all add: sbm_inv_def)
  have g: "vsd_good d" "sbm_accepts s d"
    using a b(3) assms(5-7) sbm_inv_data_nonneg [OF assms(1)]
    by (auto simp: vsd_good_def sbm_accepts_def)
  have "SbmAddStream 0 (Some s) (Some d) = Ok (0, Some (sbm_added s d), Some (vsd_marked d))"
    using SbmAddStream_Some [OF assms(1) g(1)] g(2) by simp
  moreover have "sbm_inv (sbm_added s d)" "sbm_unread (sbm_added s d) = sbm_unread s @ [vsd_marked d]"
    using sbm_added_inv [OF assms(1) g] sbm_accepted_lists [OF assms(1) g(2)] by auto
  moreover have "sbm_nValidDataSize (sbm_added s d) + 64 \<le> sbm_nStreamBufferSize (sbm_added s d)"
    using a assms(7) by (simp add: sbm_added_def)
  ultimately show ?thesis using a b by auto
qed

theorem sbm_request_buffer_honoured_witness:
  "\<exists>t. SbmAddStream 0 (Some sbm_example) (Some (vsd_example 30)) =
       Ok (0, Some t, Some (vsd_marked (vsd_example 30))) \<and> sbm_inv t \<and>
     sbm_unread t = sbm_unread sbm_example @ [vsd_marked (vsd_example 30)]"
proof -
  have "SbmRequestBuffer 0 (Some sbm_example) 36 (Some 0) (Some 0) = (0, Some 4096, Some 36)"
    by (simp add: SbmRequestBuffer_def sbm_example_def sbm_initial_def i32_def)
  moreover have "vsd_pData (vsd_example 30) = 4096" "vsd_nLength (vsd_example 30) = 30"
    by (simp_all add: vsd_example_def)
  ultimately show ?thesis
    using sbm_request_buffer_honoured [OF sbm_example_inv(1), of 36 0 0 4096 36 "vsd_example 30"]
    by auto
qed

text \<open>Memory of the manager. Whatever allocation fails, \<open>SbmCreate\<close> frees exactly the
  blocks it took when it returns \<open>NULL\<close>; when it succeeds the new manager satisfies the
  invariant with no frame in it, and \<open>SbmDestroy\<close> frees every block once.\<close>

theorem sbm_create_destroy_balanced:
  assumes "0 \<le> pSbmBuf" "nBufferSize \<le> 1073741824"
    "SbmCreate nBufferSize memops pSbmBuf okSbm okFrames ret = (r, tr)"
  shows "frees_ok [] (tr @ SbmDestroy r) \<and> live_blocks [] (tr @ SbmDestroy r) = [] \<and>
    (r = None \<longrightarrow> live_blocks [] tr = []) \<and>
    (r \<noteq> None \<longrightarrow> sbm_inv (the r) \<and> sbm_held (the r) = [] \<and> sbm_unread (the r) = [] \<and>
       SbmBufferSize r = nBufferSize \<and> SbmBufferAddress r = pSbmBuf \<and> SbmStreamFrameNum r = 0)"
proof (cases "0 < nBufferSize \<and> pSbmBuf \<noteq> 0 \<and> okSbm \<and> okFrames \<and> ret = 0")
  case True
  then have r: "r = Some (sbm_initial pSbmBuf nBufferSize memops)"
    "tr = [Alloc PallocBuffer, Alloc SbmStruct, Alloc FifoFrames]"
    using assms(3) by (auto simp: SbmCreate_def)
  have "fifo_pFrames (sbm_frameFifo (sbm_initial pSbmBuf nBufferSize memops)) \<noteq> []"
    by (simp add: sbm_initial_def SBM_FRAME_FIFO_SIZE_def del: upt_Suc)
  then show ?thesis
    using r True assms(1,2) sbm_initial_inv [of pSbmBuf nBufferSize memops]
    by (simp add: SbmDestroy_def SbmBufferSize_def SbmBufferAddress_def SbmStreamFrameNum_def)
      (simp add: sbm_initial_def)
next
  case False
  then have "r = None" using assms(3) by (auto simp: SbmCreate_def split: if_splits)
  then show ?thesis
    using assms(3) by (auto simp: SbmCreate_def SbmDestroy_def split: if_splits)
qed

theorem sbm_create_destroy_balanced_witness:
  "live_blocks [] (snd (SbmCreate 1048576 7 4096 True False 0)) = [] \<and>
   fst (SbmCreate 1048576 7 4096 True False 0) = None \<and>
   sbm_inv (the (fst (SbmCreate 1048576 7 4096 True True 0)))"
  using sbm_create_destroy_balanced [of 4096 1048576 7 True False 0 None
      "[Alloc PallocBuffer, Alloc SbmStruct, Free SbmStruct, Free PallocBuffer]"]
    sbm_create_destroy_balanced [of 4096 1048576 7 True True 0 "Some (sbm_initial 4096 1048576 7)"
      "[Alloc PallocBuffer, Alloc SbmStruct, Alloc FifoFrames]"]
  by (simp add: SbmCreate_def)

text \<open>\<open>SbmFlushStream\<close> does not check that the frame it releases has been requested.
  Flushing the oldest frame while it is unread succeeds and leaves more unread frames than
  frames in use, so the next request hands out an entry that is no longer in use.\<close>

theorem sbm_flush_unread_breaks_count:
  assumes "sbm_inv s" "sbm_held s = []" "sbm_unread s = [d]"
  shows "\<exists>t t'. SbmFlushStream 0 (Some s) (Some (fifo_nFlushPos (sbm_frameFifo s))) = Ok (0, Some t) \<and>
    fifo_nValidFrameNum (sbm_frameFifo t) = 0 \<and> fifo_nUnReadFrameNum (sbm_frameFifo t) = 1 \<and>
    \<not> sbm_inv t \<and>
    SbmRequestStream 0 (Some t) = (Some (fifo_nFlushPos (sbm_frameFifo s)), Some t')"
proof -
  have c: "fifo_nValidFrameNum (sbm_frameFifo s) = 1" "fifo_nUnReadFrameNum (sbm_frameFifo s) = 1"
    using sbm_inv_counts [OF assms(1)] assms(2,3) by auto
  obtain fl h u where "fifo_at (sbm_frameFifo s) fl h u" using assms(1) sbm_inv_fifo by blast
  then have "0 \<le> fifo_nFlushPos (sbm_frameFifo s)"
    "fifo_nFlushPos (sbm_frameFifo s) < int (length (fifo_pFrames (sbm_frameFifo s)))"
    "fifo_nReadPos (sbm_frameFifo s) = fifo_nFlushPos (sbm_frameFifo s)"
    using c by (auto simp: fifo_at_def)
  then show ?thesis using c
    by (auto simp: SbmFlushStream_def SbmRequestStream_def Let_def arr_get_in sbm_inv_def fifo_inv_def)
qed

theorem sbm_flush_unread_breaks_count_witness:
  "\<exists>t. SbmFlushStream 0 (Some (sbm_added sbm_example (vsd_example 60))) (Some 0) = Ok (0, Some t) \<and>
    \<not> sbm_inv t"
proof -
  have a: "sbm_accepts sbm_example (vsd_example 60)" "vsd_good (vsd_example 60)"
    by (simp_all add: vsd_example_good sbm_example_accepts)
  have "fifo_nFlushPos (sbm_frameFifo (sbm_added sbm_example (vsd_example 60))) = 0"
    by (simp add: sbm_added_def sbm_example_def)
  moreover have "sbm_held (sbm_added sbm_example (vsd_example 60)) = []"
    "sbm_unread (sbm_added sbm_example (vsd_example 60)) = [vsd_marked (vsd_example 60)]"
    using sbm_accepted_lists [OF sbm_example_inv(1) a(1)] by (simp_all add: sbm_example_inv)
  ultimately show ?thesis
    using sbm_flush_unread_breaks_count [OF sbm_added_inv [OF sbm_example_inv(1) a(2,1)]] by auto
qed

end
