(* ===== verification/Linked_Queue.thy ===== *)
theory Linked_Queue
  imports Cedar_Prelude
begin

text \<open>Queues threaded through a table of nodes by a next field, as the frame buffer manager
  and the message queue keep them. A pointer to a node is its index in the table and \<open>NULL\<close> is
  \<open>None\<close>; \<open>nx i\<close> is \<open>Some n\<close> when \<open>i\<close> is a node whose next field is \<open>n\<close> and \<open>None\<close> when there
  is no node \<open>i\<close>. The walk to the last node has no bound of its own: on a cyclic list it does
  not return, and its value is \<open>None\<close>, as for a walk that leaves the table.\<close>

definition node_next :: "('n \<Rightarrow> nat option) \<Rightarrow> 'n list \<Rightarrow> nat \<Rightarrow> nat option option" where
  "node_next sel ns i = (if i < length ns then Some (sel (ns ! i)) else None)"

partial_function (option) list_tail :: "(nat \<Rightarrow> nat option option) \<Rightarrow> nat \<Rightarrow> nat option" where
  "list_tail nx c =
     (case nx c of
        None \<Rightarrow> None
      | Some n \<Rightarrow> (case n of None \<Rightarrow> Some c | Some c' \<Rightarrow> list_tail nx c'))"

fun chain :: "(nat \<Rightarrow> nat option option) \<Rightarrow> nat option \<Rightarrow> nat list \<Rightarrow> bool" where
  "chain nx h [] \<longleftrightarrow> h = None"
| "chain nx h (i # is) \<longleftrightarrow>
     h = Some i \<and> (case nx i of None \<Rightarrow> False | Some n \<Rightarrow> chain nx n is)"

lemma node_next_update:
  "i < length ns \<Longrightarrow> node_next sel (ns[i := n]) = (node_next sel ns)(i \<mapsto> sel n)"
  by (auto simp: node_next_def fun_eq_iff nth_list_update)

lemma node_next_map:
  "(\<And>i. i < length ns \<Longrightarrow> sel (f (ns ! i)) = sel (ns ! i)) \<Longrightarrow>
    node_next sel (map f ns) = node_next sel ns"
  by (auto simp: node_next_def fun_eq_iff)

lemma chain_unique: "chain nx h xs \<Longrightarrow> chain nx h ys \<Longrightarrow> xs = ys"
proof (induction xs arbitrary: h ys)
  case Nil
  then show ?case by (cases ys) auto
next
  case (Cons x xs)
  then show ?case by (cases ys) (auto split: option.splits)
qed

lemma chain_None [simp]: "chain nx None xs \<longleftrightarrow> xs = []"
  by (cases xs) auto

lemma chain_upd: "i \<notin> set xs \<Longrightarrow> chain (nx(i := v)) h xs = chain nx h xs"
  by (induction xs arbitrary: h) (auto split: option.splits)

lemma chain_suffix:
  "chain nx h (xs @ x # ys) \<Longrightarrow> chain nx (Some x) (x # ys)"
proof (induction xs arbitrary: h)
  case (Cons a xs)
  then obtain n where "chain nx n (xs @ x # ys)" by (auto split: option.splits)
  then show ?case by (rule Cons.IH)
qed auto

text \<open>A list that ends has no node twice.\<close>

lemma chain_distinct: "chain nx h xs \<Longrightarrow> distinct xs"
proof (induction xs arbitrary: h)
  case (Cons x xs)
  have "x \<notin> set xs"
  proof
    assume "x \<in> set xs"
    then obtain as bs where xs: "xs = as @ x # bs" by (meson split_list)
    have "chain nx (Some x) (x # bs)" using chain_suffix [of nx h "x # as"] Cons.prems xs by simp
    moreover have "chain nx (Some x) (x # xs)" using Cons.prems by simp
    ultimately have "x # bs = x # xs" using chain_unique by blast
    then have "length bs = length (as @ x # bs)" using xs by simp
    then show False by simp
  qed
  moreover obtain n where "chain nx n xs" using Cons.prems by (auto split: option.splits)
  ultimately show ?case using Cons.IH by simp
qed simp

lemma chain_nodes: "chain nx h xs \<Longrightarrow> i \<in> set xs \<Longrightarrow> nx i \<noteq> None"
  by (induction xs arbitrary: h) (auto split: option.splits)

lemma chain_last: "chain nx h (xs @ [l]) \<Longrightarrow> nx l = Some None"
  by (induction xs arbitrary: h) (auto split: option.splits)

lemma chain_tail:
  "chain nx (Some c) xs \<Longrightarrow> list_tail nx c = Some (last xs)"
proof (induction xs arbitrary: c)
  case (Cons x xs)
  then show ?case
    by (cases xs; subst list_tail.simps) (auto split: option.splits)
qed simp

text \<open>What an append at the tail and a removal at the head do to the list.\<close>

lemma chain_snoc:
  assumes "chain nx h (xs @ [l])" "p \<notin> set (xs @ [l])"
  shows "chain (nx(l \<mapsto> Some p, p \<mapsto> None)) h (xs @ [l, p])"
proof -
  have "l \<notin> set xs" using chain_distinct [OF assms(1)] by simp
  then show ?thesis using assms
    by (induction xs arbitrary: h) (auto split: option.splits)
qed

lemma chain_singleton: "chain (nx(p \<mapsto> None)) (Some p) [p]"
  by simp

lemma chain_hd:
  assumes "chain nx (Some i) xs"
  shows "\<exists>n ys. xs = i # ys \<and> nx i = Some n \<and> chain nx n ys \<and> i \<notin> set ys"
  using assms chain_distinct [OF assms] by (cases xs) (auto split: option.splits)

text \<open>The list read off by walking at most \<open>k\<close> nodes.\<close>

fun chain_list :: "(nat \<Rightarrow> nat option option) \<Rightarrow> nat \<Rightarrow> nat option \<Rightarrow> nat list" where
  "chain_list nx 0 h = []"
| "chain_list nx (Suc k) h =
     (case h of
        None \<Rightarrow> []
      | Some i \<Rightarrow> (case nx i of None \<Rightarrow> [] | Some n \<Rightarrow> i # chain_list nx k n))"

lemma chain_list_eq: "chain nx h xs \<Longrightarrow> length xs \<le> k \<Longrightarrow> chain_list nx k h = xs"
proof (induction xs arbitrary: h k)
  case Nil
  then show ?case by (cases k) auto
next
  case (Cons x xs)
  then show ?case by (cases k) (auto split: option.splits)
qed

lemma chain_length:
  assumes "chain (node_next sel ns) h xs"
  shows "length xs \<le> length ns"
proof -
  have "set xs \<subseteq> {..<length ns}"
    using chain_nodes [OF assms] by (force simp: node_next_def split: if_splits)
  then have "card (set xs) \<le> card {..<length ns}" by (intro card_mono) auto
  then show ?thesis using distinct_card [OF chain_distinct [OF assms]] by simp
qed

end
