(* ===== verification/Fbm_Data.thy ===== *)
theory Fbm_Data
  imports Linked_Queue
begin

text \<open>The data of the frame buffer manager (\<open>vdecoder/include/fbm.h\<close>, \<open>include/vdecoder.h\<close>)
  and its three queue primitives.

  Both managers a decoder may create live in one \<open>VideoFbmInfo\<close>, so the model keeps the
  contents of \<open>pFbmFirst\<close> and \<open>pFbmSecond\<close> inside it; a \<open>Fbm*\<close> is one of the two handles. A
  \<open>FrameNode*\<close> is an index into \<open>pFrames\<close>. A \<open>VideoPicture*\<close> is the picture embedded in a
  node of one of the managers, or a structure of the caller (\<open>PicOther\<close>, an index into the list
  of such structures). The flags of a node are only ever assigned 0 and 1 and are booleans here.\<close>

unbundle bit_operations_syntax

section \<open>Pictures\<close>

record VideoPicture =
  vp_nID :: int
  vp_nStreamIndex :: int
  vp_ePixelFormat :: int
  vp_nWidth :: int
  vp_nHeight :: int
  vp_nLineStride :: int
  vp_nTopOffset :: int
  vp_nLeftOffset :: int
  vp_nBottomOffset :: int
  vp_nRightOffset :: int
  vp_nFrameRate :: int
  vp_nAspectRatio :: int
  vp_bIsProgressive :: int
  vp_bTopFieldFirst :: int
  vp_bRepeatTopField :: int
  vp_nPts :: int
  vp_nPcr :: int
  vp_pData0 :: addr
  vp_pData1 :: addr
  vp_pData2 :: addr
  vp_pData3 :: addr
  vp_bMafValid :: int
  vp_pMafData :: addr
  vp_nMafFlagStride :: int
  vp_bPreFrmValid :: int
  vp_nBufId :: int
  vp_phyYBufAddr :: addr
  vp_phyCBufAddr :: addr
  vp_pPrivate :: addr
  vp_nBufStatus :: int
  vp_bTopFieldError :: int
  vp_bBottomFieldError :: int
  vp_nColorPrimary :: int
  vp_bFrameErrorFlag :: int

definition vp_zero :: VideoPicture where
  "vp_zero =
     \<lparr>vp_nID = 0, vp_nStreamIndex = 0, vp_ePixelFormat = 0, vp_nWidth = 0, vp_nHeight = 0,
      vp_nLineStride = 0, vp_nTopOffset = 0, vp_nLeftOffset = 0, vp_nBottomOffset = 0,
      vp_nRightOffset = 0, vp_nFrameRate = 0, vp_nAspectRatio = 0, vp_bIsProgressive = 0,
      vp_bTopFieldFirst = 0, vp_bRepeatTopField = 0, vp_nPts = 0, vp_nPcr = 0, vp_pData0 = 0,
      vp_pData1 = 0, vp_pData2 = 0, vp_pData3 = 0, vp_bMafValid = 0, vp_pMafData = 0,
      vp_nMafFlagStride = 0, vp_bPreFrmValid = 0, vp_nBufId = 0, vp_phyYBufAddr = 0,
      vp_phyCBufAddr = 0, vp_pPrivate = 0, vp_nBufStatus = 0, vp_bTopFieldError = 0,
      vp_bBottomFieldError = 0, vp_nColorPrimary = 0, vp_bFrameErrorFlag = 0\<rparr>"

section \<open>Nodes and managers\<close>

record FrameNode =
  bUsedByDecoder :: bool
  bUsedByRender :: bool
  bInValidPictureQueue :: bool
  bAlreadyDisplayed :: bool
  bNeedRelease :: bool
  vpicture :: VideoPicture
  pNext :: "nat option"

record Fbm =
  fbm_nMaxFrameNum :: int
  fbm_nEmptyBufferNum :: int
  fbm_nValidPictureNum :: int
  fbm_nReleaseBufferNum :: int
  fbm_pEmptyBufferQueue :: "nat option"
  fbm_pValidPictureQueue :: "nat option"
  fbm_pReleaseBufferQueue :: "nat option"
  fbm_bThumbnailMode :: int
  fbm_pFrames :: "FrameNode list"
  fbm_bUseGpuBuf :: int
  fbm_nAlignValue :: int
  fbm_pFbmInfo :: bool
  fbm_nDecoderHoldingNum :: int
  fbm_nRenderHoldingNum :: int
  fbm_nWaitForDispNum :: int
  fbm_memops :: addr

record FbmBufInfo =
  fbi_nBufNum :: int
  fbi_nBufWidth :: int
  fbi_nBufHeight :: int
  fbi_ePixelFormat :: int
  fbi_nAlignValue :: int
  fbi_bProgressiveFlag :: int
  fbi_bIsSoftDecoderFlag :: int

record FbmCreateInfo =
  fci_nFrameNum :: int
  fci_nDecoderNeededMiniFrameNum :: int
  fci_nWidth :: int
  fci_nHeight :: int
  fci_ePixelFormat :: int
  fci_bThumbnailMode :: int
  fci_bGpuBufValid :: int
  fci_nAlignStride :: int
  fci_nBufferType :: int
  fci_bProgressiveFlag :: int
  fci_bIsSoftDecoderFlag :: int
  fci_memops :: addr

datatype fbm_handle = FbmFirst | FbmSecond

datatype pic_ptr = PicAt fbm_handle nat | PicOther nat

record VideoFbmInfo =
  vfi_nValidBufNum :: nat
  vfi_pFbmFirst :: "Fbm option"
  vfi_pFbmSecond :: "Fbm option"
  vfi_pFbmBufInfo :: FbmBufInfo
  vfi_bIs3DStream :: int
  vfi_bTwoStreamShareOneFbm :: int
  vfi_pMajorDispFrame :: "pic_ptr option"
  vfi_pMajorDecoderFrame :: "pic_ptr option"
  vfi_nMinorYBufOffset :: int
  vfi_nMinorCBufOffset :: int
  vfi_bIsFrameCtsTestFlag :: int
  vfi_nExtraFbmBufferNum :: int
  vfi_nDecoderNeededMiniFbmNum :: int
  vfi_nDecoderNeededMiniFbmNumSD :: int

text \<open>The caller's own picture structures extend the state the operations work on.\<close>

record FbmWorld = VideoFbmInfo +
  others :: "VideoPicture list"

section \<open>Access through pointers\<close>

definition fbm_sel :: "fbm_handle \<Rightarrow> FbmWorld \<Rightarrow> Fbm option" where
  "fbm_sel h w = (case h of FbmFirst \<Rightarrow> vfi_pFbmFirst w | FbmSecond \<Rightarrow> vfi_pFbmSecond w)"

definition fbm_put :: "fbm_handle \<Rightarrow> Fbm \<Rightarrow> FbmWorld \<Rightarrow> FbmWorld" where
  "fbm_put h f w = (case h of
       FbmFirst \<Rightarrow> w\<lparr>vfi_pFbmFirst := Some f\<rparr> | FbmSecond \<Rightarrow> w\<lparr>vfi_pFbmSecond := Some f\<rparr>)"

definition fbm_get :: "fbm_handle \<Rightarrow> FbmWorld \<Rightarrow> Fbm exec" where
  "fbm_get h w = (case fbm_sel h w of None \<Rightarrow> Fault | Some f \<Rightarrow> Ok f)"

definition node_get :: "Fbm \<Rightarrow> nat \<Rightarrow> FrameNode exec" where
  "node_get f i = (if i < length (fbm_pFrames f) then Ok (fbm_pFrames f ! i) else Fault)"

text \<open>An update of one node; the callers hold an index that \<open>node_get\<close> has accepted.\<close>

definition node_upd :: "nat \<Rightarrow> (FrameNode \<Rightarrow> FrameNode) \<Rightarrow> Fbm \<Rightarrow> Fbm" where
  "node_upd i g f = f\<lparr>fbm_pFrames := (fbm_pFrames f)[i := g (fbm_pFrames f ! i)]\<rparr>"

definition pic_get :: "FbmWorld \<Rightarrow> pic_ptr \<Rightarrow> VideoPicture exec" where
  "pic_get w p = (case p of
       PicAt h i \<Rightarrow> ebind (fbm_get h w) (\<lambda>f. ebind (node_get f i) (\<lambda>n. Ok (vpicture n)))
     | PicOther k \<Rightarrow> (if k < length (others w) then Ok (others w ! k) else Fault))"

definition pic_set :: "pic_ptr \<Rightarrow> VideoPicture \<Rightarrow> FbmWorld \<Rightarrow> FbmWorld exec" where
  "pic_set p v w = (case p of
       PicAt h i \<Rightarrow> ebind (fbm_get h w) (\<lambda>f. ebind (node_get f i) (\<lambda>n.
         Ok (fbm_put h (node_upd i (\<lambda>n. n\<lparr>vpicture := v\<rparr>) f) w)))
     | PicOther k \<Rightarrow>
         (if k < length (others w) then Ok (w\<lparr>others := (others w)[k := v]\<rparr>) else Fault))"

section \<open>Queue primitives\<close>

definition FbmEnqueue ::
  "nat option \<Rightarrow> nat \<Rightarrow> FrameNode list \<Rightarrow> (nat option \<times> FrameNode list) exec" where
  "FbmEnqueue ppHead p ns =
     (if p < length ns then
        (case ppHead of
           None \<Rightarrow> Ok (Some p, ns[p := (ns ! p)\<lparr>pNext := None\<rparr>])
         | Some pCur \<Rightarrow>
             (case list_tail (node_next pNext ns) pCur of
                None \<Rightarrow> Fault
              | Some t \<Rightarrow>
                  (let ns1 = ns[t := (ns ! t)\<lparr>pNext := Some p\<rparr>]
                   in Ok (ppHead, ns1[p := (ns1 ! p)\<lparr>pNext := None\<rparr>]))))
      else Fault)"

definition FbmEnqueueToHead ::
  "nat option \<Rightarrow> nat \<Rightarrow> FrameNode list \<Rightarrow> (nat option \<times> FrameNode list) exec" where
  "FbmEnqueueToHead ppHead p ns =
     (if p < length ns then Ok (Some p, ns[p := (ns ! p)\<lparr>pNext := ppHead\<rparr>]) else Fault)"

definition FbmDequeue ::
  "nat option \<Rightarrow> FrameNode list \<Rightarrow> (nat option \<times> nat option \<times> FrameNode list) exec" where
  "FbmDequeue ppHead ns = (case ppHead of
       None \<Rightarrow> Ok (None, None, ns)
     | Some i \<Rightarrow>
         (if i < length ns
          then Ok (Some i, pNext (ns ! i), ns[i := (ns ! i)\<lparr>pNext := None\<rparr>])
          else Fault))"

text \<open>The primitives seen on the list a head pointer stands for.\<close>

abbreviation frame_chain :: "FrameNode list \<Rightarrow> nat option \<Rightarrow> nat list \<Rightarrow> bool" where
  "frame_chain ns \<equiv> chain (node_next pNext ns)"

lemma frame_chain_in: "frame_chain ns h xs \<Longrightarrow> i \<in> set xs \<Longrightarrow> i < length ns"
  using chain_nodes by (force simp: node_next_def split: if_splits)

lemma frame_chain_cong:
  assumes "length ms = length ns" "\<And>i. i \<in> set xs \<Longrightarrow> i < length ns \<Longrightarrow> pNext (ms ! i) = pNext (ns ! i)"
  shows "frame_chain ms h xs = frame_chain ns h xs"
  using assms(2)
  by (induction xs arbitrary: h) (auto simp: node_next_def assms(1) split: option.splits)

lemma FbmEnqueue_chain:
  assumes "frame_chain ns h xs" "p < length ns" "p \<notin> set xs"
  shows "\<exists>h' ns'. FbmEnqueue h p ns = Ok (h', ns') \<and> frame_chain ns' h' (xs @ [p]) \<and>
    length ns' = length ns \<and> pNext (ns' ! p) = None \<and>
    (\<forall>i < length ns. ns' ! i = (ns ! i)\<lparr>pNext := pNext (ns' ! i)\<rparr>) \<and>
    (\<forall>i. i \<notin> set xs \<longrightarrow> i \<noteq> p \<longrightarrow> i < length ns \<longrightarrow> ns' ! i = ns ! i)"
proof (cases h)
  case None
  then show ?thesis
    using assms by (auto simp: FbmEnqueue_def node_next_update nth_list_update)
next
  case (Some c)
  then have "xs \<noteq> []" using assms(1) by auto
  then obtain ys l where xs: "xs = ys @ [l]" using rev_exhaust by blast
  have t: "list_tail (node_next pNext ns) c = Some l"
    using chain_tail [of "node_next pNext ns" c xs] assms(1) Some xs by simp
  have l: "l < length ns" using frame_chain_in [OF assms(1)] xs by simp
  let ?ns1 = "ns[l := (ns ! l)\<lparr>pNext := Some p\<rparr>]"
  let ?ns2 = "?ns1[p := (?ns1 ! p)\<lparr>pNext := None\<rparr>]"
  have "frame_chain ?ns2 h (xs @ [p])"
    using chain_snoc [of "node_next pNext ns" h ys l p] assms xs l
    by (simp add: node_next_update)
  then show ?thesis
    using Some t assms l xs by (auto simp: FbmEnqueue_def Let_def nth_list_update)
qed

lemma FbmDequeue_chain:
  assumes "frame_chain ns (Some i) xs"
  shows "\<exists>h' ns' ys. FbmDequeue (Some i) ns = Ok (Some i, h', ns') \<and> xs = i # ys \<and> i \<notin> set ys \<and>
    i < length ns \<and> ns' = ns[i := (ns ! i)\<lparr>pNext := None\<rparr>] \<and> frame_chain ns' h' ys"
proof -
  obtain n ys where c: "xs = i # ys" "node_next pNext ns i = Some n" "frame_chain ns n ys"
    "i \<notin> set ys" using chain_hd [OF assms] by blast
  then have "i < length ns" "n = pNext (ns ! i)" by (auto simp: node_next_def split: if_splits)
  then show ?thesis
    using c by (auto simp: FbmDequeue_def node_next_update chain_upd)
qed

lemma FbmEnqueueToHead_chain:
  assumes "frame_chain ns h xs" "p < length ns" "p \<notin> set xs"
  shows "\<exists>ns'. FbmEnqueueToHead h p ns = Ok (Some p, ns') \<and> frame_chain ns' (Some p) (p # xs)"
  using assms by (simp add: FbmEnqueueToHead_def node_next_update chain_upd)

end
