(* ===== verification/Fbm.thy ===== *)
theory Fbm
  imports Fbm_Data
begin

text \<open>The operations of the frame buffer manager (\<open>vdecoder/fbm.c\<close>) on the decoder's and the
  renderer's side. A call returns \<open>Ok\<close> with its result and the new state; \<open>Fault\<close> stands for a
  dereference of \<open>NULL\<close>, an access outside \<open>pFrames\<close>, or a queue walk that does not end. The
  mutex of a manager serialises its callers, so a call is one step. Cache maintenance
  (\<open>CdcMemFlushCache\<close>) changes no state of the model.\<close>

abbreviation (input) FRM_FORBID_USE_TAG :: int where "FRM_FORBID_USE_TAG \<equiv> 255"
abbreviation (input) FRM_RELEASE_TAG :: int where "FRM_RELEASE_TAG \<equiv> 238"
abbreviation (input) FBM_NEW_DISP_INVALID_TAG :: int where "FBM_NEW_DISP_INVALID_TAG \<equiv> 221"
abbreviation (input) MAJOR_DECODER_USE_FLAG :: int where "MAJOR_DECODER_USE_FLAG \<equiv> 1"
abbreviation (input) MINOR_DECODER_USE_FLAG :: int where "MINOR_DECODER_USE_FLAG \<equiv> 2"
abbreviation (input) MAJOR_DISP_USE_FLAG :: int where "MAJOR_DISP_USE_FLAG \<equiv> 4"
abbreviation (input) MINOR_DISP_USE_FLAG :: int where "MINOR_DISP_USE_FLAG \<equiv> 8"
abbreviation (input) MINOR_NEED_USE_FLAG :: int where "MINOR_NEED_USE_FLAG \<equiv> 16"

section \<open>Locked sections on one manager\<close>

definition fbm_enq_empty :: "nat \<Rightarrow> Fbm \<Rightarrow> Fbm exec" where
  "fbm_enq_empty i f = ebind (FbmEnqueue (fbm_pEmptyBufferQueue f) i (fbm_pFrames f))
     (\<lambda>(h, ns). Ok (f\<lparr>fbm_pEmptyBufferQueue := h, fbm_pFrames := ns,
                       fbm_nEmptyBufferNum := fbm_nEmptyBufferNum f + 1\<rparr>))"

definition fbm_enq_valid :: "nat \<Rightarrow> Fbm \<Rightarrow> Fbm exec" where
  "fbm_enq_valid i f = ebind (FbmEnqueue (fbm_pValidPictureQueue f) i (fbm_pFrames f))
     (\<lambda>(h, ns). Ok (node_upd i (\<lambda>n. n\<lparr>bInValidPictureQueue := True\<rparr>)
                      (f\<lparr>fbm_pValidPictureQueue := h, fbm_pFrames := ns,
                         fbm_nValidPictureNum := fbm_nValidPictureNum f + 1,
                         fbm_nWaitForDispNum := fbm_nWaitForDispNum f + 1\<rparr>)))"

definition fbm_enq_release :: "nat \<Rightarrow> Fbm \<Rightarrow> Fbm exec" where
  "fbm_enq_release i f = ebind (FbmEnqueue (fbm_pReleaseBufferQueue f) i (fbm_pFrames f))
     (\<lambda>(h, ns). Ok (f\<lparr>fbm_pReleaseBufferQueue := h, fbm_pFrames := ns,
                       fbm_nReleaseBufferNum := fbm_nReleaseBufferNum f + 1\<rparr>))"

text \<open>\<open>FbmRequestBuffer\<close>: take the oldest empty frame for the decoder.\<close>

definition fbm_take_empty :: "Fbm \<Rightarrow> (nat option \<times> Fbm) exec" where
  "fbm_take_empty f = ebind (FbmDequeue (fbm_pEmptyBufferQueue f) (fbm_pFrames f))
     (\<lambda>(r, h, ns).
        let f1 = f\<lparr>fbm_pEmptyBufferQueue := h, fbm_pFrames := ns\<rparr> in
        case r of
          None \<Rightarrow> Ok (None, f1)
        | Some i \<Rightarrow>
            (let n = ns ! i in
             if bUsedByDecoder n \<or> bInValidPictureQueue n \<or> bUsedByRender n \<or> bAlreadyDisplayed n
             then Ok (None, f1)
             else Ok (Some i,
                    node_upd i (\<lambda>n. n\<lparr>bUsedByDecoder := True\<rparr>)
                      (f1\<lparr>fbm_nEmptyBufferNum := fbm_nEmptyBufferNum f - 1,
                          fbm_nDecoderHoldingNum := fbm_nDecoderHoldingNum f + 1\<rparr>))))"

text \<open>\<open>FbmReturnBuffer\<close>: the decoder gives frame \<open>i\<close> back.\<close>

definition fbm_return_node :: "nat \<Rightarrow> int \<Rightarrow> Fbm \<Rightarrow> Fbm exec" where
  "fbm_return_node i bValidPicture f = ebind (node_get f i) (\<lambda>n.
     if \<not> bUsedByDecoder n then Ok f
     else
       (let f1 = node_upd i (\<lambda>n. n\<lparr>bUsedByDecoder := False\<rparr>) f;
            dec = (\<lambda>g. Ok (g\<lparr>fbm_nDecoderHoldingNum := fbm_nDecoderHoldingNum g - 1\<rparr>))
        in
        if bNeedRelease n then
          ebind (fbm_enq_release i f1) (\<lambda>f2.
            Ok (node_upd i (\<lambda>n. n\<lparr>bAlreadyDisplayed := False, bInValidPictureQueue := False\<rparr>) f2))
        else if bInValidPictureQueue n then
          (if bUsedByRender n \<or> bAlreadyDisplayed n then Ok f1 else dec f1)
        else if bUsedByRender n then dec f1
        else if bAlreadyDisplayed n then
          ebind (fbm_enq_empty i (node_upd i (\<lambda>n. n\<lparr>bAlreadyDisplayed := False\<rparr>) f1)) dec
        else if bValidPicture \<noteq> 0 then ebind (fbm_enq_valid i f1) dec
        else ebind (fbm_enq_empty i f1) dec))"

text \<open>\<open>FbmShareBuffer\<close>: the decoder shows frame \<open>i\<close> and keeps it.\<close>

definition fbm_share_node :: "nat \<Rightarrow> Fbm \<Rightarrow> Fbm exec" where
  "fbm_share_node i f = ebind (node_get f i) (\<lambda>n.
     if bNeedRelease n then Ok f
     else if \<not> bUsedByDecoder n \<or> bInValidPictureQueue n \<or> bAlreadyDisplayed n then Ok f
     else fbm_enq_valid i f)"

text \<open>\<open>FbmRequestPicture\<close>: take the oldest valid picture for the renderer.\<close>

definition fbm_take_valid :: "Fbm \<Rightarrow> (nat option \<times> Fbm) exec" where
  "fbm_take_valid f = ebind (FbmDequeue (fbm_pValidPictureQueue f) (fbm_pFrames f))
     (\<lambda>(r, h, ns).
        let f1 = f\<lparr>fbm_pValidPictureQueue := h, fbm_pFrames := ns\<rparr> in
        case r of
          None \<Rightarrow> Ok (None, f1)
        | Some i \<Rightarrow>
            (let n = ns ! i in
             if \<not> bInValidPictureQueue n \<or> bUsedByRender n \<or> bAlreadyDisplayed n
             then Ok (None, f1)
             else Ok (Some i,
                    node_upd i (\<lambda>n. n\<lparr>bInValidPictureQueue := False, bUsedByRender := True,
                        vpicture := (vpicture n)\<lparr>vp_nBufStatus :=
                          vp_nBufStatus (vpicture n) OR MAJOR_DISP_USE_FLAG\<rparr>\<rparr>)
                      (f1\<lparr>fbm_nValidPictureNum := fbm_nValidPictureNum f - 1,
                          fbm_nWaitForDispNum := fbm_nWaitForDispNum f - 1,
                          fbm_nRenderHoldingNum := fbm_nRenderHoldingNum f + 1\<rparr>))))"

text \<open>\<open>FbmReturnPicture\<close>: the renderer gives frame \<open>i\<close> back.\<close>

definition fbm_return_shown :: "nat \<Rightarrow> Fbm \<Rightarrow> (int \<times> Fbm) exec" where
  "fbm_return_shown i f = ebind (node_get f i) (\<lambda>n.
     if \<not> bUsedByRender n \<or> bInValidPictureQueue n \<or> bAlreadyDisplayed n then Ok (-1, f)
     else
       (let f1 = node_upd i (\<lambda>n. n\<lparr>bUsedByRender := False\<rparr>)
                   (f\<lparr>fbm_nRenderHoldingNum := fbm_nRenderHoldingNum f - 1\<rparr>)
        in
        if bUsedByDecoder n then Ok (0, node_upd i (\<lambda>n. n\<lparr>bAlreadyDisplayed := True\<rparr>) f1)
        else if \<not> bNeedRelease n then ebind (fbm_enq_empty i f1) (\<lambda>f2. Ok (0, f2))
        else ebind (fbm_enq_release i f1) (\<lambda>f2. Ok (0, f2))))"

text \<open>\<open>FbmFlush\<close>: the loop that empties the queue of valid pictures.\<close>

partial_function (option) fbm_flush_loop :: "Fbm \<Rightarrow> Fbm option" where
  "fbm_flush_loop f =
     (case FbmDequeue (fbm_pValidPictureQueue f) (fbm_pFrames f) of
        Ok r \<Rightarrow>
          (case fst r of
             None \<Rightarrow> Some f
           | Some i \<Rightarrow>
               (let f1 = node_upd i (\<lambda>n. n\<lparr>vpicture := (vpicture n)\<lparr>vp_nBufStatus := 0\<rparr>\<rparr>)
                      (f\<lparr>fbm_pValidPictureQueue := fst (snd r), fbm_pFrames := snd (snd r),
                         fbm_nValidPictureNum := fbm_nValidPictureNum f - 1\<rparr>);
                    n = fbm_pFrames f1 ! i
                in
                if bUsedByRender n \<or> bAlreadyDisplayed n then Some f1
                else
                  (let f2 = node_upd i (\<lambda>n. n\<lparr>bInValidPictureQueue := False\<rparr>) f1 in
                   if bUsedByDecoder n
                   then fbm_flush_loop (node_upd i (\<lambda>n. n\<lparr>bAlreadyDisplayed := True\<rparr>) f2)
                   else (case fbm_enq_empty i f2 of Ok f3 \<Rightarrow> fbm_flush_loop f3 | _ \<Rightarrow> None))))
      | _ \<Rightarrow> None)"

text \<open>\<open>FbmNewDispRelease\<close>: the loop that moves the empty frames to the release queue.\<close>

partial_function (option) fbm_release_loop :: "Fbm \<Rightarrow> Fbm option" where
  "fbm_release_loop f =
     (case FbmDequeue (fbm_pEmptyBufferQueue f) (fbm_pFrames f) of
        Ok r \<Rightarrow>
          (case fst r of
             None \<Rightarrow> Some f
           | Some i \<Rightarrow>
               (let f1 = f\<lparr>fbm_pEmptyBufferQueue := fst (snd r), fbm_pFrames := snd (snd r)\<rparr>;
                    n = fbm_pFrames f1 ! i
                in
                if bUsedByDecoder n \<or> bInValidPictureQueue n \<or> bUsedByRender n \<or> bAlreadyDisplayed n
                then Some f1
                else (case fbm_enq_release i
                             (f1\<lparr>fbm_nEmptyBufferNum := fbm_nEmptyBufferNum f - 1\<rparr>) of
                        Ok f2 \<Rightarrow> fbm_release_loop f2 | _ \<Rightarrow> None)))
      | _ \<Rightarrow> None)"

section \<open>Calls through a handle\<close>

text \<open>Both streams of a 3D movie share the first manager; \<open>h\<close> is the manager a query reads.\<close>

definition fbm_shared :: "fbm_handle \<Rightarrow> FbmWorld \<Rightarrow> bool" where
  "fbm_shared h w \<longleftrightarrow> vfi_bTwoStreamShareOneFbm w = 1 \<and> h = FbmSecond"

text \<open>\<open>pVPicture->nBufStatus = g (pVPicture->nBufStatus)\<close>\<close>

definition pic_status :: "pic_ptr \<Rightarrow> (int \<Rightarrow> int) \<Rightarrow> FbmWorld \<Rightarrow> FbmWorld exec" where
  "pic_status p g w = ebind (pic_get w p) (\<lambda>v.
     pic_set p (v\<lparr>vp_nBufStatus := g (vp_nBufStatus v)\<rparr>) w)"

definition FbmRequestBuffer :: "fbm_handle option \<Rightarrow> FbmWorld \<Rightarrow> (pic_ptr option \<times> FbmWorld) exec" where
  "FbmRequestBuffer pFbm w = (case pFbm of
       None \<Rightarrow> Ok (None, w)
     | Some h \<Rightarrow> ebind (fbm_get h w) (\<lambda>f.
         if \<not> fbm_pFbmInfo f then Ok (None, w)
         else if fbm_shared h w then
           (case vfi_pMajorDecoderFrame w of
              None \<Rightarrow> Ok (None, w)
            | Some p \<Rightarrow>
                ebind (pic_status p (\<lambda>s. (s OR MINOR_DECODER_USE_FLAG) AND NOT MINOR_NEED_USE_FLAG) w)
                  (\<lambda>w'. Ok (Some p, w')))
         else ebind (fbm_take_empty f) (\<lambda>(r, f').
           let w1 = fbm_put h f' (w\<lparr>vfi_pMajorDecoderFrame := None\<rparr>) in
           case r of
             None \<Rightarrow> Ok (None, w1)
           | Some i \<Rightarrow>
               (if vfi_bTwoStreamShareOneFbm w = 1 then
                  ebind (pic_status (PicAt h i)
                      (\<lambda>s. s OR MAJOR_DECODER_USE_FLAG OR MINOR_NEED_USE_FLAG)
                      (w1\<lparr>vfi_pMajorDecoderFrame := Some (PicAt h i)\<rparr>))
                    (\<lambda>w2. Ok (Some (PicAt h i), w2))
                else Ok (Some (PicAt h i), w1)))))"

text \<open>The 3D prologue of \<open>FbmReturnBuffer\<close>: \<open>None\<close> when the call ends there, otherwise the
  manager the frame is returned to.\<close>

definition fbm_return_route ::
  "fbm_handle \<Rightarrow> pic_ptr \<Rightarrow> int \<Rightarrow> FbmWorld \<Rightarrow> (fbm_handle option \<times> FbmWorld) exec" where
  "fbm_return_route h p bValidPicture w =
     (if vfi_bTwoStreamShareOneFbm w = 1 then
        (case h of
           FbmFirst \<Rightarrow>
             ebind (pic_status p (\<lambda>s. s AND NOT MAJOR_DECODER_USE_FLAG) w) (\<lambda>w1.
             ebind (pic_get w1 p) (\<lambda>v.
               if vp_nBufStatus v AND MINOR_DECODER_USE_FLAG \<noteq> 0 then Ok (None, w1)
               else if bValidPicture = 1 \<and> vp_nBufStatus v AND MINOR_NEED_USE_FLAG \<noteq> 0
               then Ok (None, w1)
               else Ok (Some FbmFirst, w1)))
         | FbmSecond \<Rightarrow>
             ebind (pic_status p (\<lambda>s. s AND NOT MINOR_DECODER_USE_FLAG) w) (\<lambda>w1.
             ebind (pic_get w1 p) (\<lambda>v.
               if vp_nBufStatus v AND MAJOR_DECODER_USE_FLAG \<noteq> 0 then Ok (None, w1)
               else Ok (Some FbmFirst, w1))))
      else Ok (Some h, w))"

definition FbmReturnBuffer ::
  "fbm_handle option \<Rightarrow> pic_ptr option \<Rightarrow> int \<Rightarrow> FbmWorld \<Rightarrow> FbmWorld exec" where
  "FbmReturnBuffer pFbm pVPicture bValidPicture w =
     (case (pFbm, pVPicture) of
        (None, _) \<Rightarrow> Ok w
      | (Some h, q) \<Rightarrow> ebind (fbm_get h w) (\<lambda>f0.
          if \<not> fbm_pFbmInfo f0 then Ok w
          else (case q of
            None \<Rightarrow> Ok w
          | Some p \<Rightarrow> ebind (fbm_return_route h p bValidPicture w) (\<lambda>(r, w1).
              case r of
                None \<Rightarrow> Ok w1
              | Some h1 \<Rightarrow> ebind (fbm_get h1 w1) (\<lambda>f. ebind (pic_get w1 p) (\<lambda>v.
                  let index = vp_nID v in
                  if index < 0 \<or> fbm_nMaxFrameNum f \<le> index then Ok w1
                  else if p \<noteq> PicAt h1 (nat index) then Ok w1
                  else ebind (fbm_return_node (nat index) bValidPicture f)
                         (\<lambda>f'. Ok (fbm_put h1 f' w1))))))))"

definition FbmShareBuffer :: "fbm_handle option \<Rightarrow> pic_ptr option \<Rightarrow> FbmWorld \<Rightarrow> FbmWorld exec" where
  "FbmShareBuffer pFbm pVPicture w =
     (case (pFbm, pVPicture) of
        (None, _) \<Rightarrow> Ok w
      | (Some h, q) \<Rightarrow> ebind (fbm_get h w) (\<lambda>f.
          if \<not> fbm_pFbmInfo f then Ok w
          else (case q of
            None \<Rightarrow> Ok w
          | Some p \<Rightarrow>
              if fbm_shared h w then Ok w
              else ebind (pic_get w p) (\<lambda>v.
                let index = vp_nID v in
                if index < 0 \<or> fbm_nMaxFrameNum f \<le> index then Ok w
                else if p \<noteq> PicAt h (nat index) then Ok w
                else ebind (fbm_share_node (nat index) f) (\<lambda>f'. Ok (fbm_put h f' w))))))"

definition FbmRequestPicture :: "fbm_handle option \<Rightarrow> FbmWorld \<Rightarrow> (pic_ptr option \<times> FbmWorld) exec" where
  "FbmRequestPicture pFbm w = (case pFbm of
       None \<Rightarrow> Ok (None, w)
     | Some h \<Rightarrow> ebind (fbm_get h w) (\<lambda>f.
         if \<not> fbm_pFbmInfo f then Ok (None, w)
         else if fbm_shared h w then
           (case vfi_pMajorDispFrame w of
              None \<Rightarrow> Fault
            | Some p \<Rightarrow> ebind (pic_status p (\<lambda>s. s OR MINOR_DISP_USE_FLAG) w) (\<lambda>w'. Ok (Some p, w')))
         else ebind (fbm_take_valid f) (\<lambda>(r, f').
           let w1 = fbm_put h f' (w\<lparr>vfi_pMajorDispFrame := None\<rparr>) in
           case r of
             None \<Rightarrow> Ok (None, w1)
           | Some i \<Rightarrow> Ok (Some (PicAt h i), w1\<lparr>vfi_pMajorDispFrame := Some (PicAt h i)\<rparr>))))"

text \<open>A frame that was registered as forbidden carries its index plus the tag as its id and is
  put into the empty queue when the renderer hands it over.\<close>

definition fbm_return_forbidden :: "fbm_handle \<Rightarrow> pic_ptr \<Rightarrow> FbmWorld \<Rightarrow> (int \<times> FbmWorld) exec" where
  "fbm_return_forbidden h p w =
     ebind (fbm_get h w) (\<lambda>f. ebind (pic_get w p) (\<lambda>v.
     let i = nat (vp_nID v - FRM_FORBID_USE_TAG) in
     ebind (node_get f i) (\<lambda>n.
       if bUsedByRender n \<or> bInValidPictureQueue n \<or> bAlreadyDisplayed n then Ok (-1, w)
       else ebind (fbm_enq_empty i f) (\<lambda>f'.
            let w1 = fbm_put h f' w in
            ebind (pic_get w1 p) (\<lambda>v1.
            ebind (pic_set p (v1\<lparr>vp_nID := vp_nID v1 - FRM_FORBID_USE_TAG\<rparr>) w1) (\<lambda>w2.
              Ok (0, w2)))))))"

text \<open>The 3D prologue of \<open>FbmReturnPicture\<close>: \<open>True\<close> when the call goes on.\<close>

definition fbm_shown_route :: "fbm_handle \<Rightarrow> pic_ptr \<Rightarrow> FbmWorld \<Rightarrow> (bool \<times> FbmWorld) exec" where
  "fbm_shown_route h p w =
     (if vfi_bTwoStreamShareOneFbm w = 1 then
        (case h of
           FbmFirst \<Rightarrow>
             ebind (pic_status p (\<lambda>s. s AND NOT MAJOR_DISP_USE_FLAG) w) (\<lambda>w1.
             ebind (pic_get w1 p) (\<lambda>v. Ok (vp_nBufStatus v AND MINOR_DISP_USE_FLAG = 0, w1)))
         | FbmSecond \<Rightarrow>
             ebind (pic_status p (\<lambda>s. s AND NOT MINOR_DISP_USE_FLAG) w) (\<lambda>w1.
             ebind (pic_get w1 p) (\<lambda>v. Ok (vp_nBufStatus v AND MAJOR_DISP_USE_FLAG = 0, w1))))
      else Ok (True, w))"

definition FbmReturnPicture ::
  "fbm_handle option \<Rightarrow> pic_ptr option \<Rightarrow> FbmWorld \<Rightarrow> (int \<times> FbmWorld) exec" where
  "FbmReturnPicture pFbm pVPicture w =
     (case (pFbm, pVPicture) of
        (None, _) \<Rightarrow> Ok (0, w)
      | (Some h, q) \<Rightarrow> ebind (fbm_get h w) (\<lambda>f0.
          if \<not> fbm_pFbmInfo f0 then Ok (0, w)
          else (case q of
            None \<Rightarrow> Ok (0, w)
          | Some p \<Rightarrow> ebind (fbm_shown_route h p w) (\<lambda>(more, w1).
              if \<not> more then Ok (0, w1)
              else ebind (fbm_get h w1) (\<lambda>f. ebind (pic_get w1 p) (\<lambda>v.
                let index = vp_nID v in
                if index < 0 \<or> fbm_nMaxFrameNum f \<le> index then
                  (if FRM_FORBID_USE_TAG \<le> index then fbm_return_forbidden h p w1 else Ok (-1, w1))
                else if p \<noteq> PicAt h (nat index) then Ok (-1, w1)
                else ebind (fbm_return_shown (nat index) f)
                       (\<lambda>(r, f'). Ok (r, fbm_put h f' w1))))))))"

definition FbmFlush :: "fbm_handle option \<Rightarrow> FbmWorld \<Rightarrow> FbmWorld exec" where
  "FbmFlush pFbm w = (case pFbm of
       None \<Rightarrow> Ok w
     | Some h \<Rightarrow> ebind (fbm_get h w) (\<lambda>f.
         if \<not> fbm_pFbmInfo f then Ok w
         else if fbm_shared h w then Ok w
         else (case fbm_flush_loop f of None \<Rightarrow> Fault | Some f' \<Rightarrow> Ok (fbm_put h f' w))))"

section \<open>Queries\<close>

definition fbm_query :: "(Fbm \<Rightarrow> int) \<Rightarrow> fbm_handle option \<Rightarrow> FbmWorld \<Rightarrow> int exec" where
  "fbm_query q pFbm w = (case pFbm of
       None \<Rightarrow> Ok 0
     | Some h \<Rightarrow> ebind (fbm_get h w) (\<lambda>f.
         if \<not> fbm_pFbmInfo f then Ok 0
         else ebind (fbm_get (if fbm_shared h w then FbmFirst else h) w) (\<lambda>g. Ok (q g))))"

definition FbmTotalBufferNum :: "fbm_handle option \<Rightarrow> FbmWorld \<Rightarrow> int exec" where
  "FbmTotalBufferNum = fbm_query fbm_nMaxFrameNum"

definition FbmEmptyBufferNum :: "fbm_handle option \<Rightarrow> FbmWorld \<Rightarrow> int exec" where
  "FbmEmptyBufferNum = fbm_query fbm_nEmptyBufferNum"

definition FbmGetDecoderHoldingBufferNum :: "fbm_handle option \<Rightarrow> FbmWorld \<Rightarrow> int exec" where
  "FbmGetDecoderHoldingBufferNum = fbm_query fbm_nDecoderHoldingNum"

definition FbmGetRenderHoldingBufferNum :: "fbm_handle option \<Rightarrow> FbmWorld \<Rightarrow> int exec" where
  "FbmGetRenderHoldingBufferNum = fbm_query fbm_nRenderHoldingNum"

definition FbmGetDisplayBufferNum :: "fbm_handle option \<Rightarrow> FbmWorld \<Rightarrow> int exec" where
  "FbmGetDisplayBufferNum =
     fbm_query (\<lambda>f. fbm_nRenderHoldingNum f + fbm_nValidPictureNum f)"

definition FbmValidPictureNum :: "fbm_handle option \<Rightarrow> FbmWorld \<Rightarrow> int exec" where
  "FbmValidPictureNum = fbm_query fbm_nValidPictureNum"

definition FbmGetAlignValue :: "fbm_handle option \<Rightarrow> FbmWorld \<Rightarrow> int exec" where
  "FbmGetAlignValue = fbm_query fbm_nAlignValue"

definition FbmNextPictureInfo :: "fbm_handle option \<Rightarrow> FbmWorld \<Rightarrow> pic_ptr option exec" where
  "FbmNextPictureInfo pFbm w = (case pFbm of
       None \<Rightarrow> Ok None
     | Some h \<Rightarrow> ebind (fbm_get h w) (\<lambda>f.
         if \<not> fbm_pFbmInfo f then Ok None
         else
           (let h1 = (if fbm_shared h w then FbmFirst else h) in
            ebind (fbm_get h1 w) (\<lambda>g. Ok (map_option (PicAt h1) (fbm_pValidPictureQueue g))))))"

text \<open>\<open>FbmGetBufferInfo\<close> copies the general information of the first frame.\<close>

definition FbmGetBufferInfo ::
  "fbm_handle option \<Rightarrow> pic_ptr \<Rightarrow> FbmWorld \<Rightarrow> (int \<times> FbmWorld) exec" where
  "FbmGetBufferInfo pFbm p w = (case pFbm of
       None \<Rightarrow> Ok (0, w)
     | Some h \<Rightarrow> ebind (fbm_get h w) (\<lambda>f.
         if \<not> fbm_pFbmInfo f then Ok (0, w)
         else ebind (fbm_get (if fbm_shared h w then FbmFirst else h) w) (\<lambda>g.
           ebind (node_get g 0) (\<lambda>n. ebind (pic_get w p) (\<lambda>v.
           let s = vpicture n in
           ebind (pic_set p (v\<lparr>vp_ePixelFormat := vp_ePixelFormat s, vp_nWidth := vp_nWidth s,
               vp_nHeight := vp_nHeight s, vp_nLineStride := vp_nLineStride s,
               vp_nTopOffset := vp_nTopOffset s, vp_nLeftOffset := vp_nLeftOffset s,
               vp_nFrameRate := vp_nFrameRate s, vp_nAspectRatio := vp_nAspectRatio s,
               vp_bIsProgressive := vp_bIsProgressive s\<rparr>) w) (\<lambda>w'. Ok (0, w')))))))"

definition FbmGetBufferOffset :: "fbm_handle option \<Rightarrow> int \<Rightarrow> FbmWorld \<Rightarrow> int exec" where
  "FbmGetBufferOffset pFbm isYBufferFlag w = (case pFbm of
       None \<Rightarrow> Ok 0
     | Some h \<Rightarrow> ebind (fbm_get h w) (\<lambda>f.
         if \<not> fbm_pFbmInfo f then Ok 0
         else if h = FbmFirst then Ok 0
         else Ok (if isYBufferFlag = 1 then vfi_nMinorYBufOffset w else vfi_nMinorCBufOffset w)))"

section \<open>Frames supplied by the display\<close>

text \<open>The manager the display's buffers belong to.\<close>

definition fbm_display :: "FbmWorld \<Rightarrow> fbm_handle option" where
  "fbm_display w =
     (if vfi_bIs3DStream w = 1 \<or> vfi_pFbmSecond w = None
      then (if vfi_pFbmFirst w = None then None else Some FbmFirst)
      else Some FbmSecond)"

definition FbmGetVideoBufferInfo :: "FbmWorld option \<Rightarrow> FbmBufInfo option" where
  "FbmGetVideoBufferInfo pFbmInf = (case pFbmInf of
       None \<Rightarrow> None
     | Some w \<Rightarrow>
         if vfi_bIs3DStream w = 1 then
           (if vfi_pFbmFirst w \<noteq> None \<and> vfi_pFbmSecond w \<noteq> None
            then Some (vfi_pFbmBufInfo w) else None)
         else if fbi_nBufNum (vfi_pFbmBufInfo w) = 0 then None
         else Some (vfi_pFbmBufInfo w))"

text \<open>The fields a frame takes over from the display's picture.\<close>

definition vp_adopt :: "VideoPicture \<Rightarrow> VideoPicture \<Rightarrow> VideoPicture" where
  "vp_adopt src v = v\<lparr>vp_pData0 := vp_pData0 src, vp_pData1 := vp_pData1 src,
     vp_pData2 := vp_pData2 src, vp_phyYBufAddr := vp_phyYBufAddr src,
     vp_phyCBufAddr := vp_phyCBufAddr src, vp_nBufId := vp_nBufId src,
     vp_pPrivate := vp_pPrivate src, vp_nColorPrimary := -1\<rparr>"

definition FbmSetFbmBufAddress ::
  "FbmWorld option \<Rightarrow> pic_ptr \<Rightarrow> int \<Rightarrow> (pic_ptr option \<times> FbmWorld option) exec" where
  "FbmSetFbmBufAddress pFbmInfo pPicture bForbidUseFlag = (case pFbmInfo of
       None \<Rightarrow> Ok (None, None)
     | Some w \<Rightarrow>
         (case fbm_display w of
            None \<Rightarrow> Ok (None, Some w)
          | Some h \<Rightarrow>
              ebind (fbm_get h w) (\<lambda>f. ebind (pic_get w pPicture) (\<lambda>src.
              let k = vfi_nValidBufNum w in
              ebind (node_get f k) (\<lambda>n.
              let f1 = node_upd k (\<lambda>n. n\<lparr>vpicture := (vp_adopt src (vpicture n))
                         \<lparr>vp_nID := int k + (if bForbidUseFlag = 0 then 0 else FRM_FORBID_USE_TAG)\<rparr>\<rparr>) f
              in
              ebind (if bForbidUseFlag = 0 then fbm_enq_empty k f1 else Ok f1) (\<lambda>f2.
              let f3 = (if vfi_bIs3DStream w = 1
                        then node_upd k (\<lambda>n. n\<lparr>vpicture := (vpicture n)
                          \<lparr>vp_phyCBufAddr := vp_phyYBufAddr (vpicture n) + 2 * vfi_nMinorYBufOffset w,
                           vp_pData1 := vp_pData0 (vpicture n) + 2 * vfi_nMinorYBufOffset w\<rparr>\<rparr>) f2
                        else f2)
              in Ok (Some (PicAt h k),
                     Some (fbm_put h f3 (w\<lparr>vfi_nValidBufNum := Suc k\<rparr>)))))))))"

definition FbmNewDispRelease :: "fbm_handle option \<Rightarrow> FbmWorld \<Rightarrow> (int \<times> FbmWorld) exec" where
  "FbmNewDispRelease pFbm w = (case pFbm of
       None \<Rightarrow> Ok (0, w)
     | Some h \<Rightarrow> ebind (fbm_get h w) (\<lambda>f.
         case fbm_release_loop f of None \<Rightarrow> Fault | Some f' \<Rightarrow> Ok (0, fbm_put h f' w)))"

definition FbmSetNewDispRelease :: "FbmWorld option \<Rightarrow> (int \<times> FbmWorld option) exec" where
  "FbmSetNewDispRelease pFbmInfo = (case pFbmInfo of
       None \<Rightarrow> Ok (0, None)
     | Some w \<Rightarrow>
         (case fbm_display w of
            None \<Rightarrow> Ok (0, Some w)
          | Some h \<Rightarrow> ebind (fbm_get h w) (\<lambda>f.
              let m = nat (fbm_nMaxFrameNum f);
                  mark = (\<lambda>n. if vp_nBufId (vpicture n) \<noteq> FBM_NEW_DISP_INVALID_TAG
                              then n\<lparr>bNeedRelease := True\<rparr> else n)
              in
              if length (fbm_pFrames f) < m then Fault
              else
                (let f1 = f\<lparr>fbm_pFrames := map mark (take m (fbm_pFrames f)) @ drop m (fbm_pFrames f)\<rparr>
                 in ebind (FbmFlush (Some h) (fbm_put h f1 w)) (\<lambda>w1.
                    ebind (FbmNewDispRelease (Some h) w1) (\<lambda>(r, w2). Ok (0, Some w2)))))))"

definition FbmRequestReleasePicture ::
  "FbmWorld option \<Rightarrow> (pic_ptr option \<times> FbmWorld option) exec" where
  "FbmRequestReleasePicture pFbmInfo = (case pFbmInfo of
       None \<Rightarrow> Ok (None, None)
     | Some w \<Rightarrow>
         (case fbm_display w of
            None \<Rightarrow> Ok (None, Some w)
          | Some h \<Rightarrow> ebind (fbm_get h w) (\<lambda>f.
              ebind (FbmDequeue (fbm_pReleaseBufferQueue f) (fbm_pFrames f)) (\<lambda>(r, hd, ns).
              let f1 = f\<lparr>fbm_pReleaseBufferQueue := hd, fbm_pFrames := ns\<rparr> in
              case r of
                None \<Rightarrow> Ok (None, Some (fbm_put h f1 w))
              | Some i \<Rightarrow>
                  Ok (Some (PicAt h i),
                      Some (fbm_put h (node_upd i
                        (\<lambda>n. n\<lparr>vpicture := (vpicture n)\<lparr>vp_nID := FRM_RELEASE_TAG\<rparr>\<rparr>)
                        (f1\<lparr>fbm_nReleaseBufferNum := fbm_nReleaseBufferNum f - 1\<rparr>)) w))))))"

text \<open>The search of \<open>FbmReturnReleasePicture\<close> stops at the first frame that is out for release;
  when there is none the call returns the last frame it looked at.\<close>

definition FbmReturnReleasePicture ::
  "FbmWorld option \<Rightarrow> pic_ptr \<Rightarrow> int \<Rightarrow> (pic_ptr option \<times> FbmWorld option) exec" where
  "FbmReturnReleasePicture pFbmInfo pVpicture bForbidUseFlag = (case pFbmInfo of
       None \<Rightarrow> Ok (None, None)
     | Some w \<Rightarrow>
         (case fbm_display w of
            None \<Rightarrow> Ok (None, Some w)
          | Some h \<Rightarrow> ebind (fbm_get h w) (\<lambda>f.
              let m = nat (fbm_nMaxFrameNum f) in
              if m = 0 \<or> length (fbm_pFrames f) < m then Fault
              else (case filter (\<lambda>i. bNeedRelease (fbm_pFrames f ! i) \<and>
                              vp_nID (vpicture (fbm_pFrames f ! i)) = FRM_RELEASE_TAG) [0..<m] of
                [] \<Rightarrow> Ok (Some (PicAt h (m - 1)), Some w)
              | index # _ \<Rightarrow> ebind (pic_get w pVpicture) (\<lambda>src.
                  let f1 = node_upd index (\<lambda>n. n\<lparr>bNeedRelease := False,
                        vpicture := (vp_adopt src (vpicture n))
                          \<lparr>vp_nID := int index +
                             (if bForbidUseFlag = 0 then 0 else FRM_FORBID_USE_TAG)\<rparr>\<rparr>) f
                  in ebind (if bForbidUseFlag = 0 then fbm_enq_empty index f1 else Ok f1) (\<lambda>f2.
                     Ok (Some (PicAt h index), Some (fbm_put h f2 w))))))))"

end
