(* ===== verification/Fbm_Spec.thy ===== *)
theory Fbm_Spec
  imports Fbm
begin

text \<open>What a frame buffer manager promises, and the proof that the locked sections of
  \<open>vdecoder/fbm.c\<close> implement it. The abstract state names, for every frame, who holds it: the
  empty queue, the queue of pictures waiting for display, the release queue, the decoder, the
  renderer. \<open>fs_shown\<close> are the frames the renderer has finished with while the decoder still
  uses them as a reference, \<open>fs_forbid\<close> those the display has not handed over yet.\<close>

record FrameSpec =
  fs_empty :: "nat list"
  fs_valid :: "nat list"
  fs_release :: "nat list"
  fs_dec :: "nat set"
  fs_ren :: "nat set"
  fs_shown :: "nat set"
  fs_forbid :: "nat set"

definition spec_request_buffer :: "FrameSpec \<Rightarrow> nat option \<times> FrameSpec" where
  "spec_request_buffer s = (case fs_empty s of
       [] \<Rightarrow> (None, s)
     | i # is \<Rightarrow> (Some i, s\<lparr>fs_empty := is, fs_dec := insert i (fs_dec s)\<rparr>))"

definition spec_return_buffer :: "nat \<Rightarrow> bool \<Rightarrow> FrameSpec \<Rightarrow> FrameSpec" where
  "spec_return_buffer i valid s =
     (if i \<notin> fs_dec s then s
      else
        (let s1 = s\<lparr>fs_dec := fs_dec s - {i}\<rparr> in
         if i \<in> set (fs_valid s) \<or> i \<in> fs_ren s then s1
         else if i \<in> fs_shown s
         then s1\<lparr>fs_shown := fs_shown s - {i}, fs_empty := fs_empty s @ [i]\<rparr>
         else if valid then s1\<lparr>fs_valid := fs_valid s @ [i]\<rparr>
         else s1\<lparr>fs_empty := fs_empty s @ [i]\<rparr>))"

definition spec_share_buffer :: "nat \<Rightarrow> FrameSpec \<Rightarrow> FrameSpec" where
  "spec_share_buffer i s =
     (if i \<notin> fs_dec s \<or> i \<in> set (fs_valid s) \<or> i \<in> fs_shown s then s
      else s\<lparr>fs_valid := fs_valid s @ [i]\<rparr>)"

definition spec_request_picture :: "FrameSpec \<Rightarrow> nat option \<times> FrameSpec" where
  "spec_request_picture s = (case fs_valid s of
       [] \<Rightarrow> (None, s)
     | i # is \<Rightarrow> (Some i, s\<lparr>fs_valid := is, fs_ren := insert i (fs_ren s)\<rparr>))"

definition spec_return_picture :: "nat \<Rightarrow> FrameSpec \<Rightarrow> int \<times> FrameSpec" where
  "spec_return_picture i s =
     (if i \<notin> fs_ren s then (-1, s)
      else
        (let s1 = s\<lparr>fs_ren := fs_ren s - {i}\<rparr> in
         (0, if i \<in> fs_dec s then s1\<lparr>fs_shown := insert i (fs_shown s)\<rparr>
             else s1\<lparr>fs_empty := fs_empty s @ [i]\<rparr>)))"

definition spec_flush :: "FrameSpec \<Rightarrow> FrameSpec" where
  "spec_flush s = s\<lparr>fs_valid := [],
     fs_empty := fs_empty s @ filter (\<lambda>i. i \<notin> fs_dec s) (fs_valid s),
     fs_shown := fs_shown s \<union> (set (fs_valid s) \<inter> fs_dec s)\<rparr>"

text \<open>A frame is in at most one queue; an empty frame has no user; a picture waiting for display
  is with neither the renderer nor finished; a finished picture is still with the decoder.\<close>

definition spec_ok :: "FrameSpec \<Rightarrow> bool" where
  "spec_ok s \<longleftrightarrow>
     distinct (fs_empty s @ fs_valid s @ fs_release s) \<and>
     (\<forall>i \<in> set (fs_empty s @ fs_release s) \<union> fs_forbid s.
        i \<notin> fs_dec s \<and> i \<notin> fs_ren s \<and> i \<notin> fs_shown s) \<and>
     (\<forall>i \<in> set (fs_valid s). i \<notin> fs_ren s \<and> i \<notin> fs_shown s) \<and>
     (\<forall>i \<in> fs_shown s. i \<in> fs_dec s \<and> i \<notin> fs_ren s) \<and>
     (\<forall>i \<in> fs_forbid s. i \<notin> set (fs_empty s @ fs_valid s @ fs_release s))"

section \<open>The representation relation\<close>

definition fbm_chains :: "Fbm \<Rightarrow> FrameSpec \<Rightarrow> bool" where
  "fbm_chains f s \<longleftrightarrow>
     frame_chain (fbm_pFrames f) (fbm_pEmptyBufferQueue f) (fs_empty s) \<and>
     frame_chain (fbm_pFrames f) (fbm_pValidPictureQueue f) (fs_valid s) \<and>
     frame_chain (fbm_pFrames f) (fbm_pReleaseBufferQueue f) (fs_release s)"

definition fbm_flags :: "Fbm \<Rightarrow> FrameSpec \<Rightarrow> bool" where
  "fbm_flags f s \<longleftrightarrow>
     (\<forall>i < length (fbm_pFrames f). let n = fbm_pFrames f ! i in
        bUsedByDecoder n = (i \<in> fs_dec s) \<and> bUsedByRender n = (i \<in> fs_ren s) \<and>
        bInValidPictureQueue n = (i \<in> set (fs_valid s)) \<and> bAlreadyDisplayed n = (i \<in> fs_shown s) \<and>
        \<not> bNeedRelease n \<and>
        vp_nID (vpicture n) = int i + (if i \<in> fs_forbid s then FRM_FORBID_USE_TAG else 0)) \<and>
     fs_dec s \<union> fs_ren s \<union> fs_shown s \<union> fs_forbid s \<subseteq> {..<length (fbm_pFrames f)}"

definition fbm_counts :: "Fbm \<Rightarrow> FrameSpec \<Rightarrow> bool" where
  "fbm_counts f s \<longleftrightarrow>
     fbm_nMaxFrameNum f = int (length (fbm_pFrames f)) \<and> length (fbm_pFrames f) \<le> 255 \<and>
     fbm_nEmptyBufferNum f = int (length (fs_empty s)) \<and>
     fbm_nValidPictureNum f = int (length (fs_valid s)) \<and>
     fbm_nReleaseBufferNum f = int (length (fs_release s)) \<and>
     fbm_nDecoderHoldingNum f = int (card (fs_dec s)) \<and>
     fbm_nRenderHoldingNum f = int (card (fs_ren s)) \<and>
     int (length (fs_valid s)) \<le> fbm_nWaitForDispNum f"

definition fbm_rel :: "Fbm \<Rightarrow> FrameSpec \<Rightarrow> bool" where
  "fbm_rel f s \<longleftrightarrow> fbm_chains f s \<and> fbm_flags f s \<and> fbm_counts f s \<and> spec_ok s"

lemma fbm_rel_finite:
  assumes "fbm_rel f s"
  shows "finite (fs_dec s)" "finite (fs_ren s)"
  using assms finite_subset [of _ "{..<length (fbm_pFrames f)}"]
  by (auto simp: fbm_rel_def fbm_flags_def)

lemma fbm_rel_in:
  assumes "fbm_rel f s" "i \<in> set (fs_empty s) \<union> set (fs_valid s) \<union> set (fs_release s)"
  shows "i < length (fbm_pFrames f)"
  using assms frame_chain_in by (auto simp: fbm_rel_def fbm_chains_def)

lemma fbm_rel_node:
  assumes "fbm_rel f s" "i < length (fbm_pFrames f)"
  shows "bUsedByDecoder (fbm_pFrames f ! i) = (i \<in> fs_dec s)"
    "bUsedByRender (fbm_pFrames f ! i) = (i \<in> fs_ren s)"
    "bInValidPictureQueue (fbm_pFrames f ! i) = (i \<in> set (fs_valid s))"
    "bAlreadyDisplayed (fbm_pFrames f ! i) = (i \<in> fs_shown s)"
    "\<not> bNeedRelease (fbm_pFrames f ! i)"
    "vp_nID (vpicture (fbm_pFrames f ! i)) =
       int i + (if i \<in> fs_forbid s then FRM_FORBID_USE_TAG else 0)"
  using assms by (simp_all add: fbm_rel_def fbm_flags_def Let_def)

text \<open>Updates that keep the next fields keep the queues.\<close>

lemma node_upd_simps [simp]:
  "length (fbm_pFrames (node_upd i g f)) = length (fbm_pFrames f)"
  "fbm_nMaxFrameNum (node_upd i g f) = fbm_nMaxFrameNum f"
  "fbm_nEmptyBufferNum (node_upd i g f) = fbm_nEmptyBufferNum f"
  "fbm_nValidPictureNum (node_upd i g f) = fbm_nValidPictureNum f"
  "fbm_nReleaseBufferNum (node_upd i g f) = fbm_nReleaseBufferNum f"
  "fbm_nDecoderHoldingNum (node_upd i g f) = fbm_nDecoderHoldingNum f"
  "fbm_nRenderHoldingNum (node_upd i g f) = fbm_nRenderHoldingNum f"
  "fbm_nWaitForDispNum (node_upd i g f) = fbm_nWaitForDispNum f"
  "fbm_pEmptyBufferQueue (node_upd i g f) = fbm_pEmptyBufferQueue f"
  "fbm_pValidPictureQueue (node_upd i g f) = fbm_pValidPictureQueue f"
  "fbm_pReleaseBufferQueue (node_upd i g f) = fbm_pReleaseBufferQueue f"
  "fbm_pFbmInfo (node_upd i g f) = fbm_pFbmInfo f"
  by (simp_all add: node_upd_def)

lemma node_upd_nth:
  "j < length (fbm_pFrames f) \<Longrightarrow>
    fbm_pFrames (node_upd i g f) ! j = (if j = i then g (fbm_pFrames f ! i) else fbm_pFrames f ! j)"
  by (simp add: node_upd_def nth_list_update)

lemma frame_chain_node_upd:
  assumes "\<And>n. pNext (g n) = pNext n"
  shows "frame_chain (fbm_pFrames (node_upd i g f)) h xs = frame_chain (fbm_pFrames f) h xs"
  by (rule frame_chain_cong) (auto simp: node_upd_nth assms)

text \<open>Tables that differ in the next fields only.\<close>

definition same_frames :: "FrameNode list \<Rightarrow> FrameNode list \<Rightarrow> bool" where
  "same_frames ms ns \<longleftrightarrow> length ms = length ns \<and>
     (\<forall>j < length ns. ms ! j = (ns ! j)\<lparr>pNext := pNext (ms ! j)\<rparr>)"

lemma same_frames_nth:
  assumes "same_frames ms ns" "j < length ns"
  shows "bUsedByDecoder (ms ! j) = bUsedByDecoder (ns ! j)"
    "bUsedByRender (ms ! j) = bUsedByRender (ns ! j)"
    "bInValidPictureQueue (ms ! j) = bInValidPictureQueue (ns ! j)"
    "bAlreadyDisplayed (ms ! j) = bAlreadyDisplayed (ns ! j)"
    "bNeedRelease (ms ! j) = bNeedRelease (ns ! j)"
    "vpicture (ms ! j) = vpicture (ns ! j)"
  using assms by (metis (no_types, lifting) same_frames_def FrameNode.select_convs FrameNode.surjective
      FrameNode.update_convs(7))+

lemma same_frames_length: "same_frames ms ns \<Longrightarrow> length ms = length ns"
  by (simp add: same_frames_def)

lemma FbmEnqueue_frames:
  assumes "frame_chain ns h xs" "p < length ns" "p \<notin> set xs"
  obtains h' ns' where "FbmEnqueue h p ns = Ok (h', ns')" "frame_chain ns' h' (xs @ [p])"
    "same_frames ns' ns"
    "\<And>h2 ys. frame_chain ns h2 ys \<Longrightarrow> set ys \<inter> set (xs @ [p]) = {} \<Longrightarrow> frame_chain ns' h2 ys"
proof -
  obtain h' ns' where e: "FbmEnqueue h p ns = Ok (h', ns')" "frame_chain ns' h' (xs @ [p])"
    "length ns' = length ns" "\<forall>i < length ns. ns' ! i = (ns ! i)\<lparr>pNext := pNext (ns' ! i)\<rparr>"
    "\<forall>i. i \<notin> set xs \<longrightarrow> i \<noteq> p \<longrightarrow> i < length ns \<longrightarrow> ns' ! i = ns ! i"
    using FbmEnqueue_chain [OF assms] by blast
  have "frame_chain ns' h2 ys" if "frame_chain ns h2 ys" "set ys \<inter> set (xs @ [p]) = {}" for h2 ys
  proof -
    have "frame_chain ns' h2 ys = frame_chain ns h2 ys"
      using that(2) e(3,5) by (intro frame_chain_cong) auto
    then show ?thesis using that(1) by simp
  qed
  then show thesis using that e by (auto simp: same_frames_def)
qed

lemma fbm_flags_same:
  assumes "same_frames (fbm_pFrames f') (fbm_pFrames f)"
  shows "fbm_flags f' s = fbm_flags f s"
  using same_frames_nth [OF assms] same_frames_length [OF assms]
  by (auto simp: fbm_flags_def Let_def)

text \<open>One lemma per queue: the frame is appended to the list the queue stands for.\<close>

lemma fbm_enq_empty_chains:
  assumes "fbm_chains f s" "distinct (fs_empty s @ fs_valid s @ fs_release s)"
    "i < length (fbm_pFrames f)" "i \<notin> set (fs_empty s @ fs_valid s @ fs_release s)"
  obtains h ns where "fbm_enq_empty i f = Ok (f\<lparr>fbm_pEmptyBufferQueue := h, fbm_pFrames := ns,
      fbm_nEmptyBufferNum := fbm_nEmptyBufferNum f + 1\<rparr>)"
    "same_frames ns (fbm_pFrames f)"
    "frame_chain ns h (fs_empty s @ [i])"
    "frame_chain ns (fbm_pValidPictureQueue f) (fs_valid s)"
    "frame_chain ns (fbm_pReleaseBufferQueue f) (fs_release s)"
proof -
  have c: "frame_chain (fbm_pFrames f) (fbm_pEmptyBufferQueue f) (fs_empty s)"
    "frame_chain (fbm_pFrames f) (fbm_pValidPictureQueue f) (fs_valid s)"
    "frame_chain (fbm_pFrames f) (fbm_pReleaseBufferQueue f) (fs_release s)"
    using assms(1) by (simp_all add: fbm_chains_def)
  obtain h ns where e: "FbmEnqueue (fbm_pEmptyBufferQueue f) i (fbm_pFrames f) = Ok (h, ns)"
    "frame_chain ns h (fs_empty s @ [i])" "same_frames ns (fbm_pFrames f)"
    "\<And>h2 ys. frame_chain (fbm_pFrames f) h2 ys \<Longrightarrow> set ys \<inter> set (fs_empty s @ [i]) = {} \<Longrightarrow>
       frame_chain ns h2 ys"
    using FbmEnqueue_frames [OF c(1) assms(3)] assms(4) by auto
  have "frame_chain ns (fbm_pValidPictureQueue f) (fs_valid s)"
    "frame_chain ns (fbm_pReleaseBufferQueue f) (fs_release s)"
    using e(4) [OF c(2)] e(4) [OF c(3)] assms(2,4) by auto
  then show thesis using that [of ns h] e by (simp add: fbm_enq_empty_def)
qed

lemma fbm_enq_valid_chains:
  assumes "fbm_chains f s" "distinct (fs_empty s @ fs_valid s @ fs_release s)"
    "i < length (fbm_pFrames f)" "i \<notin> set (fs_empty s @ fs_valid s @ fs_release s)"
  obtains h ns where "fbm_enq_valid i f = Ok (node_upd i (\<lambda>n. n\<lparr>bInValidPictureQueue := True\<rparr>)
      (f\<lparr>fbm_pValidPictureQueue := h, fbm_pFrames := ns,
         fbm_nValidPictureNum := fbm_nValidPictureNum f + 1,
         fbm_nWaitForDispNum := fbm_nWaitForDispNum f + 1\<rparr>))"
    "same_frames ns (fbm_pFrames f)"
    "frame_chain ns (fbm_pEmptyBufferQueue f) (fs_empty s)"
    "frame_chain ns h (fs_valid s @ [i])"
    "frame_chain ns (fbm_pReleaseBufferQueue f) (fs_release s)"
proof -
  have c: "frame_chain (fbm_pFrames f) (fbm_pEmptyBufferQueue f) (fs_empty s)"
    "frame_chain (fbm_pFrames f) (fbm_pValidPictureQueue f) (fs_valid s)"
    "frame_chain (fbm_pFrames f) (fbm_pReleaseBufferQueue f) (fs_release s)"
    using assms(1) by (simp_all add: fbm_chains_def)
  obtain h ns where e: "FbmEnqueue (fbm_pValidPictureQueue f) i (fbm_pFrames f) = Ok (h, ns)"
    "frame_chain ns h (fs_valid s @ [i])" "same_frames ns (fbm_pFrames f)"
    "\<And>h2 ys. frame_chain (fbm_pFrames f) h2 ys \<Longrightarrow> set ys \<inter> set (fs_valid s @ [i]) = {} \<Longrightarrow>
       frame_chain ns h2 ys"
    using FbmEnqueue_frames [OF c(2) assms(3)] assms(4) by auto
  have "frame_chain ns (fbm_pEmptyBufferQueue f) (fs_empty s)"
    "frame_chain ns (fbm_pReleaseBufferQueue f) (fs_release s)"
    using e(4) [OF c(1)] e(4) [OF c(3)] assms(2,4) by auto
  then show thesis using that [of ns h] e by (simp add: fbm_enq_valid_def)
qed

section \<open>Refinement of the locked sections\<close>

text \<open>What no operation of the protocol changes.\<close>

definition fbm_fixed :: "Fbm \<Rightarrow> Fbm \<Rightarrow> bool" where
  "fbm_fixed f' f \<longleftrightarrow> fbm_pFbmInfo f' = fbm_pFbmInfo f \<and>
     length (fbm_pFrames f') = length (fbm_pFrames f)"

lemma fbm_take_empty_refines:
  assumes "fbm_rel f s"
  shows "\<exists>f'. fbm_take_empty f = Ok (fst (spec_request_buffer s), f') \<and>
    fbm_rel f' (snd (spec_request_buffer s)) \<and> fbm_fixed f' f"
proof (cases "fs_empty s")
  case Nil
  then have "fbm_pEmptyBufferQueue f = None" using assms by (auto simp: fbm_rel_def fbm_chains_def)
  moreover from this have "fbm_rel (f\<lparr>fbm_pEmptyBufferQueue := None\<rparr>) s"
    using assms by (auto simp: fbm_rel_def fbm_chains_def fbm_flags_def fbm_counts_def)
  ultimately show ?thesis
    using Nil assms by (simp add: fbm_take_empty_def FbmDequeue_def spec_request_buffer_def fbm_fixed_def)
next
  case (Cons i es)
  let ?ns = "fbm_pFrames f" and ?s' = "s\<lparr>fs_empty := es, fs_dec := insert i (fs_dec s)\<rparr>"
  have c: "fbm_chains f s" "fbm_flags f s" "fbm_counts f s" "spec_ok s"
    using assms by (simp_all add: fbm_rel_def)
  have h: "fbm_pEmptyBufferQueue f = Some i" using c(1) Cons by (auto simp: fbm_chains_def)
  obtain h' ns' where d: "FbmDequeue (Some i) ?ns = Ok (Some i, h', ns')" "i < length ?ns"
    "ns' = ?ns[i := (?ns ! i)\<lparr>pNext := None\<rparr>]" "frame_chain ns' h' es"
    using FbmDequeue_chain [of ?ns i "i # es"] c(1) Cons h by (auto simp: fbm_chains_def)
  note n = fbm_rel_node [OF assms d(2)]
  have i: "i \<notin> fs_dec s" "i \<notin> fs_ren s" "i \<notin> fs_shown s" "i \<notin> set (fs_valid s)" "i \<notin> fs_forbid s"
    "i \<notin> set (fs_release s)"
    using c(4) Cons by (auto simp: spec_ok_def)
  let ?f' = "node_upd i (\<lambda>n. n\<lparr>bUsedByDecoder := True\<rparr>) (f\<lparr>fbm_pEmptyBufferQueue := h',
      fbm_pFrames := ns', fbm_nEmptyBufferNum := fbm_nEmptyBufferNum f - 1,
      fbm_nDecoderHoldingNum := fbm_nDecoderHoldingNum f + 1\<rparr>)"
  have t: "fbm_take_empty f = Ok (Some i, ?f')"
    using h d(1,2,3) n i by (simp add: fbm_take_empty_def Let_def)
  have "fbm_chains ?f' ?s'"
    using c(1) d(2,3,4) i
    by (auto simp: fbm_chains_def frame_chain_node_upd node_next_update chain_upd)
  moreover have "fbm_flags ?f' ?s'"
    using c(2) d(2,3) by (auto simp: fbm_flags_def Let_def node_upd_nth nth_list_update)
  moreover have "fbm_counts ?f' ?s'"
    using c(3) d(3) Cons i fbm_rel_finite [OF assms] by (auto simp: fbm_counts_def)
  moreover have "spec_ok ?s'" using c(4) i Cons by (auto simp: spec_ok_def)
  ultimately show ?thesis
    using t Cons d(3) by (simp add: fbm_rel_def spec_request_buffer_def fbm_fixed_def)
qed

lemma fbm_take_valid_refines:
  assumes "fbm_rel f s"
  shows "\<exists>f'. fbm_take_valid f = Ok (fst (spec_request_picture s), f') \<and>
    fbm_rel f' (snd (spec_request_picture s)) \<and> fbm_fixed f' f"
proof (cases "fs_valid s")
  case Nil
  then have "fbm_pValidPictureQueue f = None" using assms by (auto simp: fbm_rel_def fbm_chains_def)
  moreover from this have "fbm_rel (f\<lparr>fbm_pValidPictureQueue := None\<rparr>) s"
    using assms by (auto simp: fbm_rel_def fbm_chains_def fbm_flags_def fbm_counts_def)
  ultimately show ?thesis
    using Nil assms by (simp add: fbm_take_valid_def FbmDequeue_def spec_request_picture_def fbm_fixed_def)
next
  case (Cons i vs)
  let ?ns = "fbm_pFrames f" and ?s' = "s\<lparr>fs_valid := vs, fs_ren := insert i (fs_ren s)\<rparr>"
  have c: "fbm_chains f s" "fbm_flags f s" "fbm_counts f s" "spec_ok s"
    using assms by (simp_all add: fbm_rel_def)
  have h: "fbm_pValidPictureQueue f = Some i" using c(1) Cons by (auto simp: fbm_chains_def)
  obtain h' ns' where d: "FbmDequeue (Some i) ?ns = Ok (Some i, h', ns')" "i < length ?ns"
    "ns' = ?ns[i := (?ns ! i)\<lparr>pNext := None\<rparr>]" "frame_chain ns' h' vs" "i \<notin> set vs"
    using FbmDequeue_chain [of ?ns i "i # vs"] c(1) Cons h by (auto simp: fbm_chains_def)
  note n = fbm_rel_node [OF assms d(2)]
  have i: "i \<notin> fs_ren s" "i \<notin> fs_shown s" "i \<notin> set (fs_empty s)" "i \<notin> fs_forbid s"
    "i \<notin> set (fs_release s)"
    using c(4) Cons by (auto simp: spec_ok_def)
  let ?f' = "node_upd i (\<lambda>n. n\<lparr>bInValidPictureQueue := False, bUsedByRender := True,
        vpicture := (vpicture n)\<lparr>vp_nBufStatus :=
          vp_nBufStatus (vpicture n) OR MAJOR_DISP_USE_FLAG\<rparr>\<rparr>)
      (f\<lparr>fbm_pValidPictureQueue := h', fbm_pFrames := ns',
         fbm_nValidPictureNum := fbm_nValidPictureNum f - 1,
         fbm_nWaitForDispNum := fbm_nWaitForDispNum f - 1,
         fbm_nRenderHoldingNum := fbm_nRenderHoldingNum f + 1\<rparr>)"
  have t: "fbm_take_valid f = Ok (Some i, ?f')"
    using h d(1,2,3) n i Cons by (simp add: fbm_take_valid_def Let_def)
  have "fbm_chains ?f' ?s'"
    using c(1) d(2,3,4) i
    by (auto simp: fbm_chains_def frame_chain_node_upd node_next_update chain_upd)
  moreover have "fbm_flags ?f' ?s'"
    using c(2) d(2,3,5) Cons by (auto simp: fbm_flags_def Let_def node_upd_nth nth_list_update)
  moreover have "fbm_counts ?f' ?s'"
    using c(3) d(3) Cons i fbm_rel_finite [OF assms] by (auto simp: fbm_counts_def)
  moreover have "spec_ok ?s'" using c(4) i Cons by (auto simp: spec_ok_def)
  ultimately show ?thesis
    using t Cons d(3) by (simp add: fbm_rel_def spec_request_picture_def fbm_fixed_def)
qed

text \<open>The two ways a frame enters a queue, with the flags and counters around it.\<close>

lemma fbm_rel_enq_empty:
  assumes "fbm_chains f s" "fbm_flags f s" "fbm_counts f s" "spec_ok s" "i < length (fbm_pFrames f)"
    "i \<notin> fs_dec s" "i \<notin> fs_ren s" "i \<notin> fs_shown s" "i \<notin> fs_forbid s"
    "i \<notin> set (fs_empty s @ fs_valid s @ fs_release s)"
  shows "\<exists>f'. fbm_enq_empty i f = Ok f' \<and> fbm_rel f' (s\<lparr>fs_empty := fs_empty s @ [i]\<rparr>) \<and>
    fbm_fixed f' f"
proof -
  have "distinct (fs_empty s @ fs_valid s @ fs_release s)" using assms(4) by (simp add: spec_ok_def)
  from fbm_enq_empty_chains [OF assms(1) this assms(5,10)]
  obtain h ns where e: "fbm_enq_empty i f = Ok (f\<lparr>fbm_pEmptyBufferQueue := h, fbm_pFrames := ns,
      fbm_nEmptyBufferNum := fbm_nEmptyBufferNum f + 1\<rparr>)"
    "same_frames ns (fbm_pFrames f)"
    "frame_chain ns h (fs_empty s @ [i])"
    "frame_chain ns (fbm_pValidPictureQueue f) (fs_valid s)"
    "frame_chain ns (fbm_pReleaseBufferQueue f) (fs_release s)" .
  let ?f' = "f\<lparr>fbm_pEmptyBufferQueue := h, fbm_pFrames := ns,
      fbm_nEmptyBufferNum := fbm_nEmptyBufferNum f + 1\<rparr>"
  and ?s' = "s\<lparr>fs_empty := fs_empty s @ [i]\<rparr>"
  have "fbm_chains ?f' ?s'" using e by (simp add: fbm_chains_def)
  moreover have "fbm_flags ?f' ?s'"
    using fbm_flags_same [of ?f' f s] assms(2) e(2) by (simp add: fbm_flags_def)
  moreover have "fbm_counts ?f' ?s'"
    using assms(3) same_frames_length [OF e(2)] by (simp add: fbm_counts_def)
  moreover have "spec_ok ?s'" using assms(4,6-10) by (auto simp: spec_ok_def)
  ultimately show ?thesis
    using e(1) same_frames_length [OF e(2)] by (auto simp: fbm_rel_def fbm_fixed_def)
qed

lemma fbm_rel_enq_valid:
  assumes "fbm_chains f s" "fbm_flags f s" "fbm_counts f s" "spec_ok s" "i < length (fbm_pFrames f)"
    "i \<notin> fs_ren s" "i \<notin> fs_shown s" "i \<notin> fs_forbid s"
    "i \<notin> set (fs_empty s @ fs_valid s @ fs_release s)"
  shows "\<exists>f'. fbm_enq_valid i f = Ok f' \<and> fbm_rel f' (s\<lparr>fs_valid := fs_valid s @ [i]\<rparr>) \<and>
    fbm_fixed f' f"
proof -
  have "distinct (fs_empty s @ fs_valid s @ fs_release s)" using assms(4) by (simp add: spec_ok_def)
  from fbm_enq_valid_chains [OF assms(1) this assms(5,9)]
  obtain h ns where e: "fbm_enq_valid i f = Ok (node_upd i (\<lambda>n. n\<lparr>bInValidPictureQueue := True\<rparr>)
      (f\<lparr>fbm_pValidPictureQueue := h, fbm_pFrames := ns,
         fbm_nValidPictureNum := fbm_nValidPictureNum f + 1,
         fbm_nWaitForDispNum := fbm_nWaitForDispNum f + 1\<rparr>))"
    "same_frames ns (fbm_pFrames f)"
    "frame_chain ns (fbm_pEmptyBufferQueue f) (fs_empty s)"
    "frame_chain ns h (fs_valid s @ [i])"
    "frame_chain ns (fbm_pReleaseBufferQueue f) (fs_release s)" .
  let ?g = "f\<lparr>fbm_pValidPictureQueue := h, fbm_pFrames := ns,
      fbm_nValidPictureNum := fbm_nValidPictureNum f + 1,
      fbm_nWaitForDispNum := fbm_nWaitForDispNum f + 1\<rparr>"
  let ?f' = "node_upd i (\<lambda>n. n\<lparr>bInValidPictureQueue := True\<rparr>) ?g"
  and ?s' = "s\<lparr>fs_valid := fs_valid s @ [i]\<rparr>"
  have "fbm_chains ?f' ?s'" using e by (simp add: fbm_chains_def frame_chain_node_upd)
  moreover have "fbm_flags ?g s" using fbm_flags_same [of ?g f s] assms(2) e(2) by simp
  then have "fbm_flags ?f' ?s'"
    by (auto simp: fbm_flags_def Let_def node_upd_nth)
  moreover have "fbm_counts ?f' ?s'"
    using assms(3) same_frames_length [OF e(2)] by (simp add: fbm_counts_def)
  moreover have "spec_ok ?s'" using assms(4,6-9) by (auto simp: spec_ok_def)
  ultimately show ?thesis
    using e(1) same_frames_length [OF e(2)] by (auto simp: fbm_rel_def fbm_fixed_def)
qed

text \<open>The flags of one frame change, the queues stay.\<close>

lemma fbm_chains_node_upd:
  assumes "\<And>n. pNext (g n) = pNext n" "fs_empty s' = fs_empty s" "fs_valid s' = fs_valid s"
    "fs_release s' = fs_release s"
  shows "fbm_chains (node_upd i g f) s' = fbm_chains f s"
  using assms by (simp add: fbm_chains_def frame_chain_node_upd)

lemma fbm_share_node_refines:
  assumes "fbm_rel f s" "i < length (fbm_pFrames f)" "i \<notin> fs_ren s"
  shows "\<exists>f'. fbm_share_node i f = Ok f' \<and> fbm_rel f' (spec_share_buffer i s) \<and> fbm_fixed f' f"
proof (cases "i \<in> fs_dec s \<and> i \<notin> set (fs_valid s) \<and> i \<notin> fs_shown s")
  case True
  have c: "fbm_chains f s" "fbm_flags f s" "fbm_counts f s" "spec_ok s"
    using assms by (simp_all add: fbm_rel_def)
  have "i \<notin> fs_forbid s" "i \<notin> set (fs_empty s @ fs_valid s @ fs_release s)"
    using c(4) True by (auto simp: spec_ok_def)
  from fbm_rel_enq_valid [OF c assms(2,3) _ this] True fbm_rel_node [OF assms(1,2)]
  show ?thesis using assms(2) by (simp add: fbm_share_node_def node_get_def spec_share_buffer_def)
next
  case False
  then show ?thesis
    using assms fbm_rel_node [OF assms(1,2)]
    by (simp add: fbm_share_node_def node_get_def spec_share_buffer_def fbm_fixed_def)
qed

text \<open>The decoder lets go of frame \<open>i\<close>: the state between clearing the flag and the rest.\<close>

lemma fbm_dec_cleared:
  assumes "fbm_rel f s" "i < length (fbm_pFrames f)" "i \<in> fs_dec s"
  defines "f1 \<equiv> node_upd i (\<lambda>n. n\<lparr>bUsedByDecoder := False\<rparr>) f"
    and "s1 \<equiv> s\<lparr>fs_dec := fs_dec s - {i}\<rparr>"
  shows "fbm_chains f1 s1" "fbm_flags f1 s1"
    "fbm_counts (f1\<lparr>fbm_nDecoderHoldingNum := fbm_nDecoderHoldingNum f1 - 1\<rparr>) s1"
    "i \<notin> fs_shown s \<Longrightarrow> spec_ok s1"
proof -
  have c: "fbm_chains f s" "fbm_flags f s" "fbm_counts f s" "spec_ok s"
    using assms(1) by (simp_all add: fbm_rel_def)
  show "fbm_chains f1 s1"
    using c(1) fbm_chains_node_upd [of "\<lambda>n. n\<lparr>bUsedByDecoder := False\<rparr>" s1 s i f]
    by (simp add: f1_def s1_def)
  show "fbm_flags f1 s1"
    using c(2) assms(2) by (auto simp: fbm_flags_def f1_def s1_def Let_def node_upd_nth)
  have "0 < card (fs_dec s)"
    using assms(3) fbm_rel_finite [OF assms(1)] by (auto simp: card_gt_0_iff)
  then show "fbm_counts (f1\<lparr>fbm_nDecoderHoldingNum := fbm_nDecoderHoldingNum f1 - 1\<rparr>) s1"
    using c(3) assms(3) fbm_rel_finite [OF assms(1)] by (auto simp: fbm_counts_def f1_def s1_def)
  show "spec_ok s1" if "i \<notin> fs_shown s" using c(4) that by (auto simp: spec_ok_def s1_def)
qed

text \<open>The queue operations commute with the counter of the decoder's frames.\<close>

lemma fbm_enq_holding:
  "ebind (fbm_enq_empty i f) (\<lambda>g. Ok (g\<lparr>fbm_nDecoderHoldingNum := fbm_nDecoderHoldingNum g - 1\<rparr>)) =
     fbm_enq_empty i (f\<lparr>fbm_nDecoderHoldingNum := fbm_nDecoderHoldingNum f - 1\<rparr>)"
  "ebind (fbm_enq_valid i f) (\<lambda>g. Ok (g\<lparr>fbm_nDecoderHoldingNum := fbm_nDecoderHoldingNum g - 1\<rparr>)) =
     fbm_enq_valid i (f\<lparr>fbm_nDecoderHoldingNum := fbm_nDecoderHoldingNum f - 1\<rparr>)"
  by (auto simp: fbm_enq_empty_def fbm_enq_valid_def ebind_def node_upd_def split: exec.splits)

lemma node_upd_counters:
  "node_upd i g (f\<lparr>fbm_nDecoderHoldingNum := k\<rparr>) = (node_upd i g f)\<lparr>fbm_nDecoderHoldingNum := k\<rparr>"
  "node_upd i g (f\<lparr>fbm_nRenderHoldingNum := k\<rparr>) = (node_upd i g f)\<lparr>fbm_nRenderHoldingNum := k\<rparr>"
  by (cases f; simp add: node_upd_def)+

lemma fbm_counter_frame [simp]:
  "fbm_chains (f\<lparr>fbm_nDecoderHoldingNum := k\<rparr>) s = fbm_chains f s"
  "fbm_flags (f\<lparr>fbm_nDecoderHoldingNum := k\<rparr>) s = fbm_flags f s"
  "fbm_chains (f\<lparr>fbm_nRenderHoldingNum := k\<rparr>) s = fbm_chains f s"
  "fbm_flags (f\<lparr>fbm_nRenderHoldingNum := k\<rparr>) s = fbm_flags f s"
  "fbm_chains (f\<lparr>fbm_nWaitForDispNum := k\<rparr>) s = fbm_chains f s"
  "fbm_flags (f\<lparr>fbm_nWaitForDispNum := k\<rparr>) s = fbm_flags f s"
  by (simp_all add: fbm_chains_def fbm_flags_def)

lemma fbm_return_node_refines:
  assumes "fbm_rel f s" "i < length (fbm_pFrames f)"
  shows "\<exists>f'. fbm_return_node i v f = Ok f' \<and> fbm_rel f' (spec_return_buffer i (v \<noteq> 0) s) \<and>
    fbm_fixed f' f"
proof (cases "i \<in> fs_dec s")
  case False
  then show ?thesis using assms fbm_rel_node [OF assms]
    by (simp add: fbm_return_node_def node_get_def spec_return_buffer_def fbm_fixed_def)
next
  case dec: True
  let ?f1 = "node_upd i (\<lambda>n. n\<lparr>bUsedByDecoder := False\<rparr>) f"
  let ?f2 = "?f1\<lparr>fbm_nDecoderHoldingNum := fbm_nDecoderHoldingNum ?f1 - 1\<rparr>"
  let ?s1 = "s\<lparr>fs_dec := fs_dec s - {i}\<rparr>"
  note n = fbm_rel_node [OF assms] and c1 = fbm_dec_cleared [OF assms dec]
  have ok: "spec_ok s" using assms(1) by (simp add: fbm_rel_def)
  have i: "i \<notin> fs_forbid s" "i \<notin> set (fs_empty s)" "i \<notin> set (fs_release s)"
    using ok dec by (auto simp: spec_ok_def)
  have fx: "fbm_fixed g f" if "fbm_fixed g ?f2" for g using that by (simp add: fbm_fixed_def)
  have c2: "fbm_chains ?f2 ?s1" "fbm_flags ?f2 ?s1" "fbm_counts ?f2 ?s1"
    using c1(1-3) by simp_all
  consider (keep) "i \<in> set (fs_valid s) \<or> i \<in> fs_ren s"
    | (shown) "i \<notin> set (fs_valid s)" "i \<notin> fs_ren s" "i \<in> fs_shown s"
    | (valid) "i \<notin> set (fs_valid s)" "i \<notin> fs_ren s" "i \<notin> fs_shown s" "v \<noteq> 0"
    | (drop) "i \<notin> set (fs_valid s)" "i \<notin> fs_ren s" "i \<notin> fs_shown s" "v = 0"
    by blast
  then show ?thesis
  proof cases
    case keep
    then have "i \<notin> fs_shown s" "i \<in> set (fs_valid s) \<Longrightarrow> i \<notin> fs_ren s"
      using ok by (auto simp: spec_ok_def)
    then have "fbm_return_node i v f = Ok ?f2" "fbm_rel ?f2 ?s1"
      using keep n dec assms(2) c2 c1(4)
      by (auto simp: fbm_return_node_def node_get_def Let_def fbm_rel_def)
    then show ?thesis using keep dec by (auto simp: spec_return_buffer_def Let_def fbm_fixed_def)
  next
    case shown
    let ?f3 = "node_upd i (\<lambda>n. n\<lparr>bAlreadyDisplayed := False\<rparr>) ?f2"
    let ?s3 = "?s1\<lparr>fs_shown := fs_shown s - {i}\<rparr>"
    have "fbm_chains ?f3 ?s3"
      using c2(1) fbm_chains_node_upd [of "\<lambda>n. n\<lparr>bAlreadyDisplayed := False\<rparr>" ?s3 ?s1 i ?f2] by simp
    moreover have "fbm_flags ?f3 ?s3"
      using c2(2) assms(2) by (auto simp: fbm_flags_def Let_def node_upd_nth)
    moreover have "fbm_counts ?f3 ?s3" "spec_ok ?s3"
      using c2(3) ok by (auto simp: fbm_counts_def spec_ok_def)
    ultimately obtain f' where e: "fbm_enq_empty i ?f3 = Ok f'"
      "fbm_rel f' (?s3\<lparr>fs_empty := fs_empty ?s3 @ [i]\<rparr>)" "fbm_fixed f' ?f3"
      using fbm_rel_enq_empty [of ?f3 ?s3 i] assms(2) i shown by auto
    have "fbm_return_node i v f = fbm_enq_empty i ?f3"
      using n dec shown assms(2)
      by (simp add: fbm_return_node_def node_get_def Let_def fbm_enq_holding node_upd_counters)
    then show ?thesis using e dec shown
      by (auto simp: spec_return_buffer_def Let_def fbm_fixed_def)
  next
    case valid
    then obtain f' where e: "fbm_enq_valid i ?f2 = Ok f'"
      "fbm_rel f' (?s1\<lparr>fs_valid := fs_valid ?s1 @ [i]\<rparr>)" "fbm_fixed f' ?f2"
      using fbm_rel_enq_valid [OF c2 c1(4)] assms(2) i by auto
    have "fbm_return_node i v f = fbm_enq_valid i ?f2"
      using n dec valid assms(2)
      by (simp add: fbm_return_node_def node_get_def Let_def fbm_enq_holding)
    then show ?thesis using e fx dec valid by (auto simp: spec_return_buffer_def Let_def)
  next
    case drop
    then obtain f' where e: "fbm_enq_empty i ?f2 = Ok f'"
      "fbm_rel f' (?s1\<lparr>fs_empty := fs_empty ?s1 @ [i]\<rparr>)" "fbm_fixed f' ?f2"
      using fbm_rel_enq_empty [OF c2 c1(4)] assms(2) i by auto
    have "fbm_return_node i v f = fbm_enq_empty i ?f2"
      using n dec drop assms(2)
      by (simp add: fbm_return_node_def node_get_def Let_def fbm_enq_holding)
    then show ?thesis using e fx dec drop by (auto simp: spec_return_buffer_def Let_def)
  qed
qed

lemma fbm_ren_cleared:
  assumes "fbm_rel f s" "i < length (fbm_pFrames f)" "i \<in> fs_ren s"
  defines "f1 \<equiv> node_upd i (\<lambda>n. n\<lparr>bUsedByRender := False\<rparr>)
      (f\<lparr>fbm_nRenderHoldingNum := fbm_nRenderHoldingNum f - 1\<rparr>)"
    and "s1 \<equiv> s\<lparr>fs_ren := fs_ren s - {i}\<rparr>"
  shows "fbm_rel f1 s1"
proof -
  have c: "fbm_chains f s" "fbm_flags f s" "fbm_counts f s" "spec_ok s"
    using assms(1) by (simp_all add: fbm_rel_def)
  have "fbm_chains f1 s1"
    using c(1) by (simp add: f1_def s1_def fbm_chains_def frame_chain_node_upd)
  moreover have "fbm_flags f1 s1"
    using c(2) assms(2) by (auto simp: fbm_flags_def f1_def s1_def Let_def node_upd_nth)
  moreover have "0 < card (fs_ren s)"
    using assms(3) fbm_rel_finite [OF assms(1)] by (auto simp: card_gt_0_iff)
  then have "fbm_counts f1 s1"
    using c(3) assms(3) fbm_rel_finite [OF assms(1)] by (auto simp: fbm_counts_def f1_def s1_def)
  moreover have "spec_ok s1" using c(4) by (auto simp: spec_ok_def s1_def)
  ultimately show ?thesis by (simp add: fbm_rel_def)
qed

lemma fbm_return_shown_refines:
  assumes "fbm_rel f s" "i < length (fbm_pFrames f)"
  shows "\<exists>f'. fbm_return_shown i f = Ok (fst (spec_return_picture i s), f') \<and>
    fbm_rel f' (snd (spec_return_picture i s)) \<and> fbm_fixed f' f"
proof (cases "i \<in> fs_ren s")
  case False
  then show ?thesis using assms fbm_rel_node [OF assms]
    by (simp add: fbm_return_shown_def node_get_def spec_return_picture_def fbm_fixed_def)
next
  case ren: True
  let ?f1 = "node_upd i (\<lambda>n. n\<lparr>bUsedByRender := False\<rparr>)
      (f\<lparr>fbm_nRenderHoldingNum := fbm_nRenderHoldingNum f - 1\<rparr>)"
  let ?s1 = "s\<lparr>fs_ren := fs_ren s - {i}\<rparr>"
  note n = fbm_rel_node [OF assms]
  have r: "fbm_chains ?f1 ?s1" "fbm_flags ?f1 ?s1" "fbm_counts ?f1 ?s1" "spec_ok ?s1"
    using fbm_ren_cleared [OF assms ren] by (simp_all add: fbm_rel_def)
  have ok: "spec_ok s" using assms(1) by (simp add: fbm_rel_def)
  have i: "i \<notin> fs_forbid s" "i \<notin> set (fs_empty s)" "i \<notin> set (fs_release s)" "i \<notin> set (fs_valid s)"
    "i \<notin> fs_shown s"
    using ok ren by (auto simp: spec_ok_def)
  show ?thesis
  proof (cases "i \<in> fs_dec s")
    case True
    let ?f2 = "node_upd i (\<lambda>n. n\<lparr>bAlreadyDisplayed := True\<rparr>) ?f1"
    let ?s2 = "?s1\<lparr>fs_shown := insert i (fs_shown s)\<rparr>"
    have "fbm_chains ?f2 ?s2" using r(1) by (simp add: fbm_chains_def frame_chain_node_upd)
    moreover have "fbm_flags ?f2 ?s2"
      using r(2) assms(2) by (auto simp: fbm_flags_def Let_def node_upd_nth)
    moreover have "fbm_counts ?f2 ?s2" "spec_ok ?s2"
      using r(3) ok i True by (auto simp: fbm_counts_def spec_ok_def)
    moreover have "fbm_return_shown i f = Ok (0, ?f2)"
      using n i ren True assms(2) by (simp add: fbm_return_shown_def node_get_def Let_def)
    ultimately show ?thesis
      using ren True by (simp add: spec_return_picture_def fbm_rel_def fbm_fixed_def Let_def)
  next
    case False
    then obtain f' where e: "fbm_enq_empty i ?f1 = Ok f'"
      "fbm_rel f' (?s1\<lparr>fs_empty := fs_empty ?s1 @ [i]\<rparr>)" "fbm_fixed f' ?f1"
      using fbm_rel_enq_empty [OF r] assms(2) i by auto
    have "fbm_return_shown i f = Ok (0, f')"
      using n i ren False assms(2) e(1) by (simp add: fbm_return_shown_def node_get_def Let_def)
    then show ?thesis
      using e(2,3) ren False by (simp add: spec_return_picture_def fbm_fixed_def Let_def)
  qed
qed

text \<open>One turn of the flush loop takes the oldest waiting picture.\<close>

definition spec_flush_one :: "nat \<Rightarrow> FrameSpec \<Rightarrow> FrameSpec" where
  "spec_flush_one i s =
     (let s1 = s\<lparr>fs_valid := tl (fs_valid s)\<rparr> in
      if i \<in> fs_dec s then s1\<lparr>fs_shown := insert i (fs_shown s)\<rparr>
      else s1\<lparr>fs_empty := fs_empty s @ [i]\<rparr>)"

lemma fbm_flush_dequeue:
  assumes "fbm_rel f s" "fs_valid s = i # vs"
  shows "\<exists>h ns f1. FbmDequeue (fbm_pValidPictureQueue f) (fbm_pFrames f) = Ok (Some i, h, ns) \<and>
    f1 = node_upd i (\<lambda>n. n\<lparr>vpicture := (vpicture n)\<lparr>vp_nBufStatus := 0\<rparr>\<rparr>)
      (f\<lparr>fbm_pValidPictureQueue := h, fbm_pFrames := ns,
         fbm_nValidPictureNum := fbm_nValidPictureNum f - 1\<rparr>) \<and>
    fbm_rel (node_upd i (\<lambda>n. n\<lparr>bInValidPictureQueue := False\<rparr>) f1) (s\<lparr>fs_valid := vs\<rparr>) \<and>
    i < length (fbm_pFrames f) \<and> fbm_fixed f1 f \<and>
    bUsedByRender (fbm_pFrames f1 ! i) = bUsedByRender (fbm_pFrames f ! i) \<and>
    bAlreadyDisplayed (fbm_pFrames f1 ! i) = bAlreadyDisplayed (fbm_pFrames f ! i) \<and>
    bUsedByDecoder (fbm_pFrames f1 ! i) = bUsedByDecoder (fbm_pFrames f ! i)"
proof -
  let ?ns = "fbm_pFrames f" and ?s' = "s\<lparr>fs_valid := vs\<rparr>"
  have c: "fbm_chains f s" "fbm_flags f s" "fbm_counts f s" "spec_ok s"
    using assms by (simp_all add: fbm_rel_def)
  have h: "fbm_pValidPictureQueue f = Some i" using c(1) assms(2) by (auto simp: fbm_chains_def)
  obtain h' ns' where d: "FbmDequeue (Some i) ?ns = Ok (Some i, h', ns')" "i < length ?ns"
    "ns' = ?ns[i := (?ns ! i)\<lparr>pNext := None\<rparr>]" "frame_chain ns' h' vs" "i \<notin> set vs"
    using FbmDequeue_chain [of ?ns i "i # vs"] c(1) assms(2) h by (auto simp: fbm_chains_def)
  have i: "i \<notin> set (fs_empty s)" "i \<notin> set (fs_release s)"
    using c(4) assms(2) by (auto simp: spec_ok_def)
  let ?f1 = "node_upd i (\<lambda>n. n\<lparr>vpicture := (vpicture n)\<lparr>vp_nBufStatus := 0\<rparr>\<rparr>)
      (f\<lparr>fbm_pValidPictureQueue := h', fbm_pFrames := ns',
         fbm_nValidPictureNum := fbm_nValidPictureNum f - 1\<rparr>)"
  let ?f' = "node_upd i (\<lambda>n. n\<lparr>bInValidPictureQueue := False\<rparr>) ?f1"
  have "fbm_chains ?f' ?s'"
    using c(1) d(2,3,4) i
    by (auto simp: fbm_chains_def frame_chain_node_upd node_next_update chain_upd)
  moreover have "fbm_flags ?f' ?s'"
    using c(2) d(2,3,5) assms(2)
    by (auto simp: fbm_flags_def Let_def node_upd_nth nth_list_update)
  moreover have "fbm_counts ?f' ?s'" using c(3) d(3) assms(2) by (auto simp: fbm_counts_def)
  moreover have "spec_ok ?s'" using c(4) assms(2) by (auto simp: spec_ok_def)
  ultimately show ?thesis
    using h d(1,2,3) by (auto simp: fbm_rel_def fbm_fixed_def node_upd_nth)
qed

lemma fbm_flush_turn:
  assumes "fbm_rel f s" "fs_valid s = i # vs"
  shows "\<exists>f'. fbm_flush_loop f = fbm_flush_loop f' \<and> fbm_rel f' (spec_flush_one i s) \<and> fbm_fixed f' f"
proof -
  obtain h ns f1 where d: "FbmDequeue (fbm_pValidPictureQueue f) (fbm_pFrames f) = Ok (Some i, h, ns)"
    "f1 = node_upd i (\<lambda>n. n\<lparr>vpicture := (vpicture n)\<lparr>vp_nBufStatus := 0\<rparr>\<rparr>)
      (f\<lparr>fbm_pValidPictureQueue := h, fbm_pFrames := ns,
         fbm_nValidPictureNum := fbm_nValidPictureNum f - 1\<rparr>)"
    "fbm_rel (node_upd i (\<lambda>n. n\<lparr>bInValidPictureQueue := False\<rparr>) f1) (s\<lparr>fs_valid := vs\<rparr>)"
    "i < length (fbm_pFrames f)" "fbm_fixed f1 f"
    "bUsedByRender (fbm_pFrames f1 ! i) = bUsedByRender (fbm_pFrames f ! i)"
    "bAlreadyDisplayed (fbm_pFrames f1 ! i) = bAlreadyDisplayed (fbm_pFrames f ! i)"
    "bUsedByDecoder (fbm_pFrames f1 ! i) = bUsedByDecoder (fbm_pFrames f ! i)"
    using fbm_flush_dequeue [OF assms] by blast
  let ?f2 = "node_upd i (\<lambda>n. n\<lparr>bInValidPictureQueue := False\<rparr>) f1" and ?s2 = "s\<lparr>fs_valid := vs\<rparr>"
  have ok: "spec_ok s" using assms(1) by (simp add: fbm_rel_def)
  have i: "i \<notin> fs_forbid s" "i \<notin> set (fs_empty s)" "i \<notin> set (fs_release s)" "i \<notin> fs_ren s"
    "i \<notin> fs_shown s" "i \<notin> set vs"
    using ok assms(2) by (auto simp: spec_ok_def)
  note n = fbm_rel_node [OF assms(1) d(4)]
  have r: "fbm_chains ?f2 ?s2" "fbm_flags ?f2 ?s2" "fbm_counts ?f2 ?s2" "spec_ok ?s2"
    using d(3) by (simp_all add: fbm_rel_def)
  have l: "i < length (fbm_pFrames ?f2)" using d(4,5) by (simp add: fbm_fixed_def)
  show ?thesis
  proof (cases "i \<in> fs_dec s")
    case True
    let ?f3 = "node_upd i (\<lambda>n. n\<lparr>bAlreadyDisplayed := True\<rparr>) ?f2"
    have "fbm_flush_loop f = fbm_flush_loop ?f3"
      using d(1,6-8) n i True by (subst fbm_flush_loop.simps) (simp add: Let_def d(2) [symmetric])
    moreover have "fbm_chains ?f3 (spec_flush_one i s)"
      using r(1) assms(2) True
      by (simp add: spec_flush_one_def Let_def fbm_chains_def frame_chain_node_upd)
    moreover have "fbm_flags ?f3 (spec_flush_one i s)"
      using r(2) l True assms(2)
      by (auto simp: spec_flush_one_def Let_def fbm_flags_def node_upd_nth)
    moreover have "fbm_counts ?f3 (spec_flush_one i s)" "spec_ok (spec_flush_one i s)"
      using r(3,4) ok i True assms(2) by (auto simp: spec_flush_one_def fbm_counts_def spec_ok_def)
    ultimately show ?thesis using d(5) by (auto simp: fbm_rel_def fbm_fixed_def)
  next
    case False
    then obtain f' where e: "fbm_enq_empty i ?f2 = Ok f'"
      "fbm_rel f' (?s2\<lparr>fs_empty := fs_empty ?s2 @ [i]\<rparr>)" "fbm_fixed f' ?f2"
      using fbm_rel_enq_empty [OF r l] i by auto
    have "fbm_flush_loop f = fbm_flush_loop f'"
      using d(1,6-8) n i False e(1)
      by (subst fbm_flush_loop.simps) (simp add: Let_def d(2) [symmetric])
    then show ?thesis
      using e(2,3) d(5) False assms(2) by (auto simp: spec_flush_one_def Let_def fbm_fixed_def)
  qed
qed

lemma spec_flush_one_flush:
  assumes "fs_valid s = i # vs" "i \<notin> set vs"
  shows "spec_flush (spec_flush_one i s) = spec_flush s"
  using assms by (auto simp: spec_flush_def spec_flush_one_def Let_def intro!: FrameSpec.equality)

text \<open>The flush loop ends and leaves the flushed state.\<close>

lemma fbm_flush_loop_refines:
  assumes "fbm_rel f s"
  shows "\<exists>f'. fbm_flush_loop f = Some f' \<and> fbm_rel f' (spec_flush s) \<and> fbm_fixed f' f"
  using assms
proof (induction "fs_valid s" arbitrary: f s)
  case Nil
  then have "fbm_pValidPictureQueue f = None" by (auto simp: fbm_rel_def fbm_chains_def)
  then have "fbm_flush_loop f = Some f" by (subst fbm_flush_loop.simps) (simp add: FbmDequeue_def)
  moreover have "spec_flush s = s" using Nil.hyps by (simp add: spec_flush_def)
  ultimately show ?case using Nil.prems by (simp add: fbm_fixed_def)
next
  case (Cons i vs)
  obtain f1 where f1: "fbm_flush_loop f = fbm_flush_loop f1" "fbm_rel f1 (spec_flush_one i s)"
    "fbm_fixed f1 f"
    using fbm_flush_turn [OF Cons.prems Cons.hyps(2) [symmetric]] by blast
  have v: "vs = fs_valid (spec_flush_one i s)" "i \<notin> set vs"
    using Cons.hyps(2) [symmetric] Cons.prems
    by (auto simp: spec_flush_one_def Let_def fbm_rel_def spec_ok_def)
  obtain f' where "fbm_flush_loop f1 = Some f'" "fbm_rel f' (spec_flush (spec_flush_one i s))"
    "fbm_fixed f' f1"
    using Cons.hyps(1) [OF v(1) f1(2)] by blast
  then show ?case
    using f1 spec_flush_one_flush [OF Cons.hyps(2) [symmetric] v(2)] by (auto simp: fbm_fixed_def)
qed

text \<open>A frame the display hands over enters the empty queue with its plain id.\<close>

definition spec_hand_over :: "nat \<Rightarrow> FrameSpec \<Rightarrow> FrameSpec" where
  "spec_hand_over i s = s\<lparr>fs_forbid := fs_forbid s - {i}, fs_empty := fs_empty s @ [i]\<rparr>"

lemma fbm_hand_over_refines:
  assumes "fbm_rel f s" "i \<in> fs_forbid s"
  shows "\<exists>f'. fbm_enq_empty i f = Ok f' \<and> i < length (fbm_pFrames f) \<and>
    vp_nID (vpicture (fbm_pFrames f' ! i)) = int i + FRM_FORBID_USE_TAG \<and>
    fbm_rel (node_upd i (\<lambda>n. n\<lparr>vpicture := (vpicture n)\<lparr>vp_nID := int i\<rparr>\<rparr>) f') (spec_hand_over i s) \<and>
    fbm_fixed f' f"
proof -
  let ?g = "\<lambda>n. n\<lparr>vpicture := (vpicture n)\<lparr>vp_nID := int i\<rparr>\<rparr>"
  have c: "fbm_chains f s" "fbm_flags f s" "fbm_counts f s" "spec_ok s"
    using assms by (simp_all add: fbm_rel_def)
  have l: "i < length (fbm_pFrames f)" using c(2) assms(2) by (auto simp: fbm_flags_def)
  have i: "i \<notin> fs_dec s" "i \<notin> fs_ren s" "i \<notin> fs_shown s"
    "i \<notin> set (fs_empty s @ fs_valid s @ fs_release s)"
    using c(4) assms(2) by (auto simp: spec_ok_def)
  have di: "distinct (fs_empty s @ fs_valid s @ fs_release s)" using c(4) by (simp add: spec_ok_def)
  from fbm_enq_empty_chains [OF c(1) this l i(4)]
  obtain h ns where e: "fbm_enq_empty i f = Ok (f\<lparr>fbm_pEmptyBufferQueue := h, fbm_pFrames := ns,
      fbm_nEmptyBufferNum := fbm_nEmptyBufferNum f + 1\<rparr>)"
    "same_frames ns (fbm_pFrames f)"
    "frame_chain ns h (fs_empty s @ [i])"
    "frame_chain ns (fbm_pValidPictureQueue f) (fs_valid s)"
    "frame_chain ns (fbm_pReleaseBufferQueue f) (fs_release s)" .
  let ?f' = "f\<lparr>fbm_pEmptyBufferQueue := h, fbm_pFrames := ns,
      fbm_nEmptyBufferNum := fbm_nEmptyBufferNum f + 1\<rparr>"
  note len = same_frames_length [OF e(2)]
  have "fbm_chains (node_upd i ?g ?f') (spec_hand_over i s)"
    using e by (simp add: fbm_chains_def spec_hand_over_def frame_chain_node_upd)
  moreover have fl: "fbm_flags ?f' s" using fbm_flags_same [of ?f' f s] c(2) e(2) by simp
  then have "fbm_flags (node_upd i ?g ?f') (spec_hand_over i s)"
    by (auto simp: fbm_flags_def spec_hand_over_def Let_def node_upd_nth)
  moreover have "fbm_counts (node_upd i ?g ?f') (spec_hand_over i s)"
    using c(3) len by (simp add: fbm_counts_def spec_hand_over_def)
  moreover have "spec_ok (spec_hand_over i s)"
    using c(4) i di by (auto simp: spec_ok_def spec_hand_over_def)
  moreover have "vp_nID (vpicture (ns ! i)) = int i + FRM_FORBID_USE_TAG"
    using fl l len assms(2) by (simp add: fbm_flags_def Let_def)
  ultimately show ?thesis
    using e(1) l len by (auto simp: fbm_rel_def fbm_fixed_def)
qed

section \<open>The abstraction function\<close>

definition fbm_abs :: "Fbm \<Rightarrow> FrameSpec" where
  "fbm_abs f =
     (let ns = fbm_pFrames f; walk = chain_list (node_next pNext ns) (length ns);
          those = (\<lambda>P. set (filter (\<lambda>i. P (ns ! i)) [0..<length ns]))
      in \<lparr>fs_empty = walk (fbm_pEmptyBufferQueue f), fs_valid = walk (fbm_pValidPictureQueue f),
          fs_release = walk (fbm_pReleaseBufferQueue f), fs_dec = those bUsedByDecoder,
          fs_ren = those bUsedByRender, fs_shown = those bAlreadyDisplayed,
          fs_forbid = set (filter (\<lambda>i. vp_nID (vpicture (ns ! i)) \<noteq> int i) [0..<length ns])\<rparr>)"

definition fbm_inv :: "Fbm \<Rightarrow> bool" where
  "fbm_inv f \<longleftrightarrow> fbm_rel f (fbm_abs f)"

lemma fbm_rel_abs: "fbm_rel f s \<Longrightarrow> fbm_abs f = s"
proof -
  assume r: "fbm_rel f s"
  have c: "frame_chain (fbm_pFrames f) (fbm_pEmptyBufferQueue f) (fs_empty s)"
    "frame_chain (fbm_pFrames f) (fbm_pValidPictureQueue f) (fs_valid s)"
    "frame_chain (fbm_pFrames f) (fbm_pReleaseBufferQueue f) (fs_release s)"
    using r by (auto simp: fbm_rel_def fbm_chains_def)
  have "chain_list (node_next pNext (fbm_pFrames f)) (length (fbm_pFrames f))
        (fbm_pEmptyBufferQueue f) = fs_empty s"
    "chain_list (node_next pNext (fbm_pFrames f)) (length (fbm_pFrames f))
        (fbm_pValidPictureQueue f) = fs_valid s"
    "chain_list (node_next pNext (fbm_pFrames f)) (length (fbm_pFrames f))
        (fbm_pReleaseBufferQueue f) = fs_release s"
    using c by (simp_all add: chain_list_eq chain_length)
  moreover have "i < length (fbm_pFrames f)"
    if "i \<in> fs_dec s \<union> fs_ren s \<union> fs_shown s \<union> fs_forbid s" for i
    using r that by (auto simp: fbm_rel_def fbm_flags_def)
  ultimately show ?thesis
    by (auto simp: fbm_abs_def Let_def fbm_rel_node [OF r] intro!: FrameSpec.equality split: if_splits)
qed

lemma fbm_rel_iff: "fbm_rel f s \<longleftrightarrow> fbm_inv f \<and> s = fbm_abs f"
  using fbm_rel_abs by (auto simp: fbm_inv_def)

end
