(* ===== verification/Fbm_Protocol.thy ===== *)
theory Fbm_Protocol
  imports Fbm_Spec Frame_Fifo
begin

text \<open>The frame buffer manager under its clients: the decoder, the renderer and, for 3D streams,
  the second decoder and renderer, calling through both handles in any order.\<close>

section \<open>The state of both managers\<close>

definition pic_valid :: "FbmWorld \<Rightarrow> pic_ptr \<Rightarrow> bool" where
  "pic_valid w p = (case p of
       PicAt h i \<Rightarrow> (case fbm_sel h w of None \<Rightarrow> False | Some f \<Rightarrow> i < length (fbm_pFrames f))
     | PicOther k \<Rightarrow> k < length (others w))"

definition world_inv :: "FbmWorld \<Rightarrow> bool" where
  "world_inv w \<longleftrightarrow>
     (\<forall>h \<in> {FbmFirst, FbmSecond}. case fbm_sel h w of
        None \<Rightarrow> True | Some f \<Rightarrow> fbm_inv f \<and> fbm_pFbmInfo f) \<and>
     (case vfi_pMajorDispFrame w of None \<Rightarrow> True | Some p \<Rightarrow> pic_valid w p) \<and>
     (case vfi_pMajorDecoderFrame w of None \<Rightarrow> True | Some p \<Rightarrow> pic_valid w p)"

lemma fbm_sel_put [simp]:
  "fbm_sel h (fbm_put h f w) = Some f"
  "h \<noteq> h' \<Longrightarrow> fbm_sel h (fbm_put h' f w) = fbm_sel h w"
  by (cases h; cases h'; simp add: fbm_sel_def fbm_put_def)+

lemma fbm_sel_other [simp]:
  "fbm_sel h (w\<lparr>vfi_pMajorDispFrame := p\<rparr>) = fbm_sel h w"
  "fbm_sel h (w\<lparr>vfi_pMajorDecoderFrame := p\<rparr>) = fbm_sel h w"
  "fbm_sel h (w\<lparr>others := os\<rparr>) = fbm_sel h w"
  by (cases h; simp add: fbm_sel_def)+

lemma fbm_put_fields [simp]:
  "others (fbm_put h f w) = others w"
  "vfi_pMajorDispFrame (fbm_put h f w) = vfi_pMajorDispFrame w"
  "vfi_pMajorDecoderFrame (fbm_put h f w) = vfi_pMajorDecoderFrame w"
  "vfi_bTwoStreamShareOneFbm (fbm_put h f w) = vfi_bTwoStreamShareOneFbm w"
  by (cases h; simp add: fbm_put_def)+

lemma fbm_get_Some [simp]: "fbm_sel h w = Some f \<Longrightarrow> fbm_get h w = Ok f"
  by (simp add: fbm_get_def)

lemma world_inv_sel:
  "world_inv w \<Longrightarrow> fbm_sel h w = Some f \<Longrightarrow> fbm_rel f (fbm_abs f) \<and> fbm_pFbmInfo f"
  by (cases h) (auto simp: world_inv_def fbm_inv_def)

lemma world_inv_iff:
  "world_inv w \<longleftrightarrow> (\<forall>h f. fbm_sel h w = Some f \<longrightarrow> fbm_inv f \<and> fbm_pFbmInfo f) \<and>
     (\<forall>p. vfi_pMajorDispFrame w = Some p \<longrightarrow> pic_valid w p) \<and>
     (\<forall>p. vfi_pMajorDecoderFrame w = Some p \<longrightarrow> pic_valid w p)"
proof -
  have "(\<forall>h. P h) \<longleftrightarrow> P FbmFirst \<and> P FbmSecond" for P by (metis fbm_handle.exhaust)
  then show ?thesis by (auto simp: world_inv_def split: option.splits)
qed

text \<open>Replacing the state of one manager, with the same table size, keeps the pointers valid.\<close>

lemma pic_valid_put:
  assumes "fbm_sel h w = Some f" "fbm_fixed f' f"
  shows "pic_valid (fbm_put h f' w) p = pic_valid w p"
proof (cases p)
  case (PicAt h2 i)
  then show ?thesis using assms by (cases "h2 = h") (auto simp: pic_valid_def fbm_fixed_def)
qed (simp add: pic_valid_def)

lemma pic_valid_major [simp]:
  "pic_valid (w\<lparr>vfi_pMajorDispFrame := q\<rparr>) p = pic_valid w p"
  "pic_valid (w\<lparr>vfi_pMajorDecoderFrame := q\<rparr>) p = pic_valid w p"
  by (cases p; simp add: pic_valid_def)+

lemma world_inv_major:
  assumes "world_inv w" "\<And>p. q = Some p \<Longrightarrow> pic_valid w p"
  shows "world_inv (w\<lparr>vfi_pMajorDispFrame := q\<rparr>)" "world_inv (w\<lparr>vfi_pMajorDecoderFrame := q\<rparr>)"
  using assms by (simp_all add: world_inv_iff)

lemma world_inv_put:
  assumes "world_inv w" "fbm_sel h w = Some f" "fbm_rel f' s" "fbm_fixed f' f"
  shows "world_inv (fbm_put h f' w)"
proof -
  have "fbm_inv g \<and> fbm_pFbmInfo g" if "fbm_sel h2 (fbm_put h f' w) = Some g" for h2 g
    using that assms world_inv_sel [OF assms(1)] fbm_rel_iff
    by (cases "h2 = h") (auto simp: fbm_fixed_def)
  then show ?thesis
    using assms(1) pic_valid_put [OF assms(2,4)] by (auto simp: world_inv_iff)
qed

section \<open>Writes to the status word of a picture\<close>

lemma fbm_rel_picture:
  assumes "fbm_rel f s" "i < length (fbm_pFrames f)" "vp_nID v = vp_nID (vpicture (fbm_pFrames f ! i))"
  shows "fbm_rel (node_upd i (\<lambda>n. n\<lparr>vpicture := v\<rparr>) f) s"
proof -
  let ?f = "node_upd i (\<lambda>n. n\<lparr>vpicture := v\<rparr>) f"
  have "fbm_chains ?f s" "fbm_counts ?f s" "spec_ok s"
    using assms(1) by (auto simp: fbm_rel_def fbm_chains_def fbm_counts_def frame_chain_node_upd)
  moreover have "fbm_flags ?f s"
    using assms by (auto simp: fbm_rel_def fbm_flags_def Let_def node_upd_nth)
  ultimately show ?thesis by (simp add: fbm_rel_def)
qed

definition same_but_status :: "FbmWorld \<Rightarrow> FbmWorld \<Rightarrow> bool" where
  "same_but_status w' w \<longleftrightarrow>
     vfi_bTwoStreamShareOneFbm w' = vfi_bTwoStreamShareOneFbm w \<and>
     vfi_pMajorDispFrame w' = vfi_pMajorDispFrame w \<and>
     vfi_pMajorDecoderFrame w' = vfi_pMajorDecoderFrame w \<and>
     map vp_nID (others w') = map vp_nID (others w) \<and>
     (\<forall>p. pic_valid w' p = pic_valid w p) \<and>
     (\<forall>h. (fbm_sel h w' = None) = (fbm_sel h w = None) \<and>
        map_option fbm_abs (fbm_sel h w') = map_option fbm_abs (fbm_sel h w) \<and>
        map_option (length \<circ> fbm_pFrames) (fbm_sel h w') = map_option (length \<circ> fbm_pFrames) (fbm_sel h w))"

lemma same_but_status_refl [simp]: "same_but_status w w"
  by (simp add: same_but_status_def)

lemma pic_get_at:
  "fbm_sel h w = Some f \<Longrightarrow> i < length (fbm_pFrames f) \<Longrightarrow>
    pic_get w (PicAt h i) = Ok (vpicture (fbm_pFrames f ! i))"
  by (simp add: pic_get_def node_get_def)

lemma pic_get_other: "k < length (others w) \<Longrightarrow> pic_get w (PicOther k) = Ok (others w ! k)"
  by (simp add: pic_get_def)

lemma pic_get_valid: "pic_valid w p \<Longrightarrow> \<exists>v. pic_get w p = Ok v"
  by (cases p) (auto simp: pic_valid_def pic_get_at pic_get_other split: option.splits)

lemma pic_status_ok:
  assumes "world_inv w" "pic_valid w p"
  shows "\<exists>w'. pic_status p g w = Ok w' \<and> world_inv w' \<and> same_but_status w' w"
proof (cases p)
  case (PicAt h i)
  then obtain f where f: "fbm_sel h w = Some f" "i < length (fbm_pFrames f)"
    using assms(2) by (auto simp: pic_valid_def split: option.splits)
  let ?v = "vpicture (fbm_pFrames f ! i)"
  let ?f' = "node_upd i (\<lambda>n. n\<lparr>vpicture := ?v\<lparr>vp_nBufStatus := g (vp_nBufStatus ?v)\<rparr>\<rparr>) f"
  have r: "fbm_rel ?f' (fbm_abs f)"
    using fbm_rel_picture [of f "fbm_abs f" i] world_inv_sel [OF assms(1) f(1)] f(2) by simp
  have fx: "fbm_fixed ?f' f" by (simp add: fbm_fixed_def)
  have "pic_status p g w = Ok (fbm_put h ?f' w)"
    using f PicAt by (simp add: pic_status_def pic_get_at pic_set_def node_get_def)
  moreover have "world_inv (fbm_put h ?f' w)" using world_inv_put [OF assms(1) f(1) r fx] .
  moreover have "same_but_status (fbm_put h ?f' w) w"
  proof -
    have "(fbm_sel h2 (fbm_put h ?f' w) = None) = (fbm_sel h2 w = None) \<and>
        map_option fbm_abs (fbm_sel h2 (fbm_put h ?f' w)) = map_option fbm_abs (fbm_sel h2 w) \<and>
        map_option (length \<circ> fbm_pFrames) (fbm_sel h2 (fbm_put h ?f' w)) =
          map_option (length \<circ> fbm_pFrames) (fbm_sel h2 w)" for h2
      using f fbm_rel_abs [OF r] by (cases "h2 = h") simp_all
    then show ?thesis using pic_valid_put [OF f(1) fx] by (simp add: same_but_status_def)
  qed
  ultimately show ?thesis by blast
next
  case (PicOther k)
  then have k: "k < length (others w)" using assms(2) by (simp add: pic_valid_def)
  let ?v = "(others w ! k)\<lparr>vp_nBufStatus := g (vp_nBufStatus (others w ! k))\<rparr>"
  let ?w' = "w\<lparr>others := (others w)[k := ?v]\<rparr>"
  have "pic_status p g w = Ok ?w'"
    using k PicOther by (simp add: pic_status_def pic_get_other pic_set_def)
  moreover have v: "pic_valid ?w' q = pic_valid w q" for q by (cases q) (auto simp: pic_valid_def)
  moreover have "map vp_nID ((others w)[k := ?v]) = map vp_nID (others w)"
    using k by (auto simp: list_eq_iff_nth_eq nth_list_update)
  moreover have "world_inv ?w'"
    using assms(1) v by (simp add: world_inv_iff)
  ultimately show ?thesis by (auto simp: same_but_status_def)
qed

section \<open>Calls\<close>

datatype fbm_call =
    CallRequestBuffer fbm_handle
  | CallReturnBuffer fbm_handle pic_ptr int
  | CallShareBuffer fbm_handle pic_ptr
  | CallRequestPicture fbm_handle
  | CallReturnPicture fbm_handle pic_ptr
  | CallFlush fbm_handle

fun fbm_do :: "fbm_call \<Rightarrow> FbmWorld \<Rightarrow> FbmWorld exec" where
  "fbm_do (CallRequestBuffer h) w = ebind (FbmRequestBuffer (Some h) w) (\<lambda>(p, w'). Ok w')"
| "fbm_do (CallReturnBuffer h p v) w = FbmReturnBuffer (Some h) (Some p) v w"
| "fbm_do (CallShareBuffer h p) w = FbmShareBuffer (Some h) (Some p) w"
| "fbm_do (CallRequestPicture h) w = ebind (FbmRequestPicture (Some h) w) (\<lambda>(p, w'). Ok w')"
| "fbm_do (CallReturnPicture h p) w = ebind (FbmReturnPicture (Some h) (Some p) w) (\<lambda>(r, w'). Ok w')"
| "fbm_do (CallFlush h) w = FbmFlush (Some h) w"

text \<open>What the callers must respect: the handle is one of a created manager, the picture pointer
  points to a picture; a frame is not shared again while the renderer holds it; the second
  renderer of a 3D stream asks only after the first one has got a picture; a picture with the
  forbidden tag in its id goes back to the manager it belongs to.\<close>

fun fbm_call_ok :: "fbm_call \<Rightarrow> FbmWorld \<Rightarrow> bool" where
  "fbm_call_ok (CallRequestBuffer h) w = (fbm_sel h w \<noteq> None)"
| "fbm_call_ok (CallReturnBuffer h p v) w =
     (fbm_sel h w \<noteq> None \<and> pic_valid w p \<and>
      (vfi_bTwoStreamShareOneFbm w = 1 \<longrightarrow> vfi_pFbmFirst w \<noteq> None))"
| "fbm_call_ok (CallShareBuffer h p) w =
     (pic_valid w p \<and>
      (case fbm_sel h w of
         None \<Rightarrow> False
       | Some f \<Rightarrow> (case p of
             PicAt h' i \<Rightarrow> h' = h \<longrightarrow> \<not> bUsedByRender (fbm_pFrames f ! i) | PicOther k \<Rightarrow> True)))"
| "fbm_call_ok (CallRequestPicture h) w =
     (fbm_sel h w \<noteq> None \<and> (fbm_shared h w \<longrightarrow> vfi_pMajorDispFrame w \<noteq> None))"
| "fbm_call_ok (CallReturnPicture h p) w =
     (fbm_sel h w \<noteq> None \<and> pic_valid w p \<and>
      (case p of
         PicAt h' i \<Rightarrow> h' = h \<or> (case pic_get w p of Ok v \<Rightarrow> vp_nID v < FRM_FORBID_USE_TAG | _ \<Rightarrow> False)
       | PicOther k \<Rightarrow> (case pic_get w p of Ok v \<Rightarrow> vp_nID v < FRM_FORBID_USE_TAG | _ \<Rightarrow> False)))"
| "fbm_call_ok (CallFlush h) w = (fbm_sel h w \<noteq> None)"

lemma FbmRequestBuffer_ok:
  assumes inv: "world_inv w" and f: "fbm_sel h w = Some f"
  shows "\<exists>r w'. FbmRequestBuffer (Some h) w = Ok (r, w') \<and> world_inv w'"
proof (cases "fbm_shared h w")
  case True
  note i = world_inv_sel [OF inv f]
  show ?thesis
  proof (cases "vfi_pMajorDecoderFrame w")
    case None
    then show ?thesis using True f i inv by (simp add: FbmRequestBuffer_def)
  next
    case (Some p)
    then have "pic_valid w p" using inv by (simp add: world_inv_def)
    from pic_status_ok [OF inv this] show ?thesis using True f i Some
      by (fastforce simp: FbmRequestBuffer_def)
  qed
next
  case False
  note i = world_inv_sel [OF inv f]
  obtain f' where t: "fbm_take_empty f = Ok (fst (spec_request_buffer (fbm_abs f)), f')"
    "fbm_rel f' (snd (spec_request_buffer (fbm_abs f)))" "fbm_fixed f' f"
    using fbm_take_empty_refines i by blast
  let ?w0 = "w\<lparr>vfi_pMajorDecoderFrame := None\<rparr>"
  have w0: "world_inv ?w0" using world_inv_major(2) [OF inv, of None] by simp
  then have w1: "world_inv (fbm_put h f' ?w0)" using world_inv_put [OF w0 _ t(2,3)] f by simp
  show ?thesis
  proof (cases "fst (spec_request_buffer (fbm_abs f))")
    case None
    then show ?thesis using False f i t w1 by (simp add: FbmRequestBuffer_def Let_def)
  next
    case (Some k)
    then have "k \<in> set (fs_empty (fbm_abs f))"
      by (auto simp: spec_request_buffer_def split: list.splits)
    then have k: "k < length (fbm_pFrames f)" using fbm_rel_in i by blast
    let ?w2 = "(fbm_put h f' ?w0)\<lparr>vfi_pMajorDecoderFrame := Some (PicAt h k)\<rparr>"
    have v: "pic_valid ?w2 (PicAt h k)" using k t(3) by (simp add: pic_valid_def fbm_fixed_def)
    have "world_inv ?w2" using world_inv_major(2) [OF w1, of "Some (PicAt h k)"] v by simp
    from pic_status_ok [OF this v] show ?thesis
      using False f i t w1 Some by (fastforce simp: FbmRequestBuffer_def Let_def)
  qed
qed

lemma FbmRequestPicture_ok:
  assumes inv: "world_inv w" and f: "fbm_sel h w = Some f"
    and major: "fbm_shared h w \<Longrightarrow> vfi_pMajorDispFrame w \<noteq> None"
  shows "\<exists>r w'. FbmRequestPicture (Some h) w = Ok (r, w') \<and> world_inv w'"
proof (cases "fbm_shared h w")
  case True
  then obtain p where p: "vfi_pMajorDispFrame w = Some p" using major by auto
  then have "pic_valid w p" using inv by (simp add: world_inv_def)
  from pic_status_ok [OF inv this] show ?thesis
    using True f world_inv_sel [OF inv f] p by (fastforce simp: FbmRequestPicture_def)
next
  case False
  note i = world_inv_sel [OF inv f]
  obtain f' where t: "fbm_take_valid f = Ok (fst (spec_request_picture (fbm_abs f)), f')"
    "fbm_rel f' (snd (spec_request_picture (fbm_abs f)))" "fbm_fixed f' f"
    using fbm_take_valid_refines i by blast
  let ?w0 = "w\<lparr>vfi_pMajorDispFrame := None\<rparr>"
  have w0: "world_inv ?w0" using world_inv_major(1) [OF inv, of None] by simp
  then have w1: "world_inv (fbm_put h f' ?w0)" using world_inv_put [OF w0 _ t(2,3)] f by simp
  show ?thesis
  proof (cases "fst (spec_request_picture (fbm_abs f))")
    case None
    then show ?thesis using False f i t w1 by (simp add: FbmRequestPicture_def Let_def)
  next
    case (Some k)
    then have "k \<in> set (fs_valid (fbm_abs f))"
      by (auto simp: spec_request_picture_def split: list.splits)
    then have "k < length (fbm_pFrames f)" using fbm_rel_in i by blast
    then have "pic_valid (fbm_put h f' ?w0) (PicAt h k)"
      using t(3) by (simp add: pic_valid_def fbm_fixed_def)
    then have "world_inv ((fbm_put h f' ?w0)\<lparr>vfi_pMajorDispFrame := Some (PicAt h k)\<rparr>)"
      using world_inv_major(1) [OF w1, of "Some (PicAt h k)"] by simp
    then show ?thesis using False f i t Some by (simp add: FbmRequestPicture_def Let_def)
  qed
qed

lemma FbmFlush_ok:
  assumes inv: "world_inv w" and f: "fbm_sel h w = Some f"
  shows "\<exists>w'. FbmFlush (Some h) w = Ok w' \<and> world_inv w'"
proof -
  note i = world_inv_sel [OF inv f]
  obtain f' where "fbm_flush_loop f = Some f'" "fbm_rel f' (spec_flush (fbm_abs f))" "fbm_fixed f' f"
    using fbm_flush_loop_refines i by blast
  then show ?thesis using inv f i world_inv_put [OF inv f] by (auto simp: FbmFlush_def)
qed

text \<open>The id of a picture of a manager names its frame.\<close>

lemma pic_id_at:
  assumes "world_inv w" "fbm_sel h w = Some f" "i < length (fbm_pFrames f)"
    "pic_get w (PicAt h i) = Ok v"
  shows "vp_nID v = int i + (if i \<in> fs_forbid (fbm_abs f) then FRM_FORBID_USE_TAG else 0)"
  using assms world_inv_sel [OF assms(1,2)] fbm_rel_node(6) [of f "fbm_abs f" i]
  by (auto simp: pic_get_at)

lemma same_but_status_sel:
  assumes "same_but_status w' w" "fbm_sel h w = Some f"
  obtains f' where "fbm_sel h w' = Some f'" "fbm_abs f' = fbm_abs f"
    "length (fbm_pFrames f') = length (fbm_pFrames f)"
proof -
  have "map_option fbm_abs (fbm_sel h w') = Some (fbm_abs f)"
    "map_option (length \<circ> fbm_pFrames) (fbm_sel h w') = Some (length (fbm_pFrames f))"
    using assms by (auto simp: same_but_status_def)
  then show thesis using that by auto
qed

lemma FbmShareBuffer_ok:
  assumes inv: "world_inv w" and f: "fbm_sel h w = Some f" and p: "pic_valid w p"
    and ren: "\<And>i. p = PicAt h i \<Longrightarrow> \<not> bUsedByRender (fbm_pFrames f ! i)"
  shows "\<exists>w'. FbmShareBuffer (Some h) (Some p) w = Ok w' \<and> world_inv w'"
proof -
  note i = world_inv_sel [OF inv f]
  obtain v where v: "pic_get w p = Ok v" using pic_get_valid [OF p] by blast
  let ?k = "nat (vp_nID v)"
  show ?thesis
  proof (cases "fbm_shared h w \<or> vp_nID v < 0 \<or> fbm_nMaxFrameNum f \<le> vp_nID v \<or> p \<noteq> PicAt h ?k")
    case True
    then show ?thesis using f i v inv by (auto simp: FbmShareBuffer_def Let_def)
  next
    case False
    then have k: "?k < length (fbm_pFrames f)" using p f by (auto simp: pic_valid_def)
    then have "?k \<notin> fs_ren (fbm_abs f)" using ren False i fbm_rel_node(2) by blast
    then obtain f' where "fbm_share_node ?k f = Ok f'" "fbm_rel f' (spec_share_buffer ?k (fbm_abs f))"
      "fbm_fixed f' f" using fbm_share_node_refines i k by blast
    then show ?thesis using False f i v world_inv_put [OF inv f] by (auto simp: FbmShareBuffer_def Let_def)
  qed
qed

lemma pic_id_same:
  assumes "world_inv w" "world_inv w'" "same_but_status w' w" "pic_get w p = Ok v" "pic_get w' p = Ok v'"
  shows "vp_nID v' = vp_nID v"
proof (cases p)
  case (PicAt h i)
  then obtain f where f: "fbm_sel h w = Some f" "i < length (fbm_pFrames f)"
    using assms(4) by (auto simp: pic_get_def fbm_get_def node_get_def split: option.splits if_splits)
  obtain f' where "fbm_sel h w' = Some f'" "fbm_abs f' = fbm_abs f"
    "length (fbm_pFrames f') = length (fbm_pFrames f)"
    using same_but_status_sel [OF assms(3) f(1)] .
  then show ?thesis
    using pic_id_at [OF assms(1) f] pic_id_at [OF assms(2)] assms(4,5) f(2) PicAt by simp
next
  case (PicOther k)
  have "map vp_nID (others w') = map vp_nID (others w)" using assms(3) by (simp add: same_but_status_def)
  then show ?thesis
    using assms(4,5) PicOther by (auto simp: pic_get_def list_eq_iff_nth_eq split: if_splits)
qed

lemma pic_status_get:
  assumes "world_inv w" "pic_valid w p"
  shows "\<exists>w1 u. pic_status p g w = Ok w1 \<and> pic_get w1 p = Ok u \<and> world_inv w1 \<and> same_but_status w1 w"
proof -
  obtain w1 where w1: "pic_status p g w = Ok w1" "world_inv w1" "same_but_status w1 w"
    using pic_status_ok [OF assms] by blast
  then have "pic_valid w1 p" using assms(2) by (simp add: same_but_status_def)
  then show ?thesis using w1 pic_get_valid by blast
qed

lemma fbm_return_route_ok:
  assumes "world_inv w" "fbm_sel h w = Some f" "pic_valid w p"
    "vfi_bTwoStreamShareOneFbm w = 1 \<Longrightarrow> vfi_pFbmFirst w \<noteq> None"
  shows "\<exists>r w1. fbm_return_route h p v w = Ok (r, w1) \<and> world_inv w1 \<and> same_but_status w1 w \<and>
    (\<forall>h1. r = Some h1 \<longrightarrow> fbm_sel h1 w1 \<noteq> None)"
proof (cases "vfi_bTwoStreamShareOneFbm w = 1")
  case True
  have "fbm_sel FbmFirst w \<noteq> None" using assms(4) [OF True] by (simp add: fbm_sel_def)
  then have go: "\<exists>w1 u. pic_status p g w = Ok w1 \<and> pic_get w1 p = Ok u \<and> world_inv w1 \<and>
      same_but_status w1 w \<and> fbm_sel FbmFirst w1 \<noteq> None" for g
    using pic_status_get [OF assms(1,3), of g] unfolding same_but_status_def by metis
  show ?thesis
  proof (cases h)
    case FbmFirst
    obtain w1 u where "pic_status p (\<lambda>s. s AND NOT MAJOR_DECODER_USE_FLAG) w = Ok w1"
      "pic_get w1 p = Ok u" "world_inv w1" "same_but_status w1 w" "fbm_sel FbmFirst w1 \<noteq> None"
      using go by blast
    then show ?thesis using True FbmFirst by (simp add: fbm_return_route_def del: ebind_eq_Ok)
  next
    case FbmSecond
    obtain w1 u where "pic_status p (\<lambda>s. s AND NOT MINOR_DECODER_USE_FLAG) w = Ok w1"
      "pic_get w1 p = Ok u" "world_inv w1" "same_but_status w1 w" "fbm_sel FbmFirst w1 \<noteq> None"
      using go by blast
    then show ?thesis using True FbmSecond by (simp add: fbm_return_route_def del: ebind_eq_Ok)
  qed
next
  case False
  then show ?thesis using assms(1,2) by (simp add: fbm_return_route_def)
qed

lemma FbmReturnBuffer_ok:
  assumes inv: "world_inv w" and f: "fbm_sel h w = Some f" and p: "pic_valid w p"
    and two: "vfi_bTwoStreamShareOneFbm w = 1 \<Longrightarrow> vfi_pFbmFirst w \<noteq> None"
  shows "\<exists>w'. FbmReturnBuffer (Some h) (Some p) v w = Ok w' \<and> world_inv w'"
proof -
  note i = world_inv_sel [OF inv f]
  obtain r w1 where r: "fbm_return_route h p v w = Ok (r, w1)" "world_inv w1" "same_but_status w1 w"
    "\<forall>h1. r = Some h1 \<longrightarrow> fbm_sel h1 w1 \<noteq> None"
    using fbm_return_route_ok [OF inv f p two] by blast
  show ?thesis
  proof (cases r)
    case None
    then show ?thesis using f i r by (simp add: FbmReturnBuffer_def)
  next
    case (Some h1)
    then obtain f1 where f1: "fbm_sel h1 w1 = Some f1" using r(4) by auto
    have p1: "pic_valid w1 p" using p r(3) by (simp add: same_but_status_def)
    then obtain u where u: "pic_get w1 p = Ok u" using pic_get_valid by blast
    let ?k = "nat (vp_nID u)"
    have e: "FbmReturnBuffer (Some h) (Some p) v w =
        (if vp_nID u < 0 \<or> fbm_nMaxFrameNum f1 \<le> vp_nID u then Ok w1
         else if p \<noteq> PicAt h1 ?k then Ok w1
         else ebind (fbm_return_node ?k v f1) (\<lambda>f'. Ok (fbm_put h1 f' w1)))"
      using f i r(1) Some f1 u by (simp add: FbmReturnBuffer_def Let_def)
    show ?thesis
    proof (cases "vp_nID u < 0 \<or> fbm_nMaxFrameNum f1 \<le> vp_nID u \<or> p \<noteq> PicAt h1 ?k")
      case True
      then show ?thesis using e r(2) by auto
    next
      case False
      then have "?k < length (fbm_pFrames f1)" using p1 f1 by (auto simp: pic_valid_def)
      then obtain f' where "fbm_return_node ?k v f1 = Ok f'"
        "fbm_rel f' (spec_return_buffer ?k (v \<noteq> 0) (fbm_abs f1))" "fbm_fixed f' f1"
        using fbm_return_node_refines world_inv_sel [OF r(2) f1] by blast
      then show ?thesis using False e world_inv_put [OF r(2) f1] by auto
    qed
  qed
qed

lemma fbm_shown_route_ok:
  assumes "world_inv w" "pic_valid w p"
  shows "\<exists>m w1. fbm_shown_route h p w = Ok (m, w1) \<and> world_inv w1 \<and> same_but_status w1 w"
proof (cases "vfi_bTwoStreamShareOneFbm w = 1")
  case True
  note go = pic_status_get [OF assms]
  show ?thesis
  proof (cases h)
    case FbmFirst
    then show ?thesis using True go [of "\<lambda>s. s AND NOT MAJOR_DISP_USE_FLAG"]
      by (auto simp: fbm_shown_route_def)
  next
    case FbmSecond
    then show ?thesis using True go [of "\<lambda>s. s AND NOT MINOR_DISP_USE_FLAG"]
      by (auto simp: fbm_shown_route_def)
  qed
next
  case False
  then show ?thesis using assms by (auto simp: fbm_shown_route_def)
qed

text \<open>Returning a picture of the manager itself, and one that is not.\<close>

lemma fbm_return_forbidden_ok:
  assumes "world_inv w" "fbm_sel h w = Some f" "i \<in> fs_forbid (fbm_abs f)"
  shows "\<exists>f2. fbm_return_forbidden h (PicAt h i) w = Ok (0, fbm_put h f2 w) \<and>
    fbm_rel f2 (spec_hand_over i (fbm_abs f)) \<and> fbm_fixed f2 f \<and> world_inv (fbm_put h f2 w)"
proof -
  have r: "fbm_rel f (fbm_abs f)" using world_inv_sel [OF assms(1,2)] by simp
  obtain f' where e: "fbm_enq_empty i f = Ok f'" "i < length (fbm_pFrames f)"
    "vp_nID (vpicture (fbm_pFrames f' ! i)) = int i + FRM_FORBID_USE_TAG"
    "fbm_rel (node_upd i (\<lambda>n. n\<lparr>vpicture := (vpicture n)\<lparr>vp_nID := int i\<rparr>\<rparr>) f')
      (spec_hand_over i (fbm_abs f))" "fbm_fixed f' f"
    using fbm_hand_over_refines [OF r assms(3)] by blast
  let ?f2 = "node_upd i (\<lambda>n. n\<lparr>vpicture := (vpicture (fbm_pFrames f' ! i))\<lparr>vp_nID := int i\<rparr>\<rparr>) f'"
  have "?f2 = node_upd i (\<lambda>n. n\<lparr>vpicture := (vpicture n)\<lparr>vp_nID := int i\<rparr>\<rparr>) f'"
    by (simp add: node_upd_def)
  then have r2: "fbm_rel ?f2 (spec_hand_over i (fbm_abs f))" using e(4) by simp
  have i: "vp_nID (vpicture (fbm_pFrames f ! i)) = int i + FRM_FORBID_USE_TAG"
    using fbm_rel_node(6) [OF r e(2)] assms(3) by simp
  have ok: "spec_ok (fbm_abs f)" using r by (simp add: fbm_rel_def)
  have idle: "\<not> bUsedByRender (fbm_pFrames f ! i)" "\<not> bInValidPictureQueue (fbm_pFrames f ! i)"
    "\<not> bAlreadyDisplayed (fbm_pFrames f ! i)"
    using fbm_rel_node [OF r e(2)] ok assms(3) by (auto simp: spec_ok_def)
  have "i < length (fbm_pFrames f')" using e(2,5) by (simp add: fbm_fixed_def)
  then have "fbm_return_forbidden h (PicAt h i) w = Ok (0, fbm_put h ?f2 (fbm_put h f' w))"
    using assms(2) e(1,2,3) i idle
    by (simp add: fbm_return_forbidden_def pic_get_at node_get_def Let_def pic_set_def
        del: ebind_eq_Ok)
  moreover have "fbm_put h ?f2 (fbm_put h f' w) = fbm_put h ?f2 w"
    by (cases h) (simp_all add: fbm_put_def)
  moreover have "fbm_fixed ?f2 f" using e(5) by (simp add: fbm_fixed_def)
  ultimately show ?thesis using world_inv_put [OF assms(1,2) r2] r2 by auto
qed

lemma FbmReturnPicture_ok:
  assumes inv: "world_inv w" and f: "fbm_sel h w = Some f" and p: "pic_valid w p"
    and own: "(\<exists>i. p = PicAt h i) \<or> (\<exists>v. pic_get w p = Ok v \<and> vp_nID v < FRM_FORBID_USE_TAG)"
  shows "\<exists>r w'. FbmReturnPicture (Some h) (Some p) w = Ok (r, w') \<and> world_inv w'"
proof -
  note i = world_inv_sel [OF inv f]
  obtain m w1 where m: "fbm_shown_route h p w = Ok (m, w1)" "world_inv w1" "same_but_status w1 w"
    using fbm_shown_route_ok [OF inv p] by blast
  obtain f1 where f1: "fbm_sel h w1 = Some f1" using same_but_status_sel [OF m(3) f] by metis
  note i1 = world_inv_sel [OF m(2) f1]
  have p1: "pic_valid w1 p" using p m(3) by (simp add: same_but_status_def)
  then obtain u where u: "pic_get w1 p = Ok u" using pic_get_valid by blast
  let ?k = "nat (vp_nID u)"
  have e: "FbmReturnPicture (Some h) (Some p) w =
      (if \<not> m then Ok (0, w1)
       else if vp_nID u < 0 \<or> fbm_nMaxFrameNum f1 \<le> vp_nID u then
         (if FRM_FORBID_USE_TAG \<le> vp_nID u then fbm_return_forbidden h p w1 else Ok (-1, w1))
       else if p \<noteq> PicAt h ?k then Ok (-1, w1)
       else ebind (fbm_return_shown ?k f1) (\<lambda>(r, f'). Ok (r, fbm_put h f' w1)))"
    using f i m(1) f1 u by (simp add: FbmReturnPicture_def Let_def)
  consider (stop) "\<not> m \<or> (vp_nID u < 0 \<or> fbm_nMaxFrameNum f1 \<le> vp_nID u) \<and> vp_nID u < FRM_FORBID_USE_TAG
      \<or> \<not> (vp_nID u < 0 \<or> fbm_nMaxFrameNum f1 \<le> vp_nID u) \<and> p \<noteq> PicAt h ?k"
    | (forbid) "m" "FRM_FORBID_USE_TAG \<le> vp_nID u" "fbm_nMaxFrameNum f1 \<le> vp_nID u"
    | (plain) "m" "0 \<le> vp_nID u" "vp_nID u < fbm_nMaxFrameNum f1" "p = PicAt h ?k"
    by linarith
  then show ?thesis
  proof cases
    case stop
    then show ?thesis using e m(2) by auto
  next
    case forbid
    have "\<not> (\<exists>v. pic_get w p = Ok v \<and> vp_nID v < FRM_FORBID_USE_TAG)"
      using pic_id_same [OF inv m(2,3) _ u] forbid(2) by fastforce
    then obtain j where j: "p = PicAt h j" using own by blast
    then have l: "j < length (fbm_pFrames f1)" using p1 f1 by (simp add: pic_valid_def)
    have "vp_nID u = int j + (if j \<in> fs_forbid (fbm_abs f1) then FRM_FORBID_USE_TAG else 0)"
      using pic_id_at [OF m(2) f1 l] u j by simp
    moreover have "length (fbm_pFrames f1) \<le> 255" using i1 by (simp add: fbm_rel_def fbm_counts_def)
    ultimately have "j \<in> fs_forbid (fbm_abs f1)" using forbid(2) l by (simp split: if_splits)
    then obtain w' where "fbm_return_forbidden h (PicAt h j) w1 = Ok (0, w')" "world_inv w'"
      using fbm_return_forbidden_ok [OF m(2) f1] by blast
    then show ?thesis using e forbid j by auto
  next
    case plain
    then have "?k < length (fbm_pFrames f1)" using p1 f1 by (auto simp: pic_valid_def)
    then obtain f' where "fbm_return_shown ?k f1 = Ok (fst (spec_return_picture ?k (fbm_abs f1)), f')"
      "fbm_rel f' (snd (spec_return_picture ?k (fbm_abs f1)))" "fbm_fixed f' f1"
      using fbm_return_shown_refines i1 by blast
    then show ?thesis using plain e world_inv_put [OF m(2) f1] by auto
  qed
qed

lemma fbm_do_ok:
  assumes "world_inv w" "fbm_call_ok c w"
  shows "\<exists>w'. fbm_do c w = Ok w' \<and> world_inv w'"
proof (cases c)
  case (CallRequestBuffer h)
  then obtain f where "fbm_sel h w = Some f" using assms(2) by auto
  from FbmRequestBuffer_ok [OF assms(1) this] show ?thesis using CallRequestBuffer by auto
next
  case (CallReturnBuffer h p v)
  then obtain f where "fbm_sel h w = Some f" using assms(2) by auto
  from FbmReturnBuffer_ok [OF assms(1) this] show ?thesis using CallReturnBuffer assms(2) by auto
next
  case (CallShareBuffer h p)
  then obtain f where "fbm_sel h w = Some f" using assms(2) by (auto split: option.splits)
  from FbmShareBuffer_ok [OF assms(1) this] this show ?thesis
    using CallShareBuffer assms(2) by (auto split: pic_ptr.splits)
next
  case (CallRequestPicture h)
  then obtain f where "fbm_sel h w = Some f" using assms(2) by auto
  from FbmRequestPicture_ok [OF assms(1) this] show ?thesis using CallRequestPicture assms(2) by auto
next
  case (CallReturnPicture h p)
  then obtain f where "fbm_sel h w = Some f" using assms(2) by auto
  moreover have "(\<exists>i. p = PicAt h i) \<or> (\<exists>v. pic_get w p = Ok v \<and> vp_nID v < FRM_FORBID_USE_TAG)"
    using CallReturnPicture assms(2) by (auto split: pic_ptr.splits exec.splits)
  ultimately show ?thesis
    using FbmReturnPicture_ok [OF assms(1), of h f p] CallReturnPicture assms(2) by auto
next
  case (CallFlush h)
  then obtain f where "fbm_sel h w = Some f" using assms(2) by auto
  from FbmFlush_ok [OF assms(1) this] show ?thesis using CallFlush by auto
qed

inductive fbm_step :: "FbmWorld \<Rightarrow> FbmWorld \<Rightarrow> bool" where
  call: "fbm_call_ok c w \<Longrightarrow> fbm_do c w = Ok w' \<Longrightarrow> fbm_step w w'"

inductive_cases fbm_stepE: "fbm_step w w'"

lemma fbm_step_inv: "fbm_step w w' \<Longrightarrow> world_inv w \<Longrightarrow> world_inv w'"
  by (elim fbm_stepE) (use fbm_do_ok in fastforce)

lemma fbm_steps_inv: "fbm_step\<^sup>*\<^sup>* w w' \<Longrightarrow> world_inv w \<Longrightarrow> world_inv w'"
  by (induction rule: rtranclp_induct) (auto intro: fbm_step_inv)

section \<open>Refinement of the calls on one stream\<close>

text \<open>A call through handle \<open>h\<close> with a picture of that manager, and its abstract effect.\<close>

fun pic_index :: "pic_ptr \<Rightarrow> nat" where
  "pic_index (PicAt h i) = i"
| "pic_index (PicOther k) = k"

fun call_on :: "fbm_handle \<Rightarrow> fbm_call \<Rightarrow> bool" where
  "call_on h (CallRequestBuffer h') = (h' = h)"
| "call_on h (CallReturnBuffer h' p v) = (h' = h \<and> p = PicAt h (pic_index p))"
| "call_on h (CallShareBuffer h' p) = (h' = h \<and> p = PicAt h (pic_index p))"
| "call_on h (CallRequestPicture h') = (h' = h)"
| "call_on h (CallReturnPicture h' p) = (h' = h \<and> p = PicAt h (pic_index p))"
| "call_on h (CallFlush h') = (h' = h)"

fun spec_call :: "fbm_call \<Rightarrow> FrameSpec \<Rightarrow> FrameSpec" where
  "spec_call (CallRequestBuffer h) s = snd (spec_request_buffer s)"
| "spec_call (CallReturnBuffer h p v) s = spec_return_buffer (pic_index p) (v \<noteq> 0) s"
| "spec_call (CallShareBuffer h p) s = spec_share_buffer (pic_index p) s"
| "spec_call (CallRequestPicture h) s = snd (spec_request_picture s)"
| "spec_call (CallReturnPicture h p) s =
     (if pic_index p \<in> fs_forbid s then spec_hand_over (pic_index p) s
      else snd (spec_return_picture (pic_index p) s))"
| "spec_call (CallFlush h) s = spec_flush s"

text \<open>The result of a call on manager \<open>h\<close>: its new state represents the abstract one.\<close>

definition call_result :: "fbm_handle \<Rightarrow> FbmWorld \<Rightarrow> Fbm \<Rightarrow> FrameSpec \<Rightarrow> FbmWorld \<Rightarrow> bool" where
  "call_result h w f s w' \<longleftrightarrow>
     (case fbm_sel h w' of
        None \<Rightarrow> False
      | Some f' \<Rightarrow> fbm_rel f' s \<and> fbm_fixed f' f) \<and>
     vfi_bTwoStreamShareOneFbm w' = vfi_bTwoStreamShareOneFbm w"

lemma call_result_put:
  "fbm_rel f' s \<Longrightarrow> fbm_fixed f' f \<Longrightarrow> call_result h w f s (fbm_put h f' w)"
  by (simp add: call_result_def)

lemma call_result_major:
  "call_result h w f s (w'\<lparr>vfi_pMajorDispFrame := q\<rparr>) = call_result h w f s w'"
  "call_result h (w\<lparr>vfi_pMajorDispFrame := q\<rparr>) f s w' = call_result h w f s w'"
  "call_result h (w\<lparr>vfi_pMajorDecoderFrame := q\<rparr>) f s w' = call_result h w f s w'"
  by (simp_all add: call_result_def)

lemma FbmRequestBuffer_refines:
  assumes "world_inv w" "vfi_bTwoStreamShareOneFbm w \<noteq> 1" "fbm_sel h w = Some f"
  shows "\<exists>w'. FbmRequestBuffer (Some h) w =
      Ok (map_option (PicAt h) (fst (spec_request_buffer (fbm_abs f))), w') \<and>
    call_result h w f (snd (spec_request_buffer (fbm_abs f))) w'"
proof -
  note r = world_inv_sel [OF assms(1,3)]
  obtain f' where t: "fbm_take_empty f = Ok (fst (spec_request_buffer (fbm_abs f)), f')"
    "fbm_rel f' (snd (spec_request_buffer (fbm_abs f)))" "fbm_fixed f' f"
    using fbm_take_empty_refines r by blast
  let ?w' = "fbm_put h f' (w\<lparr>vfi_pMajorDecoderFrame := None\<rparr>)"
  have "call_result h w f (snd (spec_request_buffer (fbm_abs f))) ?w'"
    using call_result_put [OF t(2,3), of h "w\<lparr>vfi_pMajorDecoderFrame := None\<rparr>"]
    by (simp add: call_result_major)
  then show ?thesis
    using assms(2,3) r t(1)
    by (cases "fst (spec_request_buffer (fbm_abs f))")
      (simp_all add: FbmRequestBuffer_def fbm_shared_def Let_def)
qed

lemma FbmRequestPicture_refines:
  assumes "world_inv w" "vfi_bTwoStreamShareOneFbm w \<noteq> 1" "fbm_sel h w = Some f"
  shows "\<exists>w'. FbmRequestPicture (Some h) w =
      Ok (map_option (PicAt h) (fst (spec_request_picture (fbm_abs f))), w') \<and>
    call_result h w f (snd (spec_request_picture (fbm_abs f))) w'"
proof -
  note r = world_inv_sel [OF assms(1,3)]
  obtain f' where t: "fbm_take_valid f = Ok (fst (spec_request_picture (fbm_abs f)), f')"
    "fbm_rel f' (snd (spec_request_picture (fbm_abs f)))" "fbm_fixed f' f"
    using fbm_take_valid_refines r by blast
  have "call_result h w f (snd (spec_request_picture (fbm_abs f)))
      (fbm_put h f' (w\<lparr>vfi_pMajorDispFrame := None\<rparr>))"
    using call_result_put [OF t(2,3), of h "w\<lparr>vfi_pMajorDispFrame := None\<rparr>"]
    by (simp add: call_result_major)
  then show ?thesis
    using assms(2,3) r t(1)
    by (cases "fst (spec_request_picture (fbm_abs f))")
      (simp_all add: FbmRequestPicture_def fbm_shared_def Let_def call_result_major)
qed

lemma call_result_same:
  "fbm_sel h w = Some f \<Longrightarrow> fbm_rel f s \<Longrightarrow> call_result h w f s w"
  by (simp add: call_result_def fbm_fixed_def)

text \<open>A picture of manager \<open>h\<close> with the id of its frame, and one with the forbidden tag.\<close>

lemma own_picture:
  assumes "world_inv w" "fbm_sel h w = Some f" "pic_valid w (PicAt h i)"
  obtains v where "pic_get w (PicAt h i) = Ok v" "i < length (fbm_pFrames f)"
    "fbm_nMaxFrameNum f = int (length (fbm_pFrames f))" "length (fbm_pFrames f) \<le> 255"
    "vp_nID v = int i + (if i \<in> fs_forbid (fbm_abs f) then FRM_FORBID_USE_TAG else 0)"
proof -
  have i: "i < length (fbm_pFrames f)" using assms(2,3) by (simp add: pic_valid_def)
  obtain v where v: "pic_get w (PicAt h i) = Ok v" using pic_get_valid [OF assms(3)] by blast
  show thesis
    using that [OF v i] pic_id_at [OF assms(1,2) i v] world_inv_sel [OF assms(1,2)]
    by (simp add: fbm_rel_def fbm_counts_def)
qed

lemma forbid_not_dec: "fbm_rel f s \<Longrightarrow> i \<in> fs_forbid s \<Longrightarrow> i \<notin> fs_dec s"
  by (auto simp: fbm_rel_def spec_ok_def)

lemma FbmReturnBuffer_refines:
  assumes "world_inv w" "vfi_bTwoStreamShareOneFbm w \<noteq> 1" "fbm_sel h w = Some f"
    "pic_valid w (PicAt h i)"
  shows "\<exists>w'. FbmReturnBuffer (Some h) (Some (PicAt h i)) v w = Ok w' \<and>
    call_result h w f (spec_return_buffer i (v \<noteq> 0) (fbm_abs f)) w'"
proof -
  note r = world_inv_sel [OF assms(1,3)]
  obtain u where u: "pic_get w (PicAt h i) = Ok u" "i < length (fbm_pFrames f)"
    "fbm_nMaxFrameNum f = int (length (fbm_pFrames f))" "length (fbm_pFrames f) \<le> 255"
    "vp_nID u = int i + (if i \<in> fs_forbid (fbm_abs f) then FRM_FORBID_USE_TAG else 0)"
    using own_picture [OF assms(1,3,4)] .
  have e: "FbmReturnBuffer (Some h) (Some (PicAt h i)) v w =
      (if i \<in> fs_forbid (fbm_abs f) then Ok w
       else ebind (fbm_return_node i v f) (\<lambda>f'. Ok (fbm_put h f' w)))"
    using assms(2,3) r u by (simp add: FbmReturnBuffer_def fbm_return_route_def Let_def)
  obtain f' where "fbm_return_node i v f = Ok f'"
    "fbm_rel f' (spec_return_buffer i (v \<noteq> 0) (fbm_abs f))" "fbm_fixed f' f"
    using fbm_return_node_refines r u(2) by blast
  then show ?thesis
    using e r call_result_put call_result_same [OF assms(3)] forbid_not_dec
    by (auto simp: spec_return_buffer_def)
qed

lemma FbmShareBuffer_refines:
  assumes "world_inv w" "vfi_bTwoStreamShareOneFbm w \<noteq> 1" "fbm_sel h w = Some f"
    "pic_valid w (PicAt h i)" "\<not> bUsedByRender (fbm_pFrames f ! i)"
  shows "\<exists>w'. FbmShareBuffer (Some h) (Some (PicAt h i)) w = Ok w' \<and>
    call_result h w f (spec_share_buffer i (fbm_abs f)) w'"
proof -
  note r = world_inv_sel [OF assms(1,3)]
  obtain u where u: "pic_get w (PicAt h i) = Ok u" "i < length (fbm_pFrames f)"
    "fbm_nMaxFrameNum f = int (length (fbm_pFrames f))" "length (fbm_pFrames f) \<le> 255"
    "vp_nID u = int i + (if i \<in> fs_forbid (fbm_abs f) then FRM_FORBID_USE_TAG else 0)"
    using own_picture [OF assms(1,3,4)] .
  have e: "FbmShareBuffer (Some h) (Some (PicAt h i)) w =
      (if i \<in> fs_forbid (fbm_abs f) then Ok w
       else ebind (fbm_share_node i f) (\<lambda>f'. Ok (fbm_put h f' w)))"
    using assms(2,3) r u by (simp add: FbmShareBuffer_def fbm_shared_def Let_def)
  have "i \<notin> fs_ren (fbm_abs f)" using assms(5) fbm_rel_node(2) r u(2) by blast
  then obtain f' where "fbm_share_node i f = Ok f'"
    "fbm_rel f' (spec_share_buffer i (fbm_abs f))" "fbm_fixed f' f"
    using fbm_share_node_refines r u(2) by blast
  then show ?thesis
    using e r call_result_put call_result_same [OF assms(3)] forbid_not_dec
    by (auto simp: spec_share_buffer_def)
qed

lemma FbmReturnPicture_refines:
  assumes "world_inv w" "vfi_bTwoStreamShareOneFbm w \<noteq> 1" "fbm_sel h w = Some f"
    "pic_valid w (PicAt h i)"
  shows "\<exists>r w'. FbmReturnPicture (Some h) (Some (PicAt h i)) w = Ok (r, w') \<and>
    call_result h w f (if i \<in> fs_forbid (fbm_abs f) then spec_hand_over i (fbm_abs f)
      else snd (spec_return_picture i (fbm_abs f))) w' \<and>
    (r = 0) = (i \<in> fs_forbid (fbm_abs f) \<or> i \<in> fs_ren (fbm_abs f))"
proof -
  note r = world_inv_sel [OF assms(1,3)]
  obtain u where u: "pic_get w (PicAt h i) = Ok u" "i < length (fbm_pFrames f)"
    "fbm_nMaxFrameNum f = int (length (fbm_pFrames f))" "length (fbm_pFrames f) \<le> 255"
    "vp_nID u = int i + (if i \<in> fs_forbid (fbm_abs f) then FRM_FORBID_USE_TAG else 0)"
    using own_picture [OF assms(1,3,4)] .
  have e: "FbmReturnPicture (Some h) (Some (PicAt h i)) w =
      (if i \<in> fs_forbid (fbm_abs f) then fbm_return_forbidden h (PicAt h i) w
       else ebind (fbm_return_shown i f) (\<lambda>(r, f'). Ok (r, fbm_put h f' w)))"
    using assms(2,3) r u by (simp add: FbmReturnPicture_def fbm_shown_route_def Let_def)
  show ?thesis
  proof (cases "i \<in> fs_forbid (fbm_abs f)")
    case True
    then show ?thesis
      using e fbm_return_forbidden_ok [OF assms(1,3) True] call_result_put by fastforce
  next
    case False
    obtain f' where "fbm_return_shown i f = Ok (fst (spec_return_picture i (fbm_abs f)), f')"
      "fbm_rel f' (snd (spec_return_picture i (fbm_abs f)))" "fbm_fixed f' f"
      using fbm_return_shown_refines r u(2) by blast
    then show ?thesis
      using e False call_result_put by (auto simp: spec_return_picture_def Let_def)
  qed
qed

lemma FbmFlush_refines:
  assumes "world_inv w" "vfi_bTwoStreamShareOneFbm w \<noteq> 1" "fbm_sel h w = Some f"
  shows "\<exists>w'. FbmFlush (Some h) w = Ok w' \<and> call_result h w f (spec_flush (fbm_abs f)) w'"
proof -
  note r = world_inv_sel [OF assms(1,3)]
  obtain f' where "fbm_flush_loop f = Some f'" "fbm_rel f' (spec_flush (fbm_abs f))" "fbm_fixed f' f"
    using fbm_flush_loop_refines r by blast
  then show ?thesis
    using assms(2,3) r call_result_put by (auto simp: FbmFlush_def fbm_shared_def)
qed

lemma fbm_do_refines:
  assumes "world_inv w" "vfi_bTwoStreamShareOneFbm w \<noteq> 1" "fbm_sel h w = Some f"
    "call_on h c" "fbm_call_ok c w"
  shows "\<exists>w'. fbm_do c w = Ok w' \<and> call_result h w f (spec_call c (fbm_abs f)) w'"
proof (cases c)
  case (CallRequestBuffer g)
  then show ?thesis using FbmRequestBuffer_refines [OF assms(1-3)] assms(4) by auto
next
  case (CallReturnBuffer g p v)
  then obtain i where p: "p = PicAt h i" "g = h" using assms(4) by auto
  then show ?thesis
    using FbmReturnBuffer_refines [OF assms(1-3), of i v] CallReturnBuffer assms(5) by simp
next
  case (CallShareBuffer g p)
  then obtain i where p: "p = PicAt h i" "g = h" using assms(4) by auto
  then show ?thesis
    using FbmShareBuffer_refines [OF assms(1-3), of i] CallShareBuffer assms(3,5) by simp
next
  case (CallRequestPicture g)
  then show ?thesis using FbmRequestPicture_refines [OF assms(1-3)] assms(4) by auto
next
  case (CallReturnPicture g p)
  then obtain i where p: "p = PicAt h i" "g = h" using assms(4) by auto
  then show ?thesis
    using FbmReturnPicture_refines [OF assms(1-3), of i] CallReturnPicture assms(5) by auto
next
  case (CallFlush g)
  then show ?thesis using FbmFlush_refines [OF assms(1-3)] assms(4) by auto
qed

section \<open>No frame is lost\<close>

definition spec_owned :: "FrameSpec \<Rightarrow> nat set" where
  "spec_owned s = set (fs_empty s) \<union> set (fs_valid s) \<union> set (fs_release s) \<union> fs_dec s \<union> fs_ren s \<union>
     fs_forbid s"

lemma spec_owned_in: "fbm_rel f s \<Longrightarrow> spec_owned s \<subseteq> {..<length (fbm_pFrames f)}"
proof -
  assume r: "fbm_rel f s"
  have "set (fs_empty s) \<union> set (fs_valid s) \<union> set (fs_release s) \<subseteq> {..<length (fbm_pFrames f)}"
    using fbm_rel_in [OF r] by blast
  moreover have "fs_dec s \<union> fs_ren s \<union> fs_forbid s \<subseteq> {..<length (fbm_pFrames f)}"
    using r by (auto simp: fbm_rel_def fbm_flags_def)
  ultimately show ?thesis unfolding spec_owned_def by blast
qed

lemma spec_call_owned: "spec_owned (spec_call c s) = spec_owned s"
proof (cases c)
  case (CallReturnBuffer h p v)
  then show ?thesis by (auto simp: spec_owned_def spec_return_buffer_def Let_def)
next
  case (CallShareBuffer h p)
  then show ?thesis by (auto simp: spec_owned_def spec_share_buffer_def)
next
  case (CallReturnPicture h p)
  then show ?thesis
    by (auto simp: spec_owned_def spec_hand_over_def spec_return_picture_def Let_def)
qed (auto simp: spec_owned_def spec_request_buffer_def spec_request_picture_def spec_flush_def
    split: list.splits)

inductive own_step :: "fbm_handle \<Rightarrow> FbmWorld \<Rightarrow> FbmWorld \<Rightarrow> bool" for h where
  own: "call_on h c \<Longrightarrow> fbm_call_ok c w \<Longrightarrow> fbm_do c w = Ok w' \<Longrightarrow> own_step h w w'"

inductive_cases own_stepE: "own_step h w w'"

lemma own_step_owned:
  assumes "own_step h w w'" "world_inv w" "vfi_bTwoStreamShareOneFbm w \<noteq> 1" "fbm_sel h w = Some f"
  shows "\<exists>f'. fbm_sel h w' = Some f' \<and> world_inv w' \<and> vfi_bTwoStreamShareOneFbm w' \<noteq> 1 \<and>
    spec_owned (fbm_abs f') = spec_owned (fbm_abs f) \<and>
    length (fbm_pFrames f') = length (fbm_pFrames f)"
proof -
  obtain c where c: "call_on h c" "fbm_call_ok c w" "fbm_do c w = Ok w'"
    using assms(1) by (elim own_stepE)
  have "world_inv w'" using fbm_do_ok [OF assms(2) c(2)] c(3) by simp
  moreover have "call_result h w f (spec_call c (fbm_abs f)) w'"
    using fbm_do_refines [OF assms(2-4) c(1,2)] c(3) by simp
  then obtain f' where "fbm_sel h w' = Some f'" "fbm_rel f' (spec_call c (fbm_abs f))"
    "fbm_fixed f' f" "vfi_bTwoStreamShareOneFbm w' = vfi_bTwoStreamShareOneFbm w"
    by (auto simp: call_result_def split: option.splits)
  ultimately show ?thesis
    using assms(3) fbm_rel_abs spec_call_owned by (auto simp: fbm_fixed_def)
qed

lemma own_steps_owned:
  assumes "(own_step h)\<^sup>*\<^sup>* w w'" "world_inv w" "vfi_bTwoStreamShareOneFbm w \<noteq> 1"
    "fbm_sel h w = Some f"
  shows "\<exists>f'. fbm_sel h w' = Some f' \<and> world_inv w' \<and> vfi_bTwoStreamShareOneFbm w' \<noteq> 1 \<and>
    spec_owned (fbm_abs f') = spec_owned (fbm_abs f) \<and>
    length (fbm_pFrames f') = length (fbm_pFrames f)"
  using assms
proof (induction rule: rtranclp_induct)
  case base
  then show ?case by simp
next
  case (step y z)
  then obtain f' where "fbm_sel h y = Some f'" "world_inv y" "vfi_bTwoStreamShareOneFbm y \<noteq> 1"
    "spec_owned (fbm_abs f') = spec_owned (fbm_abs f)"
    "length (fbm_pFrames f') = length (fbm_pFrames f)" by blast
  then show ?case using own_step_owned [OF step.hyps(2), of f'] by auto
qed

text \<open>The places a frame can be in. A frame that waits for the display counts for its queue also
  while the decoder still uses it as a reference; one that the decoder and the renderer use at
  the same time is held once.\<close>

datatype frame_place = EmptyQueue | ValidQueue | ReleaseQueue | Held | HandedOver

fun frames_at :: "Fbm \<Rightarrow> frame_place \<Rightarrow> nat set" where
  "frames_at f EmptyQueue = set (fs_empty (fbm_abs f))"
| "frames_at f ValidQueue = set (fs_valid (fbm_abs f))"
| "frames_at f ReleaseQueue = set (fs_release (fbm_abs f))"
| "frames_at f Held = fs_dec (fbm_abs f) \<union> fs_ren (fbm_abs f) - set (fs_valid (fbm_abs f))"
| "frames_at f HandedOver = fs_forbid (fbm_abs f)"

text \<open>The frames that two counters count: the decoder uses them while they wait or are shown.\<close>

definition frames_shared :: "Fbm \<Rightarrow> nat set" where
  "frames_shared f = fs_dec (fbm_abs f) \<inter> (fs_ren (fbm_abs f) \<union> set (fs_valid (fbm_abs f)))"

lemma owned_at: "i \<in> spec_owned (fbm_abs f) \<longleftrightarrow> (\<exists>p. i \<in> frames_at f p)"
proof -
  have "(\<exists>p. i \<in> frames_at f p) \<longleftrightarrow> i \<in> frames_at f EmptyQueue \<or> i \<in> frames_at f ValidQueue \<or>
      i \<in> frames_at f ReleaseQueue \<or> i \<in> frames_at f Held \<or> i \<in> frames_at f HandedOver"
    by (metis frame_place.exhaust)
  then show ?thesis by (auto simp: spec_owned_def)
qed

lemma one_place: "spec_ok (fbm_abs f) \<Longrightarrow> i \<in> frames_at f p \<Longrightarrow> i \<in> frames_at f q \<Longrightarrow> p = q"
  by (cases p; cases q) (auto simp: spec_ok_def)

text \<open>When every frame has a place, the counters account for all of them.\<close>

lemma fbm_counters_total:
  assumes "fbm_rel f (fbm_abs f)" "spec_owned (fbm_abs f) = {..<length (fbm_pFrames f)}"
  shows "fbm_nEmptyBufferNum f + fbm_nValidPictureNum f + fbm_nReleaseBufferNum f +
      fbm_nDecoderHoldingNum f + fbm_nRenderHoldingNum f + int (card (frames_at f HandedOver)) =
    fbm_nMaxFrameNum f + int (card (frames_shared f))"
proof -
  let ?s = "fbm_abs f"
  let ?E = "set (fs_empty ?s)" and ?V = "set (fs_valid ?s)" and ?R = "set (fs_release ?s)"
    and ?D = "fs_dec ?s" and ?N = "fs_ren ?s" and ?F = "fs_forbid ?s"
  have ok: "spec_ok ?s" using assms(1) by (simp add: fbm_rel_def)
  have fin: "finite ?D" "finite ?N" "finite ?F"
    using assms(1) finite_subset [of _ "{..<length (fbm_pFrames f)}"]
    by (auto simp: fbm_rel_def fbm_flags_def)
  have "?E \<inter> (?V \<union> ?R \<union> ?F \<union> (?D \<union> ?N)) = {}" "?R \<inter> (?V \<union> ?F \<union> (?D \<union> ?N)) = {}"
    "?F \<inter> (?V \<union> (?D \<union> ?N)) = {}" "?V \<inter> ?N = {}"
    using ok by (auto simp: spec_ok_def)
  then have "card (?E \<union> (?R \<union> (?F \<union> (?D \<union> (?N \<union> ?V))))) =
      card ?E + (card ?R + (card ?F + card (?D \<union> (?N \<union> ?V))))" "card (?N \<union> ?V) = card ?N + card ?V"
    using fin by (subst card_Un_disjoint; auto)+
  moreover have "card ?D + card (?N \<union> ?V) = card (?D \<union> (?N \<union> ?V)) + card (?D \<inter> (?N \<union> ?V))"
    using fin by (intro card_Un_Int) auto
  moreover have "?E \<union> (?R \<union> (?F \<union> (?D \<union> (?N \<union> ?V)))) = {..<length (fbm_pFrames f)}"
    using assms(2) by (auto simp: spec_owned_def)
  moreover have "distinct (fs_empty ?s)" "distinct (fs_valid ?s)" "distinct (fs_release ?s)"
    using ok by (auto simp: spec_ok_def)
  ultimately show ?thesis
    using assms(1) by (simp add: fbm_rel_def fbm_counts_def distinct_card frames_shared_def)
qed

section \<open>The count of waiting pictures\<close>

text \<open>\<open>FbmFlush\<close> takes the pictures out of the queue and lowers \<open>nValidPictureNum\<close>, but not
  \<open>nWaitForDispNum\<close>, which the other operations keep in step with it.\<close>

lemma fbm_enq_empty_wait: "fbm_enq_empty i f = Ok f' \<Longrightarrow> fbm_nWaitForDispNum f' = fbm_nWaitForDispNum f"
  by (auto simp: fbm_enq_empty_def split: prod.splits)

lemma fbm_flush_loop_wait:
  "fbm_flush_loop f = Some f' \<Longrightarrow> fbm_nWaitForDispNum f' = fbm_nWaitForDispNum f"
proof (induction rule: fbm_flush_loop.raw_induct [rotated 1, consumes 1, case_names loop])
  case (loop flush f f')
  then show ?case
    by (auto simp: Let_def fbm_enq_empty_wait split: exec.splits option.splits if_splits)
qed

lemma fbm_flush_wait_count_stale:
  assumes "fbm_inv f" "fs_valid (fbm_abs f) \<noteq> []"
  shows "\<exists>f'. fbm_flush_loop f = Some f' \<and> fbm_nValidPictureNum f' = 0 \<and>
    fbm_nWaitForDispNum f' = fbm_nWaitForDispNum f \<and> 0 < fbm_nWaitForDispNum f'"
proof -
  have r: "fbm_rel f (fbm_abs f)" using assms(1) by (simp add: fbm_inv_def)
  obtain f' where f': "fbm_flush_loop f = Some f'" "fbm_rel f' (spec_flush (fbm_abs f))"
    using fbm_flush_loop_refines [OF r] by blast
  have "0 < int (length (fs_valid (fbm_abs f)))" using assms(2) by simp
  also have "\<dots> \<le> fbm_nWaitForDispNum f" using r by (simp add: fbm_rel_def fbm_counts_def)
  finally have "0 < fbm_nWaitForDispNum f" .
  moreover have "fbm_nValidPictureNum f' = 0"
    using f'(2) by (simp add: fbm_rel_def fbm_counts_def spec_flush_def)
  ultimately show ?thesis using f'(1) fbm_flush_loop_wait [OF f'(1)] by simp
qed

section \<open>Display order\<close>

text \<open>Showing a decoded frame and taking it for display, in the contract of the queues between
  the stages.\<close>

definition fbm_show :: "nat \<Rightarrow> Fbm \<Rightarrow> Fbm option" where
  "fbm_show i f =
     (case node_get f i of
        Ok n \<Rightarrow> if bUsedByDecoder n \<and> \<not> bUsedByRender n \<and> \<not> bInValidPictureQueue n \<and> \<not> bAlreadyDisplayed n
                then (case fbm_share_node i f of Ok f' \<Rightarrow> Some f' | _ \<Rightarrow> None) else None
      | _ \<Rightarrow> None)"

definition fbm_display_next :: "Fbm \<Rightarrow> (nat \<times> Fbm) option" where
  "fbm_display_next f = (case fbm_take_valid f of
       Ok (Some i, f') \<Rightarrow> Some (i, f') | _ \<Rightarrow> None)"

definition fbm_waiting :: "Fbm \<Rightarrow> nat list" where
  "fbm_waiting f = fs_valid (fbm_abs f)"

lemma fbm_show_law:
  assumes "fbm_inv f" "fbm_show i f = Some f'"
  shows "fbm_inv f' \<and> fbm_waiting f' = fbm_waiting f @ [i]"
proof -
  have r: "fbm_rel f (fbm_abs f)" using assms(1) by (simp add: fbm_inv_def)
  have i: "i < length (fbm_pFrames f)"
    using assms(2) by (auto simp: fbm_show_def node_get_def split: if_splits)
  note n = fbm_rel_node [OF r i]
  have g: "i \<in> fs_dec (fbm_abs f)" "i \<notin> fs_ren (fbm_abs f)" "i \<notin> set (fs_valid (fbm_abs f))"
    "i \<notin> fs_shown (fbm_abs f)"
    using assms(2) n i by (auto simp: fbm_show_def node_get_def split: if_splits)
  obtain f2 where "fbm_share_node i f = Ok f2" "fbm_rel f2 (spec_share_buffer i (fbm_abs f))"
    using fbm_share_node_refines [OF r i g(2)] by blast
  then show ?thesis
    using assms(2) g n i fbm_rel_abs
    by (auto simp: fbm_show_def node_get_def fbm_inv_def fbm_waiting_def spec_share_buffer_def)
qed

lemma fbm_display_next_law:
  assumes "fbm_inv f"
  shows "fbm_waiting f = [] \<Longrightarrow> fbm_display_next f = None"
    "fbm_waiting f = i # is \<Longrightarrow>
      \<exists>f'. fbm_display_next f = Some (i, f') \<and> fbm_inv f' \<and> fbm_waiting f' = is"
proof -
  obtain f' where t: "fbm_take_valid f = Ok (fst (spec_request_picture (fbm_abs f)), f')"
    "fbm_rel f' (snd (spec_request_picture (fbm_abs f)))"
    using fbm_take_valid_refines assms by (auto simp: fbm_inv_def)
  show "fbm_display_next f = None" if "fbm_waiting f = []"
    using t that by (simp add: fbm_display_next_def spec_request_picture_def fbm_waiting_def)
  show "\<exists>f'. fbm_display_next f = Some (i, f') \<and> fbm_inv f' \<and> fbm_waiting f' = is"
    if "fbm_waiting f = i # is"
    using t that fbm_rel_abs [OF t(2)]
    by (auto simp: fbm_display_next_def spec_request_picture_def fbm_waiting_def fbm_inv_def)
qed

interpretation fbmq: frame_fifo fbm_inv fbm_waiting "\<lambda>i. True" "\<lambda>i. i" fbm_show fbm_display_next
  by unfold_locales (use fbm_show_law fbm_display_next_law in auto)

section \<open>Properties\<close>

text \<open>Two frames in the empty queue of the first manager, for concrete instances.\<close>

definition node_example :: "nat \<Rightarrow> nat option \<Rightarrow> FrameNode" where
  "node_example i n = \<lparr>bUsedByDecoder = False, bUsedByRender = False, bInValidPictureQueue = False,
     bAlreadyDisplayed = False, bNeedRelease = False, vpicture = vp_zero\<lparr>vp_nID := int i\<rparr>, pNext = n\<rparr>"

definition fbm_example :: Fbm where
  "fbm_example = \<lparr>fbm_nMaxFrameNum = 2, fbm_nEmptyBufferNum = 2, fbm_nValidPictureNum = 0,
     fbm_nReleaseBufferNum = 0, fbm_pEmptyBufferQueue = Some 0, fbm_pValidPictureQueue = None,
     fbm_pReleaseBufferQueue = None, fbm_bThumbnailMode = 0,
     fbm_pFrames = [node_example 0 (Some 1), node_example 1 None], fbm_bUseGpuBuf = 0,
     fbm_nAlignValue = 16, fbm_pFbmInfo = True, fbm_nDecoderHoldingNum = 0,
     fbm_nRenderHoldingNum = 0, fbm_nWaitForDispNum = 0, fbm_memops = 1\<rparr>"

definition info_example :: "Fbm option \<Rightarrow> Fbm option \<Rightarrow> int \<Rightarrow> FbmWorld" where
  "info_example f g two = \<lparr>vfi_nValidBufNum = 0, vfi_pFbmFirst = f, vfi_pFbmSecond = g,
     vfi_pFbmBufInfo = \<lparr>fbi_nBufNum = 0, fbi_nBufWidth = 0, fbi_nBufHeight = 0,
       fbi_ePixelFormat = 0, fbi_nAlignValue = 0, fbi_bProgressiveFlag = 0,
       fbi_bIsSoftDecoderFlag = 0\<rparr>,
     vfi_bIs3DStream = two, vfi_bTwoStreamShareOneFbm = two, vfi_pMajorDispFrame = None,
     vfi_pMajorDecoderFrame = None, vfi_nMinorYBufOffset = 0, vfi_nMinorCBufOffset = 0,
     vfi_bIsFrameCtsTestFlag = 0, vfi_nExtraFbmBufferNum = 0, vfi_nDecoderNeededMiniFbmNum = 0,
     vfi_nDecoderNeededMiniFbmNumSD = 0, others = []\<rparr>"

definition spec_example :: FrameSpec where
  "spec_example = \<lparr>fs_empty = [0, 1], fs_valid = [], fs_release = [], fs_dec = {}, fs_ren = {},
     fs_shown = {}, fs_forbid = {}\<rparr>"

lemma node_example_simps [simp]:
  "\<not> bUsedByDecoder (node_example i n)" "\<not> bUsedByRender (node_example i n)"
  "\<not> bInValidPictureQueue (node_example i n)" "\<not> bAlreadyDisplayed (node_example i n)"
  "\<not> bNeedRelease (node_example i n)" "vp_nID (vpicture (node_example i n)) = int i"
  "pNext (node_example i n) = n"
  by (simp_all add: node_example_def)

lemma info_example_simps [simp]:
  "fbm_sel h (info_example f g two) = (case h of FbmFirst \<Rightarrow> f | FbmSecond \<Rightarrow> g)"
  "vfi_pMajorDispFrame (info_example f g two) = None"
  "vfi_pMajorDecoderFrame (info_example f g two) = None"
  "vfi_bTwoStreamShareOneFbm (info_example f g two) = two"
  "others (info_example f g two) = []"
  by (cases h; simp add: info_example_def fbm_sel_def)+

lemma fbm_example_rel: "fbm_rel fbm_example spec_example"
proof -
  have "fbm_chains fbm_example spec_example"
    by (simp add: fbm_chains_def fbm_example_def spec_example_def node_next_def)
  moreover have "fbm_flags fbm_example spec_example"
    by (simp add: fbm_flags_def fbm_example_def spec_example_def All_less_Suc)
  moreover have "fbm_counts fbm_example spec_example" "spec_ok spec_example"
    by (simp_all add: fbm_counts_def spec_ok_def fbm_example_def spec_example_def)
  ultimately show ?thesis by (simp add: fbm_rel_def)
qed

lemma fbm_example_abs: "fbm_inv fbm_example" "fbm_abs fbm_example = spec_example"
  using fbm_example_rel fbm_rel_iff by auto

lemma fbm_example_fields:
  "fbm_pFbmInfo fbm_example" "length (fbm_pFrames fbm_example) = 2"
  by (simp_all add: fbm_example_def)

lemma world_example_inv: "world_inv (info_example (Some fbm_example) None 0)"
  by (simp add: world_inv_iff fbm_example_abs fbm_example_fields split: fbm_handle.splits)



text \<open>C5: The calls implement the abstract manager: with one stream per manager, every call through
  a handle with a picture of that manager changes the frames' owners and the order of the queues
  exactly as the specification \<open>spec_call\<close> says, whatever branch the code takes.\<close>

theorem fbm_calls_refine_spec:
  assumes "world_inv w" "vfi_bTwoStreamShareOneFbm w \<noteq> 1" "fbm_sel h w = Some f"
    "call_on h c" "fbm_call_ok c w"
  shows "\<exists>w' f'. fbm_do c w = Ok w' \<and> fbm_sel h w' = Some f' \<and> fbm_inv f' \<and>
    fbm_abs f' = spec_call c (fbm_abs f)"
proof -
  obtain w' where "fbm_do c w = Ok w'" "call_result h w f (spec_call c (fbm_abs f)) w'"
    using fbm_do_refines [OF assms] by blast
  then show ?thesis using fbm_rel_iff by (auto simp: call_result_def split: option.splits)
qed

theorem fbm_calls_refine_spec_witness:
  "\<exists>w' f'. fbm_do (CallRequestBuffer FbmFirst) (info_example (Some fbm_example) None 0) = Ok w' \<and>
     fbm_sel FbmFirst w' = Some f' \<and> fbm_inv f' \<and>
     fbm_abs f' = spec_example\<lparr>fs_empty := [1], fs_dec := {0}\<rparr>"
  using fbm_calls_refine_spec [OF world_example_inv, of FbmFirst fbm_example "CallRequestBuffer FbmFirst"]
  by (simp add: fbm_example_abs spec_example_def spec_request_buffer_def)


text \<open>A run: a frame is requested, shown while the decoder keeps it, requested for display.\<close>

definition run_example :: "fbm_call list \<Rightarrow> FbmWorld exec" where
  "run_example cs = fold (\<lambda>c m. ebind m (\<lambda>w. if fbm_call_ok c w \<and> call_on FbmFirst c then fbm_do c w else Abort)) cs
     (Ok (info_example (Some fbm_example) None 0))"

lemma run_example_steps:
  "run_example cs = Ok w \<Longrightarrow> (own_step FbmFirst)\<^sup>*\<^sup>* (info_example (Some fbm_example) None 0) w"
proof (induction cs arbitrary: w rule: rev_induct)
  case (snoc c cs)
  then obtain v where "run_example cs = Ok v" "fbm_call_ok c v" "call_on FbmFirst c" "fbm_do c v = Ok w"
    by (auto simp: run_example_def split: if_splits)
  then show ?case using snoc.IH own_step.own by (meson rtranclp.rtrancl_into_rtrancl)
qed (simp add: run_example_def)


text \<open>Pictures are displayed in the order the decoder showed them: over any interleaving of
  \<open>FbmShareBuffer\<close> on frames the decoder holds and \<open>FbmRequestPicture\<close>, the frames waiting
  before followed by those shown are the frames displayed followed by those still waiting.\<close>

theorem fbm_display_order:
  assumes "fbm_inv f" "fifo_run fbm_show fbm_display_next es f = (shown, displayed, f')"
  shows "fbm_waiting f @ shown = displayed @ fbm_waiting f' \<and> fbm_inv f'"
  using fbmq.run_fifo [OF assms(1) _ assms(2)] by simp

theorem fbm_display_order_witness:
  "\<exists>shown displayed f'. fifo_run fbm_show fbm_display_next [Put 0, Get, Put 1] fbm_example =
       (shown, displayed, f') \<and> fbm_waiting fbm_example @ shown = displayed @ fbm_waiting f'"
  using fbm_display_order [OF fbm_example_abs(1)] by (metis prod_cases3)

text \<open>C32: \<open>FbmShareBuffer\<close> does not look at the renderer's flag. When the decoder shares a frame
  again while the renderer holds it and no other picture waits, the frame is queued; the next
  \<open>FbmRequestPicture\<close> takes it out, rejects it and returns no picture, and the count of valid
  pictures stays at 1 with an empty queue.\<close>

theorem fbm_share_rendered_frame_lost:
  assumes "fbm_inv f" "i \<in> fs_dec (fbm_abs f)" "i \<in> fs_ren (fbm_abs f)" "fbm_waiting f = []"
  shows "\<exists>f1 f2. fbm_share_node i f = Ok f1 \<and> fbm_take_valid f1 = Ok (None, f2) \<and>
    fbm_pValidPictureQueue f2 = None \<and> fbm_nValidPictureNum f2 = 1 \<and>
    bInValidPictureQueue (fbm_pFrames f2 ! i)"
proof -
  have r: "fbm_rel f (fbm_abs f)" using assms(1) by (simp add: fbm_inv_def)
  have i: "i < length (fbm_pFrames f)"
    using r assms(2) by (auto simp: fbm_rel_def fbm_flags_def)
  have ok: "spec_ok (fbm_abs f)" using r by (simp add: fbm_rel_def)
  note n = fbm_rel_node [OF r i]
  have g: "i \<notin> fs_shown (fbm_abs f)" using ok assms(3) by (auto simp: spec_ok_def)
  have h: "fbm_pValidPictureQueue f = None" "fbm_nValidPictureNum f = 0"
    using r assms(4) by (auto simp: fbm_rel_def fbm_chains_def fbm_counts_def fbm_waiting_def)
  show ?thesis
    using i n g h assms(2,3,4)
    by (auto simp: fbm_share_node_def node_get_def fbm_enq_valid_def FbmEnqueue_def node_upd_def
        fbm_take_valid_def FbmDequeue_def Let_def fbm_waiting_def)
qed

text \<open>Frame 0 with the decoder and the renderer.\<close>

definition fbm_example_held :: Fbm where
  "fbm_example_held = fbm_example\<lparr>fbm_pFrames :=
       [(node_example 0 None)\<lparr>bUsedByDecoder := True, bUsedByRender := True\<rparr>, node_example 1 None],
     fbm_pEmptyBufferQueue := Some 1, fbm_nEmptyBufferNum := 1, fbm_nDecoderHoldingNum := 1,
     fbm_nRenderHoldingNum := 1\<rparr>"

lemma fbm_example_held_rel:
  "fbm_rel fbm_example_held (spec_example\<lparr>fs_empty := [1], fs_dec := {0}, fs_ren := {0}\<rparr>)"
proof -
  let ?s = "spec_example\<lparr>fs_empty := [1], fs_dec := {0}, fs_ren := {0}\<rparr>"
  have "fbm_chains fbm_example_held ?s"
    by (simp add: fbm_chains_def fbm_example_held_def fbm_example_def spec_example_def node_next_def)
  moreover have "fbm_flags fbm_example_held ?s"
    by (simp add: fbm_flags_def fbm_example_held_def spec_example_def All_less_Suc)
  moreover have "fbm_counts fbm_example_held ?s" "spec_ok ?s"
    by (simp_all add: fbm_counts_def spec_ok_def fbm_example_held_def fbm_example_def spec_example_def)
  ultimately show ?thesis by (simp add: fbm_rel_def)
qed

theorem fbm_share_rendered_frame_lost_witness:
  "\<exists>f1 f2. fbm_share_node 0 fbm_example_held = Ok f1 \<and> fbm_take_valid f1 = Ok (None, f2) \<and>
    fbm_pValidPictureQueue f2 = None \<and> fbm_nValidPictureNum f2 = 1"
proof -
  have "fbm_inv fbm_example_held" "fbm_abs fbm_example_held =
      spec_example\<lparr>fs_empty := [1], fs_dec := {0}, fs_ren := {0}\<rparr>"
    using fbm_example_held_rel fbm_rel_iff by auto
  then show ?thesis
    using fbm_share_rendered_frame_lost [of fbm_example_held 0]
    by (auto simp: fbm_waiting_def spec_example_def)
qed

lemma pic_status_at:
  assumes "fbm_sel h w = Some f" "i < length (fbm_pFrames f)"
  defines "v \<equiv> vpicture (fbm_pFrames f ! i)"
  shows "pic_status (PicAt h i) g w =
    Ok (fbm_put h (node_upd i (\<lambda>n. n\<lparr>vpicture := v\<lparr>vp_nBufStatus := g (vp_nBufStatus v)\<rparr>\<rparr>) f) w)"
  using assms by (simp add: pic_status_def pic_get_at pic_set_def node_get_def)

text \<open>The renderer's frames do not change with a status word.\<close>

lemma fs_ren_status:
  assumes "fbm_rel f s" "i < length (fbm_pFrames f)"
  shows "fbm_abs (node_upd i (\<lambda>n. n\<lparr>vpicture := (vpicture (fbm_pFrames f ! i))\<lparr>vp_nBufStatus := k\<rparr>\<rparr>) f) = s"
  using fbm_rel_picture [OF assms, of "(vpicture (fbm_pFrames f ! i))\<lparr>vp_nBufStatus := k\<rparr>"] fbm_rel_abs
  by simp

text \<open>C33: For a 3D stream both renderers show a frame of the first manager. When the first one
  returns the picture while the second still uses it, the frame is kept; the second one's return
  is then refused with -1 because it is checked against the second manager's table, and the
  frame stays with the renderer for good.\<close>

theorem fbm_3d_second_return_leaks:
  assumes "world_inv w" "vfi_bTwoStreamShareOneFbm w = 1" "fbm_sel FbmFirst w = Some f"
    "fbm_sel FbmSecond w = Some g" "i \<in> fs_ren (fbm_abs f)"
    "vp_nBufStatus (vpicture (fbm_pFrames f ! i)) AND MINOR_DISP_USE_FLAG \<noteq> 0"
  shows "\<exists>w1 w2 f2. FbmReturnPicture (Some FbmFirst) (Some (PicAt FbmFirst i)) w = Ok (0, w1) \<and>
    FbmReturnPicture (Some FbmSecond) (Some (PicAt FbmFirst i)) w1 = Ok (-1, w2) \<and>
    fbm_sel FbmFirst w2 = Some f2 \<and> i \<in> fs_ren (fbm_abs f2)"
proof -
  note rf = world_inv_sel [OF assms(1,3)] and rg = world_inv_sel [OF assms(1,4)]
  have i: "i < length (fbm_pFrames f)" using rf assms(5) by (auto simp: fbm_rel_def fbm_flags_def)
  let ?v = "vpicture (fbm_pFrames f ! i)"
  let ?s1 = "vp_nBufStatus ?v AND NOT MAJOR_DISP_USE_FLAG"
  let ?f1 = "node_upd i (\<lambda>n. n\<lparr>vpicture := ?v\<lparr>vp_nBufStatus := ?s1\<rparr>\<rparr>) f"
  let ?w1 = "fbm_put FbmFirst ?f1 w"
  have f1: "fbm_sel FbmFirst ?w1 = Some ?f1" "i < length (fbm_pFrames ?f1)"
    "vpicture (fbm_pFrames ?f1 ! i) = ?v\<lparr>vp_nBufStatus := ?s1\<rparr>"
    "fbm_sel FbmSecond ?w1 = Some g" "fbm_rel ?f1 (fbm_abs f)"
    using i assms(4) rf fbm_rel_picture [of f "fbm_abs f" i] by (simp_all add: node_upd_nth)
  have "?s1 AND MINOR_DISP_USE_FLAG = vp_nBufStatus ?v AND MINOR_DISP_USE_FLAG"
    by (simp add: and.assoc)
  then have "fbm_shown_route FbmFirst (PicAt FbmFirst i) w = Ok (False, ?w1)"
    using assms(2,6) pic_status_at [OF assms(3) i] pic_get_at [OF f1(1,2)] f1(3)
    by (simp add: fbm_shown_route_def)
  then have first: "FbmReturnPicture (Some FbmFirst) (Some (PicAt FbmFirst i)) w = Ok (0, ?w1)"
    using rf assms(3) by (simp add: FbmReturnPicture_def)
  let ?s2 = "?s1 AND NOT MINOR_DISP_USE_FLAG"
  let ?f2 = "node_upd i (\<lambda>n. n\<lparr>vpicture := ?v\<lparr>vp_nBufStatus := ?s2\<rparr>\<rparr>) ?f1"
  let ?w2 = "fbm_put FbmFirst ?f2 ?w1"
  have f2: "fbm_sel FbmFirst ?w2 = Some ?f2" "i < length (fbm_pFrames ?f2)"
    "vpicture (fbm_pFrames ?f2 ! i) = ?v\<lparr>vp_nBufStatus := ?s2\<rparr>" "fbm_sel FbmSecond ?w2 = Some g"
    "fbm_abs ?f2 = fbm_abs f"
    using f1 fs_ren_status [OF f1(5), of i ?s2] by (simp_all add: node_upd_nth)
  have "?s2 AND MAJOR_DISP_USE_FLAG = 0" by (simp add: and.assoc)
  then have "fbm_shown_route FbmSecond (PicAt FbmFirst i) ?w1 = Ok (True, ?w2)"
    using assms(2) pic_status_at [OF f1(1,2)] pic_get_at [OF f2(1,2)] f1(3) f2(3)
    by (simp add: fbm_shown_route_def)
  moreover have "vp_nID ?v = int i" "int i < FRM_FORBID_USE_TAG"
    using fbm_rel_node(6) [of f "fbm_abs f" i] rf i assms(5)
    by (auto simp: fbm_rel_def spec_ok_def fbm_counts_def)
  ultimately have "FbmReturnPicture (Some FbmSecond) (Some (PicAt FbmFirst i)) ?w1 = Ok (-1, ?w2)"
    using rg f1(4) f2(3,4) pic_get_at [OF f2(1,2)]
    by (simp add: FbmReturnPicture_def Let_def)
  then show ?thesis using first f2(1,5) assms(5) by fastforce
qed

definition fbm_example_3d :: Fbm where
  "fbm_example_3d = node_upd 0 (\<lambda>n. n\<lparr>vpicture := (vpicture (fbm_pFrames fbm_example_held ! 0))
     \<lparr>vp_nBufStatus := 12\<rparr>\<rparr>) fbm_example_held"

theorem fbm_3d_second_return_leaks_witness:
  "\<exists>w1 w2 f2. FbmReturnPicture (Some FbmFirst) (Some (PicAt FbmFirst 0))
       (info_example (Some fbm_example_3d) (Some fbm_example) 1) = Ok (0, w1) \<and>
    FbmReturnPicture (Some FbmSecond) (Some (PicAt FbmFirst 0)) w1 = Ok (-1, w2) \<and>
    fbm_sel FbmFirst w2 = Some f2 \<and> 0 \<in> fs_ren (fbm_abs f2)"
proof (rule fbm_3d_second_return_leaks)
  let ?s = "spec_example\<lparr>fs_empty := [1], fs_dec := {0}, fs_ren := {0}\<rparr>"
  have r: "fbm_rel fbm_example_3d ?s" "fbm_pFbmInfo fbm_example_3d"
    using fbm_rel_picture [OF fbm_example_held_rel, of 0 "(vpicture (fbm_pFrames fbm_example_held ! 0))
        \<lparr>vp_nBufStatus := 12\<rparr>"]
    by (simp_all add: fbm_example_3d_def fbm_example_held_def fbm_example_fields)
  then show "world_inv (info_example (Some fbm_example_3d) (Some fbm_example) 1)"
    using fbm_rel_iff
    by (auto simp: world_inv_iff fbm_example_abs fbm_example_fields split: fbm_handle.splits)
  show "0 \<in> fs_ren (fbm_abs fbm_example_3d)" using fbm_rel_abs [OF r(1)] by simp
  show "vp_nBufStatus (vpicture (fbm_pFrames fbm_example_3d ! 0)) AND MINOR_DISP_USE_FLAG \<noteq> 0"
    by (simp add: fbm_example_3d_def node_upd_def fbm_example_held_def)
qed simp_all

end
