(* ===== verification/Mem_Trace.thy ===== *)
theory Mem_Trace
  imports Cedar_Prelude "HOL-Library.Multiset"
begin

text \<open>Traces of allocations and releases, shared by the components that own heap blocks: how
  traces compose, and when a trace frees only live blocks and leaves exactly a given collection
  of blocks behind.\<close>

lemma live_blocks_append: "live_blocks L (xs @ ys) = live_blocks (live_blocks L xs) ys"
  by (induction L xs rule: live_blocks.induct) auto

lemma frees_ok_append: "frees_ok L (xs @ ys) \<longleftrightarrow> frees_ok L xs \<and> frees_ok (live_blocks L xs) ys"
  by (induction L xs rule: frees_ok.induct) auto

lemma allocs_trace:
  "frees_ok L (map Alloc bs)" "mset (live_blocks L (map Alloc bs)) = mset L + mset bs"
  by (induction bs arbitrary: L) auto

lemma frees_trace:
  assumes "mset bs \<subseteq># mset L"
  shows "frees_ok L (map Free bs)" "mset (live_blocks L (map Free bs)) = mset L - mset bs"
  using assms
proof (induction bs arbitrary: L)
  case (Cons b bs)
  {
    case 1
    then show ?case using Cons.IH(1) [of "remove1 b L"]
      by (auto simp: insert_subset_eq_iff)
  next
    case 2
    then show ?case using Cons.IH(2) [of "remove1 b L"]
      by (auto simp: insert_subset_eq_iff)
  }
qed auto

text \<open>A trace that gives back everything it takes, and one that leaves \<open>bs\<close> behind.\<close>

definition balanced :: "'b mem_event list \<Rightarrow> bool" where
  "balanced es \<longleftrightarrow> (\<forall>L. frees_ok L es \<and> live_blocks L es = L)"

lemma balanced_simps [simp]: "balanced []" "balanced [Alloc p, Free p]"
  by (simp_all add: balanced_def)

definition adds_blocks :: "'b mem_event list \<Rightarrow> 'b list \<Rightarrow> bool" where
  "adds_blocks es bs \<longleftrightarrow> (\<forall>L. frees_ok L es \<and> mset (live_blocks L es) = mset L + mset bs)"

lemma adds_blocks_intros:
  "balanced es \<Longrightarrow> adds_blocks es []" "adds_blocks (map Alloc bs) bs" "adds_blocks [] []"
  by (auto simp: adds_blocks_def balanced_def allocs_trace)

lemma adds_blocks_append:
  "adds_blocks es bs \<Longrightarrow> adds_blocks fs cs \<Longrightarrow> adds_blocks (es @ fs) (bs @ cs)"
  by (auto simp: adds_blocks_def frees_ok_append live_blocks_append)

lemma adds_then_frees:
  assumes "adds_blocks es bs" "mset cs = mset bs"
  shows "adds_blocks (es @ map Free cs) []"
proof -
  have "frees_ok (live_blocks L es) (map Free cs) \<and>
      mset (live_blocks (live_blocks L es) (map Free cs)) = mset L" for L
    using frees_trace [of cs "live_blocks L es"] assms by (simp add: adds_blocks_def)
  then show ?thesis using assms(1) by (auto simp: adds_blocks_def frees_ok_append live_blocks_append)
qed

text \<open>\<open>free\<close> of a pointer that may be \<open>NULL\<close>.\<close>

definition c_free :: "addr \<Rightarrow> addr mem_event list" where
  "c_free p = (if p = 0 then [] else [Free p])"

lemma c_free_all: "concat (map c_free ps) = map Free (filter (\<lambda>p. p \<noteq> 0) ps)"
  by (induction ps) (auto simp: c_free_def)

end
