(* ===== verification/Fbm_Alloc.thy ===== *)
theory Fbm_Alloc
  imports Fbm_Protocol Mem_Trace
begin

text \<open>Creation and destruction of frame buffer managers (\<open>FbmCreateBuffer\<close>, \<open>FbmCreate\<close>,
  \<open>FbmDestroy\<close>, \<open>FbmAllocatePictureBuffer\<close>, \<open>FbmFreePictureBuffer\<close> of \<open>vdecoder/fbm.c\<close>).

  The memory operations are a table of functions the caller passes in. \<open>palloc\<close> gives the
  address of a block for the blocks taken and freed so far and the requested size, 0 when it
  fails; \<open>phys\<close> the physical address. \<open>GetBufferSize\<close> belongs to the closed decoder library and
  is a parameter. Arithmetic on \<open>int\<close> wraps at 32 bits.\<close>

record ScMemOps =
  mo_palloc :: "addr mem_event list \<Rightarrow> int \<Rightarrow> addr"
  mo_phys :: "addr \<Rightarrow> addr"

abbreviation (input) PIXEL_FORMAT_YUV_PLANER_420 :: int where "PIXEL_FORMAT_YUV_PLANER_420 \<equiv> 1"
abbreviation (input) PIXEL_FORMAT_YUV_PLANER_422 :: int where "PIXEL_FORMAT_YUV_PLANER_422 \<equiv> 2"
abbreviation (input) PIXEL_FORMAT_YUV_PLANER_444 :: int where "PIXEL_FORMAT_YUV_PLANER_444 \<equiv> 3"
abbreviation (input) PIXEL_FORMAT_YV12 :: int where "PIXEL_FORMAT_YV12 \<equiv> 4"
abbreviation (input) PIXEL_FORMAT_NV21 :: int where "PIXEL_FORMAT_NV21 \<equiv> 5"
abbreviation (input) PIXEL_FORMAT_YUV_MB32_420 :: int where "PIXEL_FORMAT_YUV_MB32_420 \<equiv> 7"
abbreviation (input) PIXEL_FORMAT_YUV_MB32_422 :: int where "PIXEL_FORMAT_YUV_MB32_422 \<equiv> 8"
abbreviation (input) PIXEL_FORMAT_YUV_MB32_444 :: int where "PIXEL_FORMAT_YUV_MB32_444 \<equiv> 9"
abbreviation (input) PIXEL_FORMAT_RGBA :: int where "PIXEL_FORMAT_RGBA \<equiv> 10"
abbreviation (input) PIXEL_FORMAT_ARGB :: int where "PIXEL_FORMAT_ARGB \<equiv> 11"
abbreviation (input) PIXEL_FORMAT_ABGR :: int where "PIXEL_FORMAT_ABGR \<equiv> 12"
abbreviation (input) PIXEL_FORMAT_BGRA :: int where "PIXEL_FORMAT_BGRA \<equiv> 13"
abbreviation (input) BUF_TYPE_ONLY_REFERENCE :: int where "BUF_TYPE_ONLY_REFERENCE \<equiv> 1"

text \<open>\<open>(n + a - 1) &~ (a - 1)\<close>\<close>

definition align_up :: "int \<Rightarrow> int \<Rightarrow> int" where
  "align_up n a = (i32 (n + a - 1)) AND NOT (a - 1)"

section \<open>Picture buffers\<close>

definition is_planar :: "int \<Rightarrow> bool" where
  "is_planar fmt \<longleftrightarrow> fmt \<in> {PIXEL_FORMAT_YUV_PLANER_420, PIXEL_FORMAT_YUV_PLANER_422,
     PIXEL_FORMAT_YUV_PLANER_444, PIXEL_FORMAT_YV12, PIXEL_FORMAT_NV21}"

definition is_mb32 :: "int \<Rightarrow> bool" where
  "is_mb32 fmt \<longleftrightarrow> fmt \<in> {PIXEL_FORMAT_YUV_MB32_420, PIXEL_FORMAT_YUV_MB32_422,
     PIXEL_FORMAT_YUV_MB32_444}"

definition is_rgb :: "int \<Rightarrow> bool" where
  "is_rgb fmt \<longleftrightarrow> fmt \<in> {PIXEL_FORMAT_RGBA, PIXEL_FORMAT_ARGB, PIXEL_FORMAT_ABGR, PIXEL_FORMAT_BGRA}"

text \<open>The planar case of the switch: line stride, width and height are aligned to \<open>nAlignValue\<close>
  (16 when it is 0) and the three planes share one block.\<close>

definition alloc_planar ::
  "ScMemOps \<Rightarrow> VideoPicture \<Rightarrow> int \<Rightarrow> int \<Rightarrow> int \<Rightarrow> addr mem_event list
     \<Rightarrow> bool \<times> VideoPicture \<times> int \<times> addr mem_event list" where
  "alloc_planar memops pic nAlignValue nWidth nHeight tr =
     (let fmt = vp_ePixelFormat pic;
          al = (if nAlignValue = 0 then 16 else nAlignValue);
          stride = align_up nWidth al;
          height = align_up nHeight al;
          pic1 = pic\<lparr>vp_nLineStride := stride, vp_nWidth := stride, vp_nHeight := height\<rparr>;
          nMemSizeY = i32 (stride * height);
          nMemSizeC =
            (if fmt = PIXEL_FORMAT_YUV_PLANER_420 \<or> fmt = PIXEL_FORMAT_YV12 \<or> fmt = PIXEL_FORMAT_NV21
             then drop_bit 2 nMemSizeY
             else if fmt = PIXEL_FORMAT_YUV_PLANER_422 then drop_bit 1 nMemSizeY
             else nMemSizeY);
          pMem = mo_palloc memops tr (i32 (nMemSizeY + nMemSizeC * 2))
      in
      if pMem = 0 then (False, pic1, al, tr)
      else (True,
            pic1\<lparr>vp_pData0 := pMem, vp_pData1 := pMem + nMemSizeY,
                 vp_pData2 := (if fmt \<noteq> PIXEL_FORMAT_NV21 then pMem + nMemSizeY + nMemSizeC else 0),
                 vp_pData3 := 0\<rparr>,
            al, tr @ [Alloc pMem]))"

text \<open>The macro block case: luminance and chrominance have a block each.\<close>

definition alloc_mb32 ::
  "ScMemOps \<Rightarrow> VideoPicture \<Rightarrow> int \<Rightarrow> int \<Rightarrow> addr mem_event list
     \<Rightarrow> bool \<times> VideoPicture \<times> int \<times> addr mem_event list" where
  "alloc_mb32 memops pic nWidth nHeight tr =
     (let fmt = vp_ePixelFormat pic;
          w32 = align_up nWidth 32;
          pic1 = pic\<lparr>vp_nLineStride := w32, vp_nWidth := w32, vp_nHeight := align_up nHeight 32\<rparr>;
          nLineStride = align_up w32 64;
          nMemSizeY = i32 (nLineStride * align_up nHeight 64);
          nMemSizeC = (if fmt = PIXEL_FORMAT_YUV_MB32_420 then c_div nMemSizeY 4
                       else if fmt = PIXEL_FORMAT_YUV_MB32_422 then c_div nMemSizeY 2 else nMemSizeY);
          pY = mo_palloc memops tr nMemSizeY
      in
      if pY = 0 then (False, pic1, 32, tr)
      else
        (let tr1 = tr @ [Alloc pY]; pC = mo_palloc memops tr1 (i32 (nMemSizeC * 2)) in
         if pC = 0 then (False, pic1\<lparr>vp_pData0 := 0\<rparr>, 32, tr1 @ [Free pY])
         else (True, pic1\<lparr>vp_pData0 := pY, vp_pData1 := pC, vp_pData2 := 0, vp_pData3 := 0\<rparr>, 32,
               tr1 @ [Alloc pC])))"

definition alloc_rgb ::
  "ScMemOps \<Rightarrow> VideoPicture \<Rightarrow> int \<Rightarrow> int \<Rightarrow> addr mem_event list
     \<Rightarrow> bool \<times> VideoPicture \<times> int \<times> addr mem_event list" where
  "alloc_rgb memops pic nAlignValue nHeight tr =
     (let nLineStride = i32 (vp_nWidth pic * 4);
          pic1 = pic\<lparr>vp_nLineStride := nLineStride\<rparr>;
          pMem = mo_palloc memops tr (i32 (nLineStride * nHeight))
      in
      if pMem = 0 then (False, pic1, nAlignValue, tr)
      else (True, pic1\<lparr>vp_pData0 := pMem, vp_pData1 := 0, vp_pData2 := 0, vp_pData3 := 0\<rparr>,
            nAlignValue, tr @ [Alloc pMem]))"

text \<open>The switch over the pixel formats.\<close>

definition alloc_switch ::
  "ScMemOps \<Rightarrow> VideoPicture \<Rightarrow> int \<Rightarrow> int \<Rightarrow> int \<Rightarrow> addr mem_event list
     \<Rightarrow> bool \<times> VideoPicture \<times> int \<times> addr mem_event list" where
  "alloc_switch memops pic nAlignValue nWidth nHeight tr =
     (let fmt = vp_ePixelFormat pic in
      if is_planar fmt then alloc_planar memops pic nAlignValue nWidth nHeight tr
      else if is_mb32 fmt then alloc_mb32 memops pic nWidth nHeight tr
      else if is_rgb fmt then alloc_rgb memops pic nAlignValue nHeight tr
      else (False, pic, nAlignValue, tr))"

definition FbmAllocatePictureBuffer ::
  "ScMemOps \<Rightarrow> VideoPicture \<Rightarrow> int \<Rightarrow> int \<Rightarrow> int \<Rightarrow> addr mem_event list
     \<Rightarrow> int \<times> VideoPicture \<times> int \<times> addr mem_event list" where
  "FbmAllocatePictureBuffer memops pPicture nAlignValue nWidth nHeight tr =
     (let pic = pPicture\<lparr>vp_pData0 := 0, vp_pData1 := 0, vp_pData2 := 0, vp_pData3 := 0\<rparr>;
          (ok, pic1, al, tr1) = alloc_switch memops pic nAlignValue nWidth nHeight tr
      in
      if \<not> ok then (-1, pic1, al, tr1)
      else
        (let pic2 = (if vp_pData0 pic1 \<noteq> 0
                     then pic1\<lparr>vp_phyYBufAddr := mo_phys memops (vp_pData0 pic1)\<rparr> else pic1);
             pic3 = (if vp_pData1 pic2 \<noteq> 0
                     then pic2\<lparr>vp_phyCBufAddr := mo_phys memops (vp_pData1 pic2)\<rparr> else pic2)
         in (0, pic3, al, tr1)))"

definition free_plane :: "addr \<Rightarrow> addr mem_event list" where
  "free_plane p = (if p \<noteq> 0 then [Free p] else [])"

definition FbmFreePictureBuffer :: "VideoPicture \<Rightarrow> VideoPicture \<times> addr mem_event list" where
  "FbmFreePictureBuffer pPicture =
     (if vp_ePixelFormat pPicture < PIXEL_FORMAT_YUV_MB32_420
      then (pPicture\<lparr>vp_pData0 := 0\<rparr>, free_plane (vp_pData0 pPicture))
      else (pPicture\<lparr>vp_pData0 := 0, vp_pData1 := 0, vp_pData2 := 0, vp_pData3 := 0\<rparr>,
            free_plane (vp_pData0 pPicture) @ free_plane (vp_pData1 pPicture) @
            free_plane (vp_pData2 pPicture) @ free_plane (vp_pData3 pPicture)))"

section \<open>Creating a manager\<close>

text \<open>One turn of the loop of \<open>FbmCreateBuffer\<close>: frame \<open>i\<close>, after the frames \<open>ns\<close>. The local
  \<open>nAlignStride\<close> is passed by reference to the allocation, so it may change from turn to turn.\<close>

definition fbm_init_picture :: "FbmCreateInfo \<Rightarrow> nat \<Rightarrow> int \<Rightarrow> VideoPicture" where
  "fbm_init_picture ci i nAlignStride =
     (let w = (if nAlignStride \<noteq> 0 then align_up (fci_nWidth ci) nAlignStride else fci_nWidth ci);
          h = (if nAlignStride \<noteq> 0 then align_up (fci_nHeight ci) nAlignStride else fci_nHeight ci)
      in vp_zero\<lparr>vp_nBufId := FBM_NEW_DISP_INVALID_TAG, vp_nID := int i,
           vp_ePixelFormat := fci_ePixelFormat ci, vp_nWidth := w, vp_nHeight := h,
           vp_nLineStride := w, vp_bIsProgressive := fci_bProgressiveFlag ci,
           vp_nLeftOffset := 0, vp_nTopOffset := 0, vp_nRightOffset := fci_nWidth ci,
           vp_nBottomOffset := fci_nHeight ci\<rparr>)"

definition fbm_frame ::
  "ScMemOps \<Rightarrow> FbmCreateInfo \<Rightarrow> nat \<Rightarrow> int \<Rightarrow> FrameNode list \<Rightarrow> addr mem_event list
     \<Rightarrow> bool \<times> FrameNode \<times> int \<times> addr mem_event list" where
  "fbm_frame memops ci i nAlignStride ns tr =
     (let pic = fbm_init_picture ci i nAlignStride;
          node = (\<lambda>v. \<lparr>bUsedByDecoder = False, bUsedByRender = False, bInValidPictureQueue = False,
                       bAlreadyDisplayed = False, bNeedRelease = False, vpicture = v, pNext = None\<rparr>)
      in
      if fci_bGpuBufValid ci = 0 \<or> fci_nBufferType ci = BUF_TYPE_ONLY_REFERENCE then
        (if fci_bThumbnailMode ci = 0 \<or> i = 0 then
           (case FbmAllocatePictureBuffer memops pic nAlignStride (fci_nWidth ci) (fci_nHeight ci) tr of
              (r, v, al, tr1) \<Rightarrow>
                if r \<noteq> 0 then (False, node v, al, tr1)
                else (True, node (v\<lparr>vp_nColorPrimary := -1\<rparr>), al, tr1))
         else
           (let v0 = vpicture (ns ! 0) in
            (True, node (pic\<lparr>vp_pData0 := vp_pData0 v0, vp_pData1 := vp_pData1 v0,
                vp_pData2 := vp_pData2 v0, vp_pData3 := vp_pData3 v0,
                vp_phyYBufAddr := vp_phyYBufAddr v0, vp_phyCBufAddr := vp_phyCBufAddr v0,
                vp_nColorPrimary := -1\<rparr>), nAlignStride, tr)))
      else (True, node pic, nAlignStride, tr))"

fun fbm_frames ::
  "ScMemOps \<Rightarrow> FbmCreateInfo \<Rightarrow> nat \<Rightarrow> nat \<Rightarrow> int \<Rightarrow> FrameNode list \<Rightarrow> addr mem_event list
     \<Rightarrow> bool \<times> FrameNode list \<times> int \<times> addr mem_event list" where
  "fbm_frames memops ci 0 i al ns tr = (True, ns, al, tr)"
| "fbm_frames memops ci (Suc k) i al ns tr =
     (case fbm_frame memops ci i al ns tr of
        (ok, n, al1, tr1) \<Rightarrow>
          if ok then fbm_frames memops ci k (Suc i) al1 (ns @ [n]) tr1 else (False, ns, al1, tr1))"

text \<open>The frames are put into the empty queue in the order of the table.\<close>

fun fbm_fill :: "nat list \<Rightarrow> Fbm \<Rightarrow> Fbm exec" where
  "fbm_fill [] f = Ok f"
| "fbm_fill (i # is) f =
     ebind (FbmEnqueue (fbm_pEmptyBufferQueue f) i (fbm_pFrames f))
       (\<lambda>(h, ns). fbm_fill is (f\<lparr>fbm_pEmptyBufferQueue := h, fbm_pFrames := ns\<rparr>))"

definition fbm_blank :: "FbmCreateInfo \<Rightarrow> FrameNode list \<Rightarrow> int \<Rightarrow> Fbm" where
  "fbm_blank ci ns al = \<lparr>fbm_nMaxFrameNum = fci_nFrameNum ci, fbm_nEmptyBufferNum = 0,
     fbm_nValidPictureNum = 0, fbm_nReleaseBufferNum = 0, fbm_pEmptyBufferQueue = None,
     fbm_pValidPictureQueue = None, fbm_pReleaseBufferQueue = None,
     fbm_bThumbnailMode = fci_bThumbnailMode ci, fbm_pFrames = ns, fbm_bUseGpuBuf = 0,
     fbm_nAlignValue = al, fbm_pFbmInfo = True, fbm_nDecoderHoldingNum = 0,
     fbm_nRenderHoldingNum = 0, fbm_nWaitForDispNum = 0, fbm_memops = fci_memops ci\<rparr>"

text \<open>What \<open>FbmCreateBuffer\<close> records for a display that supplies the buffers.\<close>

definition fbm_buf_info :: "FbmCreateInfo \<Rightarrow> int \<Rightarrow> FbmWorld \<Rightarrow> FbmWorld" where
  "fbm_buf_info ci al w =
     w\<lparr>vfi_pFbmBufInfo :=
        \<lparr>fbi_nBufNum = (if fci_bThumbnailMode ci = 1 then 1 else fci_nFrameNum ci),
         fbi_nBufWidth = (if al \<noteq> 0 then align_up (fci_nWidth ci) al else fci_nWidth ci),
         fbi_nBufHeight = (if al \<noteq> 0 then align_up (fci_nHeight ci) al else fci_nHeight ci),
         fbi_ePixelFormat = fci_ePixelFormat ci, fbi_nAlignValue = al,
         fbi_bProgressiveFlag = fci_bProgressiveFlag ci,
         fbi_bIsSoftDecoderFlag = fci_bIsSoftDecoderFlag ci\<rparr>\<rparr>"

text \<open>\<open>pStruct\<close> and \<open>pNodes\<close> are the results of the two \<open>malloc\<close> calls.\<close>

definition FbmCreateBuffer ::
  "ScMemOps \<Rightarrow> addr \<Rightarrow> addr \<Rightarrow> FbmCreateInfo \<Rightarrow> FbmWorld \<Rightarrow> addr mem_event list
     \<Rightarrow> (Fbm option \<times> FbmWorld \<times> addr mem_event list) exec" where
  "FbmCreateBuffer memops pStruct pNodes ci w tr =
     (if pStruct = 0 then Ok (None, w, tr)
      else if pNodes = 0 then Ok (None, w, tr @ [Alloc pStruct, Free pStruct])
      else
        (case fbm_frames memops ci (nat (fci_nFrameNum ci)) 0 (fci_nAlignStride ci) []
                (tr @ [Alloc pStruct, Alloc pNodes]) of
           (ok, ns, al, tr1) \<Rightarrow>
             if \<not> ok then
               Ok (None, w, tr1 @ concat (map (\<lambda>n. snd (FbmFreePictureBuffer (vpicture n))) ns) @
                 [Free pNodes, Free pStruct])
             else if fci_bGpuBufValid ci = 1 \<and> fci_nBufferType ci \<noteq> BUF_TYPE_ONLY_REFERENCE then
               (let p = (fbm_blank ci ns al)\<lparr>fbm_bUseGpuBuf := 1\<rparr> in
                if vfi_pFbmFirst w \<noteq> None \<and> vfi_bIs3DStream w = 1 then Ok (Some p, w, tr1)
                else Ok (Some p, fbm_buf_info ci al w, tr1))
             else
               ebind (fbm_fill [0..<nat (fci_nFrameNum ci)] (fbm_blank ci ns al)) (\<lambda>p.
                 Ok (Some (p\<lparr>fbm_nEmptyBufferNum := fci_nFrameNum ci\<rparr>), w, tr1))))"

definition FbmDestroy :: "addr \<Rightarrow> addr \<Rightarrow> Fbm option \<Rightarrow> addr mem_event list exec" where
  "FbmDestroy pStruct pNodes pFbm = (case pFbm of
       None \<Rightarrow> Ok []
     | Some f \<Rightarrow>
         ebind
           (if fbm_bUseGpuBuf f = 0 then
              (if fbm_bThumbnailMode f \<noteq> 0
               then ebind (node_get f 0) (\<lambda>n. Ok (snd (FbmFreePictureBuffer (vpicture n))))
               else if length (fbm_pFrames f) < nat (fbm_nMaxFrameNum f) then Fault
               else Ok (concat (map (\<lambda>n. snd (FbmFreePictureBuffer (vpicture n)))
                                  (take (nat (fbm_nMaxFrameNum f)) (fbm_pFrames f)))))
            else Ok [])
           (\<lambda>tr. Ok (tr @ [Free pNodes, Free pStruct])))"

text \<open>\<open>FbmCreate\<close>: the handle it returns, and the state with the new managers. \<open>mem1\<close> and
  \<open>mem2\<close> are the results of the \<open>malloc\<close> calls for the first and the second manager and
  \<open>bufsize\<close> gives the sizes of the luminance and chrominance planes (\<open>GetBufferSize\<close>).\<close>

definition FbmCreate ::
  "ScMemOps \<Rightarrow> addr \<times> addr \<Rightarrow> addr \<times> addr \<Rightarrow> (int \<Rightarrow> int \<Rightarrow> int \<Rightarrow> int \<Rightarrow> int \<times> int) \<Rightarrow> FbmCreateInfo
     \<Rightarrow> FbmWorld \<Rightarrow> addr mem_event list \<Rightarrow> (fbm_handle option \<times> FbmWorld \<times> addr mem_event list) exec" where
  "FbmCreate memops mem1 mem2 bufsize ci w tr =
     (if vfi_bIs3DStream w = 1 \<and> fci_bGpuBufValid ci = 1 then
        (let w0 = w\<lparr>vfi_bTwoStreamShareOneFbm := 1\<rparr> in
         if vfi_pFbmFirst w0 = None then
           ebind (FbmCreateBuffer memops (fst mem1) (snd mem1) ci w0 tr) (\<lambda>(p, w1, tr1).
           case p of
             None \<Rightarrow> Ok (None, w1, tr1)
           | Some f \<Rightarrow>
               ebind (FbmCreateBuffer memops (fst mem2) (snd mem2) ci
                        (w1\<lparr>vfi_pFbmFirst := Some f\<rparr>) tr1) (\<lambda>(q, w2, tr2).
               let b = vfi_pFbmBufInfo w2;
                   (ySize, cSize) = bufsize (fbi_ePixelFormat b) (fbi_nBufWidth b) (fbi_nBufHeight b)
                                         (fbi_nAlignValue b)
               in Ok (Some FbmFirst,
                      w2\<lparr>vfi_pFbmSecond := q, vfi_nMinorYBufOffset := ySize,
                         vfi_nMinorCBufOffset := 2 * cSize\<rparr>, tr2)))
         else Ok (if vfi_pFbmSecond w0 = None then None else Some FbmSecond, w0, tr))
      else if vfi_pFbmFirst w = None then
        ebind (FbmCreateBuffer memops (fst mem1) (snd mem1) ci w tr) (\<lambda>(p, w1, tr1).
          Ok (map_option (\<lambda>_. FbmFirst) p, w1\<lparr>vfi_pFbmFirst := p\<rparr>, tr1))
      else if vfi_pFbmSecond w = None then
        ebind (FbmCreateBuffer memops (fst mem2) (snd mem2) ci w tr) (\<lambda>(p, w1, tr1).
          Ok (map_option (\<lambda>_. FbmSecond) p,
              w1\<lparr>vfi_pFbmSecond := p, vfi_nMinorYBufOffset := 0, vfi_nMinorCBufOffset := 0\<rparr>, tr1))
      else Ok (None, w, tr))"

section \<open>The state of a new manager\<close>

definition frame_idle :: "nat \<Rightarrow> FrameNode \<Rightarrow> bool" where
  "frame_idle i n \<longleftrightarrow> \<not> bUsedByDecoder n \<and> \<not> bUsedByRender n \<and> \<not> bInValidPictureQueue n \<and>
     \<not> bAlreadyDisplayed n \<and> \<not> bNeedRelease n \<and> vp_nID (vpicture n) = int i"

lemma FbmAllocatePictureBuffer_keeps:
  assumes "FbmAllocatePictureBuffer m p al wd ht tr = (r, v, al1, tr1)"
  shows "vp_nID v = vp_nID p" "vp_ePixelFormat v = vp_ePixelFormat p"
  using assms
  by (auto simp: FbmAllocatePictureBuffer_def alloc_switch_def alloc_planar_def alloc_mb32_def
      alloc_rgb_def Let_def split: if_splits)

lemma fbm_frame_idle:
  "fbm_frame m ci i al ns tr = (ok, n, al1, tr1) \<Longrightarrow> frame_idle i n"
  by (auto simp: fbm_frame_def frame_idle_def fbm_init_picture_def Let_def
      split: if_splits prod.splits dest!: FbmAllocatePictureBuffer_keeps(1))

lemma fbm_frames_idle:
  assumes "fbm_frames m ci k (length ns) al ns tr = (True, ns', al', tr')"
    "\<forall>j < length ns. frame_idle j (ns ! j)"
  shows "length ns' = length ns + k \<and> (\<forall>j < length ns'. frame_idle j (ns' ! j))"
  using assms
proof (induction k arbitrary: ns al tr)
  case 0
  then show ?case by simp
next
  case (Suc k)
  obtain n al1 tr1 where n: "fbm_frame m ci (length ns) al ns tr = (True, n, al1, tr1)"
    "fbm_frames m ci k (length (ns @ [n])) al1 (ns @ [n]) tr1 = (True, ns', al', tr')"
    using Suc.prems(1) by (auto split: prod.splits if_splits)
  have "\<forall>j < length (ns @ [n]). frame_idle j ((ns @ [n]) ! j)"
    using Suc.prems(2) fbm_frame_idle [OF n(1)] by (auto simp: nth_append less_Suc_eq)
  from Suc.IH [OF n(2) this] show ?case by simp
qed

lemma same_frames_refl: "same_frames ns ns"
  by (simp add: same_frames_def)

lemma same_frames_trans:
  assumes "same_frames a b" "same_frames b c"
  shows "same_frames a c"
proof -
  have "a ! j = (c ! j)\<lparr>pNext := pNext (a ! j)\<rparr>" if "j < length c" for j
  proof -
    have "a ! j = (b ! j)\<lparr>pNext := pNext (a ! j)\<rparr>" "b ! j = (c ! j)\<lparr>pNext := pNext (b ! j)\<rparr>"
      using assms that by (simp_all add: same_frames_def)
    moreover have "n\<lparr>pNext := x\<rparr>\<lparr>pNext := y\<rparr> = n\<lparr>pNext := y\<rparr>" for n :: FrameNode and x y by simp
    ultimately show ?thesis by metis
  qed
  then show ?thesis using assms by (simp add: same_frames_def)
qed

lemma fbm_fill_chain:
  assumes "frame_chain (fbm_pFrames f) (fbm_pEmptyBufferQueue f) xs" "distinct (xs @ is)"
    "\<forall>i \<in> set is. i < length (fbm_pFrames f)"
  shows "\<exists>h ns. fbm_fill is f = Ok (f\<lparr>fbm_pEmptyBufferQueue := h, fbm_pFrames := ns\<rparr>) \<and>
    frame_chain ns h (xs @ is) \<and> same_frames ns (fbm_pFrames f)"
  using assms
proof (induction "is" arbitrary: f xs)
  case Nil
  then show ?case
    using same_frames_refl
    by (intro exI [of _ "fbm_pEmptyBufferQueue f"] exI [of _ "fbm_pFrames f"]) simp
next
  case (Cons i js)
  have "i < length (fbm_pFrames f)" "i \<notin> set xs" using Cons.prems by auto
  from FbmEnqueue_frames [OF Cons.prems(1) this]
  obtain h1 ns1 where e: "FbmEnqueue (fbm_pEmptyBufferQueue f) i (fbm_pFrames f) = Ok (h1, ns1)"
    "frame_chain ns1 h1 (xs @ [i])" "same_frames ns1 (fbm_pFrames f)" by metis
  let ?f1 = "f\<lparr>fbm_pEmptyBufferQueue := h1, fbm_pFrames := ns1\<rparr>"
  have "\<exists>h ns. fbm_fill js ?f1 = Ok (?f1\<lparr>fbm_pEmptyBufferQueue := h, fbm_pFrames := ns\<rparr>) \<and>
      frame_chain ns h ((xs @ [i]) @ js) \<and> same_frames ns (fbm_pFrames ?f1)"
    using Cons.prems e(2) same_frames_length [OF e(3)] by (intro Cons.IH) auto
  then show ?case using e same_frames_trans [OF _ e(3)] by auto
qed

definition spec_all_empty :: "nat \<Rightarrow> FrameSpec" where
  "spec_all_empty n = \<lparr>fs_empty = [0..<n], fs_valid = [], fs_release = [], fs_dec = {}, fs_ren = {},
     fs_shown = {}, fs_forbid = {}\<rparr>"

lemma fbm_filled_rel:
  assumes "length ns = nat n" "0 \<le> n" "n \<le> 255" "\<forall>j < length ns. frame_idle j (ns ! j)" "n = fci_nFrameNum ci"
  shows "\<exists>f. fbm_fill [0..<nat n] (fbm_blank ci ns al) = Ok f \<and>
    fbm_rel (f\<lparr>fbm_nEmptyBufferNum := n\<rparr>) (spec_all_empty (nat n)) \<and> fbm_pFbmInfo f \<and>
    fbm_bUseGpuBuf f = 0 \<and> fbm_bThumbnailMode f = fci_bThumbnailMode ci \<and>
    fbm_nMaxFrameNum f = n \<and> same_frames (fbm_pFrames f) ns"
proof -
  have "frame_chain (fbm_pFrames (fbm_blank ci ns al)) (fbm_pEmptyBufferQueue (fbm_blank ci ns al)) []"
    by (simp add: fbm_blank_def)
  from fbm_fill_chain [OF this, of "[0..<nat n]"] assms(1)
  obtain h ns' where e: "fbm_fill [0..<nat n] (fbm_blank ci ns al) =
      Ok ((fbm_blank ci ns al)\<lparr>fbm_pEmptyBufferQueue := h, fbm_pFrames := ns'\<rparr>)"
    "frame_chain ns' h [0..<nat n]" "same_frames ns' ns"
    by (auto simp: fbm_blank_def)
  let ?f = "(fbm_blank ci ns al)\<lparr>fbm_pEmptyBufferQueue := h, fbm_pFrames := ns'\<rparr>"
  let ?g = "?f\<lparr>fbm_nEmptyBufferNum := n\<rparr>" and ?s = "spec_all_empty (nat n)"
  note len = same_frames_length [OF e(3)]
  have "fbm_chains ?g ?s" using e(2) by (simp add: fbm_chains_def fbm_blank_def spec_all_empty_def)
  moreover have "fbm_flags ?g ?s"
    using assms(4) len same_frames_nth [OF e(3)]
    by (simp add: fbm_flags_def fbm_blank_def spec_all_empty_def frame_idle_def Let_def)
  moreover have "fbm_counts ?g ?s" "spec_ok ?s"
    using assms(1-3,5) len
    by (simp_all add: fbm_counts_def spec_ok_def fbm_blank_def spec_all_empty_def)
  ultimately show ?thesis using e(1,3) assms(5) by (simp add: fbm_rel_def) (simp add: fbm_blank_def)
qed

section \<open>Memory balance\<close>

definition pic_blocks :: "VideoPicture \<Rightarrow> addr list" where
  "pic_blocks v =
     (if vp_ePixelFormat v < PIXEL_FORMAT_YUV_MB32_420 then filter (\<lambda>p. p \<noteq> 0) [vp_pData0 v]
      else filter (\<lambda>p. p \<noteq> 0) [vp_pData0 v, vp_pData1 v, vp_pData2 v, vp_pData3 v])"

lemma FbmFreePictureBuffer_blocks: "snd (FbmFreePictureBuffer v) = map Free (pic_blocks v)"
  by (simp add: FbmFreePictureBuffer_def pic_blocks_def free_plane_def)

text \<open>A call that succeeds leaves the picture with exactly the blocks it took, one that fails
  leaves none behind.\<close>

lemma alloc_planar_blocks:
  assumes "alloc_planar m p al wd ht tr = (ok, v, al1, tr1)" "is_planar (vp_ePixelFormat p)"
  shows "tr1 = (if ok then tr @ map Alloc (pic_blocks v) else tr)"
proof -
  have "vp_ePixelFormat v = vp_ePixelFormat p"
    using assms(1) by (auto simp: alloc_planar_def Let_def split: if_splits)
  moreover have "vp_ePixelFormat p < 7" using assms(2) by (auto simp: is_planar_def)
  ultimately show ?thesis
    using assms(1) by (auto simp: alloc_planar_def Let_def pic_blocks_def split: if_splits)
qed

lemma alloc_mb32_blocks:
  assumes "alloc_mb32 m p wd ht tr = (ok, v, al1, tr1)" "is_mb32 (vp_ePixelFormat p)"
  shows "ok \<Longrightarrow> tr1 = tr @ map Alloc (pic_blocks v)" "\<not> ok \<Longrightarrow> \<exists>es. tr1 = tr @ es \<and> balanced es"
proof -
  have "vp_ePixelFormat v = vp_ePixelFormat p"
    using assms(1) by (auto simp: alloc_mb32_def Let_def split: if_splits)
  moreover have "\<not> vp_ePixelFormat p < 7" using assms(2) by (auto simp: is_mb32_def)
  ultimately show "ok \<Longrightarrow> tr1 = tr @ map Alloc (pic_blocks v)"
    "\<not> ok \<Longrightarrow> \<exists>es. tr1 = tr @ es \<and> balanced es"
    using assms(1) by (auto simp: alloc_mb32_def Let_def pic_blocks_def split: if_splits)
qed

lemma alloc_rgb_blocks:
  assumes "alloc_rgb m p al ht tr = (ok, v, al1, tr1)" "is_rgb (vp_ePixelFormat p)"
  shows "tr1 = (if ok then tr @ map Alloc (pic_blocks v) else tr)"
proof -
  have "vp_ePixelFormat v = vp_ePixelFormat p"
    using assms(1) by (auto simp: alloc_rgb_def Let_def split: if_splits)
  moreover have "\<not> vp_ePixelFormat p < 7" using assms(2) by (auto simp: is_rgb_def)
  ultimately show ?thesis
    using assms(1) by (auto simp: alloc_rgb_def Let_def pic_blocks_def split: if_splits)
qed

lemma pic_blocks_phys [simp]:
  "pic_blocks (v\<lparr>vp_phyYBufAddr := a\<rparr>) = pic_blocks v"
  "pic_blocks (v\<lparr>vp_phyCBufAddr := a\<rparr>) = pic_blocks v"
  "pic_blocks (v\<lparr>vp_nColorPrimary := c\<rparr>) = pic_blocks v"
  by (simp_all add: pic_blocks_def)

lemma alloc_switch_blocks:
  assumes "alloc_switch m p al wd ht tr = (ok, v, al1, tr1)"
  shows "ok \<Longrightarrow> tr1 = tr @ map Alloc (pic_blocks v)" "\<not> ok \<Longrightarrow> \<exists>es. tr1 = tr @ es \<and> balanced es"
proof -
  consider "is_planar (vp_ePixelFormat p)" | "\<not> is_planar (vp_ePixelFormat p)" "is_mb32 (vp_ePixelFormat p)"
    | "\<not> is_planar (vp_ePixelFormat p)" "\<not> is_mb32 (vp_ePixelFormat p)" "is_rgb (vp_ePixelFormat p)"
    | "\<not> is_planar (vp_ePixelFormat p)" "\<not> is_mb32 (vp_ePixelFormat p)" "\<not> is_rgb (vp_ePixelFormat p)"
    by blast
  then have "(ok \<longrightarrow> tr1 = tr @ map Alloc (pic_blocks v)) \<and> (\<not> ok \<longrightarrow> (\<exists>es. tr1 = tr @ es \<and> balanced es))"
  proof cases
    case 1
    then show ?thesis
      using assms alloc_planar_blocks [of m p al wd ht tr ok v al1 tr1] by (auto simp: alloc_switch_def)
  next
    case 2
    then show ?thesis
      using assms alloc_mb32_blocks [of m p wd ht tr ok v al1 tr1] by (auto simp: alloc_switch_def)
  next
    case 3
    then show ?thesis
      using assms alloc_rgb_blocks [of m p al ht tr ok v al1 tr1] by (auto simp: alloc_switch_def)
  next
    case 4
    then show ?thesis using assms by (auto simp: alloc_switch_def)
  qed
  then show "ok \<Longrightarrow> tr1 = tr @ map Alloc (pic_blocks v)" "\<not> ok \<Longrightarrow> \<exists>es. tr1 = tr @ es \<and> balanced es"
    by auto
qed

lemma FbmAllocatePictureBuffer_blocks:
  assumes "FbmAllocatePictureBuffer m p al wd ht tr = (r, v, al1, tr1)"
  shows "r = 0 \<Longrightarrow> tr1 = tr @ map Alloc (pic_blocks v)"
    "r \<noteq> 0 \<Longrightarrow> \<exists>es. tr1 = tr @ es \<and> balanced es"
proof -
  let ?p = "p\<lparr>vp_pData0 := 0, vp_pData1 := 0, vp_pData2 := 0, vp_pData3 := 0\<rparr>"
  obtain ok u al2 tr2 where s: "alloc_switch m ?p al wd ht tr = (ok, u, al2, tr2)"
    by (metis prod_cases4)
  have "tr1 = tr2" "ok = (r = 0)" "ok \<Longrightarrow> pic_blocks v = pic_blocks u"
    using assms s by (auto simp: FbmAllocatePictureBuffer_def Let_def split: if_splits)
  then show "r = 0 \<Longrightarrow> tr1 = tr @ map Alloc (pic_blocks v)"
    "r \<noteq> 0 \<Longrightarrow> \<exists>es. tr1 = tr @ es \<and> balanced es"
    using alloc_switch_blocks [OF s] by auto
qed

text \<open>The blocks the frames own: in thumbnail mode all frames share those of the first.\<close>

definition frames_blocks :: "FbmCreateInfo \<Rightarrow> FrameNode list \<Rightarrow> addr list" where
  "frames_blocks ci ns =
     concat (map (\<lambda>n. pic_blocks (vpicture n)) (if fci_bThumbnailMode ci = 0 then ns else take 1 ns))"

lemma fbm_frame_thumb:
  "fbm_frame m ci i al ns tr = (False, n, al1, tr1) \<Longrightarrow> fci_bThumbnailMode ci = 0 \<or> i = 0"
  by (auto simp: fbm_frame_def Let_def split: if_splits prod.splits)

lemma fbm_init_picture_blocks: "pic_blocks (fbm_init_picture ci i al) = []"
  by (simp add: pic_blocks_def fbm_init_picture_def Let_def vp_zero_def)

lemma fbm_frame_blocks:
  assumes "fbm_frame m ci (length ns) al ns tr = (ok, n, al1, tr1)"
  shows "\<exists>es bs. tr1 = tr @ es \<and> adds_blocks es bs \<and> 
     (if ok then frames_blocks ci (ns @ [n]) = frames_blocks ci ns @ bs else bs = [])"
proof -
  let ?pic = "fbm_init_picture ci (length ns) al"
  let ?alloc = "(fci_bGpuBufValid ci = 0 \<or> fci_nBufferType ci = BUF_TYPE_ONLY_REFERENCE)"
  consider (alloc) "?alloc" "fci_bThumbnailMode ci = 0 \<or> ns = []"
    | (share) "?alloc" "fci_bThumbnailMode ci \<noteq> 0" "ns \<noteq> []" | (gpu) "\<not> ?alloc" by blast
  then show ?thesis
  proof cases
    case alloc
    obtain r v al2 tr2 where a: "FbmAllocatePictureBuffer m ?pic al (fci_nWidth ci) (fci_nHeight ci) tr =
      (r, v, al2, tr2)" by (metis prod_cases4)
    have e: "tr1 = tr2" "ok = (r = 0)" "r = 0 \<Longrightarrow> pic_blocks (vpicture n) = pic_blocks v"
      using assms alloc a by (auto simp: fbm_frame_def Let_def split: if_splits)
    show ?thesis
    proof (cases ok)
      case True
      then have "frames_blocks ci (ns @ [n]) = frames_blocks ci ns @ pic_blocks v"
        using alloc(2) e(2,3) by (auto simp: frames_blocks_def)
      then show ?thesis
        using FbmAllocatePictureBuffer_blocks(1) [OF a] e True adds_blocks_intros(2) by auto
    next
      case False
      then show ?thesis
        using FbmAllocatePictureBuffer_blocks(2) [OF a] e adds_blocks_intros(1) by auto
    qed
  next
    case share
    then have "ok" "tr1 = tr" using assms by (auto simp: fbm_frame_def Let_def)
    moreover have "frames_blocks ci (ns @ [n]) = frames_blocks ci ns"
      using share by (cases ns) (auto simp: frames_blocks_def)
    ultimately show ?thesis using adds_blocks_intros(3) by auto
  next
    case gpu
    then have "ok" "tr1 = tr" "vpicture n = ?pic" using assms by (auto simp: fbm_frame_def Let_def)
    moreover from this have "frames_blocks ci (ns @ [n]) = frames_blocks ci ns"
      by (cases ns) (auto simp: frames_blocks_def fbm_init_picture_blocks)
    ultimately show ?thesis using adds_blocks_intros(3) by auto
  qed
qed

lemma fbm_frames_blocks:
  assumes "fbm_frames m ci k (length ns) al ns tr = (ok, ns', al', tr')"
  shows "(\<exists>es bs. tr' = tr @ es \<and> adds_blocks es bs \<and>
      frames_blocks ci ns' = frames_blocks ci ns @ bs) \<and>
    (ok \<or> fci_bThumbnailMode ci = 0 \<or> ns' = [])"
  using assms
proof (induction k arbitrary: ns al tr)
  case 0
  then show ?case using adds_blocks_intros(3) by auto
next
  case (Suc k)
  obtain ok1 n al1 tr1 where n: "fbm_frame m ci (length ns) al ns tr = (ok1, n, al1, tr1)"
    by (metis prod_cases4)
  obtain es bs where e: "tr1 = tr @ es" "adds_blocks es bs"
    "if ok1 then frames_blocks ci (ns @ [n]) = frames_blocks ci ns @ bs else bs = []"
    using fbm_frame_blocks [OF n] by blast
  show ?case
  proof (cases ok1)
    case True
    then have "fbm_frames m ci k (length (ns @ [n])) al1 (ns @ [n]) tr1 = (ok, ns', al', tr')"
      using Suc.prems n by simp
    from Suc.IH [OF this] obtain fs cs where f: "tr' = tr1 @ fs" "adds_blocks fs cs"
      "frames_blocks ci ns' = frames_blocks ci (ns @ [n]) @ cs" "ok \<or> fci_bThumbnailMode ci = 0 \<or> ns' = []"
      by blast
    then show ?thesis
      using e True adds_blocks_append [OF e(2) f(2)] by (auto intro!: exI [of _ "es @ fs"] exI [of _ "bs @ cs"])
  next
    case False
    then have "ok = False" "ns' = ns" "tr' = tr1" using Suc.prems n by auto
    then show ?thesis using e False fbm_frame_thumb [of m ci "length ns" al ns tr n al1 tr1] n by auto
  qed
qed

lemma fbm_frames_gpu:
  assumes "fci_bGpuBufValid ci \<noteq> 0" "fci_nBufferType ci \<noteq> BUF_TYPE_ONLY_REFERENCE"
    "fbm_frames m ci k i al ns tr = (ok, ns', al', tr')"
  shows "ok \<and> tr' = tr"
  using assms(3)
proof (induction k arbitrary: i al ns tr)
  case (Suc k)
  obtain n al1 tr1 where "fbm_frame m ci i al ns tr = (True, n, al1, tr1)" "tr1 = tr"
    using assms(1,2) by (simp add: fbm_frame_def Let_def)
  then have "fbm_frames m ci k (Suc i) al1 (ns @ [n]) tr = (ok, ns', al', tr')"
    using Suc.prems by simp
  then show ?case by (rule Suc.IH)
qed simp

lemma frames_blocks_same:
  assumes "same_frames ms ns"
  shows "frames_blocks ci ms = frames_blocks ci ns"
proof -
  have "map (\<lambda>n. pic_blocks (vpicture n)) ms = map (\<lambda>n. pic_blocks (vpicture n)) ns"
    using same_frames_nth(6) [OF assms] same_frames_length [OF assms] by (auto simp: list_eq_iff_nth_eq)
  then show ?thesis by (simp add: frames_blocks_def take_map [symmetric])
qed

lemma free_all_trace:
  "concat (map (\<lambda>n. snd (FbmFreePictureBuffer (vpicture n))) ns) =
     map Free (concat (map (\<lambda>n. pic_blocks (vpicture n)) ns))"
  by (induction ns) (auto simp: FbmFreePictureBuffer_blocks)

lemma FbmDestroy_trace:
  assumes "fbm_bUseGpuBuf f = 0" "0 < n" "fbm_nMaxFrameNum f = n" "length (fbm_pFrames f) = nat n"
    "fbm_bThumbnailMode f = fci_bThumbnailMode ci"
  shows "FbmDestroy pStruct pNodes (Some f) =
    Ok (map Free (frames_blocks ci (fbm_pFrames f) @ [pNodes, pStruct]))"
proof (cases "fci_bThumbnailMode ci = 0")
  case True
  then show ?thesis
    using assms by (simp add: FbmDestroy_def free_all_trace frames_blocks_def)
next
  case False
  have "take 1 (fbm_pFrames f) = [fbm_pFrames f ! 0]" using assms(2,4) by (cases "fbm_pFrames f") auto
  then show ?thesis
    using assms False by (simp add: FbmDestroy_def node_get_def FbmFreePictureBuffer_blocks frames_blocks_def)
qed

lemma fbm_blank_rel:
  assumes "length ns = nat n" "0 \<le> n" "n \<le> 255" "\<forall>j < length ns. frame_idle j (ns ! j)"
    "n = fci_nFrameNum ci"
  shows "fbm_rel ((fbm_blank ci ns al)\<lparr>fbm_bUseGpuBuf := 1\<rparr>) (spec_all_empty 0)"
  using assms
  by (simp add: fbm_rel_def fbm_chains_def fbm_flags_def fbm_counts_def spec_ok_def fbm_blank_def
      spec_all_empty_def frame_idle_def Let_def)

text \<open>Everything \<open>FbmCreateBuffer\<close> can return.\<close>

lemma FbmCreateBuffer_cases:
  assumes n: "0 < fci_nFrameNum ci" "fci_nFrameNum ci \<le> 255"
  obtains (failed) es where "FbmCreateBuffer m ps pn ci w tr = Ok (None, w, tr @ es)" "adds_blocks es []"
  | (gpu) f es w' where "FbmCreateBuffer m ps pn ci w tr = Ok (Some f, w', tr @ es)"
      "adds_blocks es [ps, pn]" "fbm_rel f (spec_all_empty 0)" "fbm_pFbmInfo f" "fbm_bUseGpuBuf f = 1"
      "vfi_pFbmFirst w' = vfi_pFbmFirst w" "vfi_pFbmSecond w' = vfi_pFbmSecond w"
      "vfi_pMajorDispFrame w' = vfi_pMajorDispFrame w"
      "vfi_pMajorDecoderFrame w' = vfi_pMajorDecoderFrame w"
  | (own) f es where "FbmCreateBuffer m ps pn ci w tr = Ok (Some f, w, tr @ es)"
      "adds_blocks es ([ps, pn] @ frames_blocks ci (fbm_pFrames f))"
      "fbm_rel f (spec_all_empty (nat (fci_nFrameNum ci)))" "fbm_pFbmInfo f" "fbm_bUseGpuBuf f = 0"
      "fbm_nMaxFrameNum f = fci_nFrameNum ci" "length (fbm_pFrames f) = nat (fci_nFrameNum ci)"
      "fbm_bThumbnailMode f = fci_bThumbnailMode ci"
proof (cases "ps = 0 \<or> pn = 0")
  case True
  have "adds_blocks [Alloc ps, Free ps] []" "adds_blocks ([] :: addr mem_event list) []"
    by (auto intro: adds_blocks_intros)
  then show thesis
    using True failed [of "[]"] failed [of "[Alloc ps, Free ps]"]
    by (cases "ps = 0") (auto simp: FbmCreateBuffer_def)
next
  case False
  let ?tr = "tr @ [Alloc ps, Alloc pn]" and ?k = "nat (fci_nFrameNum ci)"
  obtain ok ns al tr1 where fr: "fbm_frames m ci ?k 0 (fci_nAlignStride ci) [] ?tr = (ok, ns, al, tr1)"
    by (metis prod_cases4)
  have "frames_blocks ci [] = []" by (simp add: frames_blocks_def)
  then obtain es where es: "tr1 = ?tr @ es" "adds_blocks es (frames_blocks ci ns)"
    "ok \<or> fci_bThumbnailMode ci = 0 \<or> ns = []"
    using fbm_frames_blocks [of m ci ?k "[]" "fci_nAlignStride ci" ?tr] fr by auto
  have two: "adds_blocks ([Alloc ps, Alloc pn] @ es) ([ps, pn] @ frames_blocks ci ns)"
    using adds_blocks_append [OF adds_blocks_intros(2) es(2), of "[ps, pn]"] by simp
  have i: "length ns = ?k \<and> (\<forall>j < length ns. frame_idle j (ns ! j))" if ok
    using fbm_frames_idle [of m ci ?k "[]" "fci_nAlignStride ci" ?tr ns al tr1] fr that by auto
  show thesis
  proof (cases ok)
    case False
    then have "frames_blocks ci ns = concat (map (\<lambda>n. pic_blocks (vpicture n)) ns)"
      using es(3) by (auto simp: frames_blocks_def)
    then have "adds_blocks (([Alloc ps, Alloc pn] @ es) @ map Free (frames_blocks ci ns @ [pn, ps])) []"
      "FbmCreateBuffer m ps pn ci w tr =
        Ok (None, w, tr @ (([Alloc ps, Alloc pn] @ es) @ map Free (frames_blocks ci ns @ [pn, ps])))"
      using adds_then_frees [OF two, of "frames_blocks ci ns @ [pn, ps]"] \<open>\<not> (ps = 0 \<or> pn = 0)\<close> fr False es(1)
      by (auto simp: FbmCreateBuffer_def free_all_trace)
    then show thesis using failed by blast
  next
    case ok: True
    show thesis
    proof (cases "fci_bGpuBufValid ci = 1 \<and> fci_nBufferType ci \<noteq> BUF_TYPE_ONLY_REFERENCE")
      case True
      then have t: "tr1 = ?tr" using fbm_frames_gpu [OF _ _ fr] by auto
      let ?w' = "if vfi_pFbmFirst w \<noteq> None \<and> vfi_bIs3DStream w = 1 then w else fbm_buf_info ci al w"
      have w': "FbmCreateBuffer m ps pn ci w tr =
          Ok (Some ((fbm_blank ci ns al)\<lparr>fbm_bUseGpuBuf := 1\<rparr>), ?w', tr @ [Alloc ps, Alloc pn])"
        using \<open>\<not> (ps = 0 \<or> pn = 0)\<close> fr ok True t by (simp add: FbmCreateBuffer_def Let_def)
      have "fbm_rel ((fbm_blank ci ns al)\<lparr>fbm_bUseGpuBuf := 1\<rparr>) (spec_all_empty 0)"
        using fbm_blank_rel [of ns "fci_nFrameNum ci" ci al] i [OF ok] n by simp
      then show thesis
        using gpu [OF w'] adds_blocks_intros(2) [of "[ps, pn]"]
        by (auto simp: fbm_blank_def fbm_buf_info_def)
    next
      case False
      have i: "length ns = ?k" "\<forall>j < length ns. frame_idle j (ns ! j)" using i [OF ok] by auto
      obtain f where f: "fbm_fill [0..<?k] (fbm_blank ci ns al) = Ok f"
        "fbm_rel (f\<lparr>fbm_nEmptyBufferNum := fci_nFrameNum ci\<rparr>) (spec_all_empty ?k)" "fbm_pFbmInfo f"
        "fbm_bUseGpuBuf f = 0" "fbm_bThumbnailMode f = fci_bThumbnailMode ci"
        "fbm_nMaxFrameNum f = fci_nFrameNum ci" "same_frames (fbm_pFrames f) ns"
        using fbm_filled_rel [OF i(1) _ n(2) i(2) refl, of al] n(1) by auto
      let ?f = "f\<lparr>fbm_nEmptyBufferNum := fci_nFrameNum ci\<rparr>"
      have "FbmCreateBuffer m ps pn ci w tr = Ok (Some ?f, w, tr @ ([Alloc ps, Alloc pn] @ es))"
        using \<open>\<not> (ps = 0 \<or> pn = 0)\<close> fr ok False f(1) es(1) by (auto simp: FbmCreateBuffer_def)
      then show thesis
        using own [of ?f] two f frames_blocks_same [OF f(7)] same_frames_length [OF f(7)] i(1) by simp
    qed
  qed
qed

section \<open>Alignment\<close>

lemma and_not_mask: "(x::int) AND NOT (2 ^ k - 1) = x div 2 ^ k * 2 ^ k"
proof -
  have "x AND NOT (mask k) = push_bit k (drop_bit k x)"
    by (rule bit_eqI) (auto simp: bit_simps)
  then show ?thesis by (simp add: mask_eq_exp_minus_1 push_bit_eq_mult drop_bit_eq_div)
qed

lemma align_up_pow2:
  assumes "0 \<le> n" "n + 2 ^ k \<le> 2147483648"
  shows "n \<le> align_up n (2 ^ k)" "align_up n (2 ^ k) < n + 2 ^ k" "2 ^ k dvd align_up n (2 ^ k)"
proof -
  let ?a = "2 ^ k :: int" and ?x = "n + 2 ^ k - 1"
  have p: "0 < ?a" by simp
  have "int32_range ?x" unfolding int32_range_def using assms p by linarith
  then have "i32 ?x = ?x" by (rule i32_id)
  then have e: "align_up n ?a = ?x div ?a * ?a" by (simp add: align_up_def and_not_mask)
  have "?x mod ?a < ?a" "0 \<le> ?x mod ?a" using p by simp_all
  moreover have "?x div ?a * ?a = ?x - ?x mod ?a" by (simp add: minus_mod_eq_div_mult)
  ultimately show "n \<le> align_up n ?a" "align_up n ?a < n + ?a" using e by linarith+
  show "?a dvd align_up n ?a" using e by simp
qed

lemma chroma_size:
  fixes y :: int
  assumes "0 \<le> y" "y \<le> 84934656"
  shows "i32 (y + (if A then y div 2 else if B then y else y div 4) * 2) =
    y + (if A then y div 2 else if B then y else y div 4) * 2"
proof -
  have "y div 2 \<le> y" "y div 4 \<le> y" "0 \<le> y div 2" "0 \<le> y div 4" using assms(1) by linarith+
  then show ?thesis using assms by (auto intro!: i32_id simp: int32_range_def)
qed

lemma alloc_planar_eq:
  assumes "(if al = 0 then 16 else al) = a" "align_up wd a = w" "align_up ht a = h" "i32 (w * h) = y"
    "(if vp_ePixelFormat p = 1 \<or> vp_ePixelFormat p = 4 \<or> vp_ePixelFormat p = 5 then drop_bit 2 y
      else if vp_ePixelFormat p = 2 then drop_bit 1 y else y) = c"
    "i32 (y + c * 2) = n" "mo_palloc m tr n = q"
  shows "alloc_planar m p al wd ht tr =
    (if q = 0 then (False, p\<lparr>vp_nLineStride := w, vp_nWidth := w, vp_nHeight := h\<rparr>, a, tr)
     else (True, p\<lparr>vp_nLineStride := w, vp_nWidth := w, vp_nHeight := h, vp_pData0 := q,
       vp_pData1 := q + y, vp_pData2 := (if vp_ePixelFormat p \<noteq> 5 then q + y + c else 0),
       vp_pData3 := 0\<rparr>, a, tr @ [Alloc q]))"
  unfolding alloc_planar_def Let_def assms by (rule refl)

section \<open>Properties\<close>

definition memops_example :: ScMemOps where
  "memops_example = \<lparr>mo_palloc = \<lambda>tr n. 65536 + int (length tr) * 16777216, mo_phys = \<lambda>a. a\<rparr>"

definition create_example :: FbmCreateInfo where
  "create_example = \<lparr>fci_nFrameNum = 4, fci_nDecoderNeededMiniFrameNum = 2, fci_nWidth = 1280,
     fci_nHeight = 720, fci_ePixelFormat = PIXEL_FORMAT_YUV_MB32_420, fci_bThumbnailMode = 0,
     fci_bGpuBufValid = 0, fci_nAlignStride = 32, fci_nBufferType = 0, fci_bProgressiveFlag = 1,
     fci_bIsSoftDecoderFlag = 0, fci_memops = 1\<rparr>"

text \<open>C19: Memory of a frame buffer manager. Whatever allocation fails, for every pixel format and
  also in thumbnail mode, \<open>FbmCreateBuffer\<close> returns, and together with \<open>FbmDestroy\<close> of its
  result every block that was taken is freed exactly once and no other block is freed.\<close>

theorem fbm_create_destroy_balanced:
  assumes "0 < fci_nFrameNum ci" "fci_nFrameNum ci \<le> 255"
  shows "\<exists>r w' es ds. FbmCreateBuffer m ps pn ci w tr = Ok (r, w', tr @ es) \<and>
    FbmDestroy ps pn r = Ok ds \<and>
    (\<forall>L. frees_ok L (es @ ds) \<and> mset (live_blocks L (es @ ds)) = mset L)"
  using assms
proof (rule FbmCreateBuffer_cases)
  fix es assume "FbmCreateBuffer m ps pn ci w tr = Ok (None, w, tr @ es)" "adds_blocks es []"
  then show ?thesis by (auto simp: FbmDestroy_def adds_blocks_def)
next
  fix f es w' assume "FbmCreateBuffer m ps pn ci w tr = Ok (Some f, w', tr @ es)"
    and a: "adds_blocks es [ps, pn]" and "fbm_bUseGpuBuf f = 1"
  moreover from this have "FbmDestroy ps pn (Some f) = Ok (map Free [pn, ps])"
    by (simp add: FbmDestroy_def)
  ultimately show ?thesis
    using adds_then_frees [OF a, of "[pn, ps]"] by (fastforce simp: adds_blocks_def)
next
  fix f es assume "FbmCreateBuffer m ps pn ci w tr = Ok (Some f, w, tr @ es)"
    and a: "adds_blocks es ([ps, pn] @ frames_blocks ci (fbm_pFrames f))"
    and f: "fbm_bUseGpuBuf f = 0" "fbm_nMaxFrameNum f = fci_nFrameNum ci"
      "length (fbm_pFrames f) = nat (fci_nFrameNum ci)" "fbm_bThumbnailMode f = fci_bThumbnailMode ci"
  moreover from this have "FbmDestroy ps pn (Some f) =
      Ok (map Free (frames_blocks ci (fbm_pFrames f) @ [pn, ps]))"
    using FbmDestroy_trace [OF f(1) assms(1) f(2-4)] by simp
  ultimately show ?thesis
    using adds_then_frees [OF a, of "frames_blocks ci (fbm_pFrames f) @ [pn, ps]"]
    by (fastforce simp: adds_blocks_def)
qed

theorem fbm_create_destroy_balanced_witness:
  "\<exists>r w' es ds. FbmCreateBuffer memops_example 16 32 create_example (info_example None None 0) [] =
       Ok (r, w', [] @ es) \<and> FbmDestroy 16 32 r = Ok ds \<and>
     (\<forall>L. frees_ok L (es @ ds) \<and> mset (live_blocks L (es @ ds)) = mset L)"
  by (rule fbm_create_destroy_balanced) (simp_all add: create_example_def)

text \<open>C25: \<open>FbmCreate\<close> establishes the invariant. From a fresh \<open>VideoFbmInfo\<close> it returns, for
  ordinary and for 3D streams, with frames of its own or from the display, in a state where the
  invariant of both managers holds and the handle it returned is one of a manager.\<close>

theorem fbm_create_establishes_inv:
  assumes "0 < fci_nFrameNum ci" "fci_nFrameNum ci \<le> 255" "vfi_pFbmFirst w = None"
    "vfi_pFbmSecond w = None" "vfi_pMajorDispFrame w = None" "vfi_pMajorDecoderFrame w = None"
  shows "\<exists>r w' tr'. FbmCreate m (ps, pn) (qs, qn) bufsize ci w tr = Ok (r, w', tr') \<and> world_inv w' \<and>
    (\<forall>h. r = Some h \<longrightarrow> fbm_sel h w' \<noteq> None)"
proof -
  have inv: "world_inv v"
    if "\<And>f. vfi_pFbmFirst v = Some f \<Longrightarrow> (\<exists>s. fbm_rel f s) \<and> fbm_pFbmInfo f"
      "\<And>f. vfi_pFbmSecond v = Some f \<Longrightarrow> (\<exists>s. fbm_rel f s) \<and> fbm_pFbmInfo f"
      "vfi_pMajorDispFrame v = None" "vfi_pMajorDecoderFrame v = None" for v
    using that fbm_rel_iff by (auto simp: world_inv_iff fbm_sel_def split: fbm_handle.splits)
  have create: "\<exists>p w' tr'. FbmCreateBuffer m xs xn ci v t = Ok (p, w', tr') \<and>
      (\<forall>f. p = Some f \<longrightarrow> (\<exists>s. fbm_rel f s) \<and> fbm_pFbmInfo f) \<and>
      vfi_pFbmFirst w' = vfi_pFbmFirst v \<and> vfi_pFbmSecond w' = vfi_pFbmSecond v \<and>
      vfi_pMajorDispFrame w' = vfi_pMajorDispFrame v \<and>
      vfi_pMajorDecoderFrame w' = vfi_pMajorDecoderFrame v" for xs xn v t
    by (rule FbmCreateBuffer_cases [OF assms(1,2), of m xs xn v t]) auto
  show ?thesis
  proof (cases "vfi_bIs3DStream w = 1 \<and> fci_bGpuBufValid ci = 1")
    case False
    obtain p w1 tr1 where "FbmCreateBuffer m ps pn ci w tr = Ok (p, w1, tr1)"
      "\<forall>f. p = Some f \<longrightarrow> (\<exists>s. fbm_rel f s) \<and> fbm_pFbmInfo f"
      "vfi_pFbmSecond w1 = vfi_pFbmSecond w" "vfi_pMajorDispFrame w1 = vfi_pMajorDispFrame w"
      "vfi_pMajorDecoderFrame w1 = vfi_pMajorDecoderFrame w"
      using create by blast
    then show ?thesis
      using False assms(3-6) inv [of "w1\<lparr>vfi_pFbmFirst := p\<rparr>"]
      by (auto simp: FbmCreate_def fbm_sel_def)
  next
    case True
    let ?w0 = "w\<lparr>vfi_bTwoStreamShareOneFbm := 1\<rparr>"
    obtain p w1 tr1 where p: "FbmCreateBuffer m ps pn ci ?w0 tr = Ok (p, w1, tr1)"
      "\<forall>f. p = Some f \<longrightarrow> (\<exists>s. fbm_rel f s) \<and> fbm_pFbmInfo f"
      "vfi_pFbmFirst w1 = None" "vfi_pFbmSecond w1 = None" "vfi_pMajorDispFrame w1 = None"
      "vfi_pMajorDecoderFrame w1 = None"
      using create [of ps pn ?w0 tr] assms(3-6) by auto
    show ?thesis
    proof (cases p)
      case None
      then show ?thesis using True assms(3) p inv [of w1] by (auto simp: FbmCreate_def Let_def)
    next
      case (Some f)
      let ?w1 = "w1\<lparr>vfi_pFbmFirst := Some f\<rparr>"
      obtain q w2 tr2 where q: "FbmCreateBuffer m qs qn ci ?w1 tr1 = Ok (q, w2, tr2)"
        "\<forall>f. q = Some f \<longrightarrow> (\<exists>s. fbm_rel f s) \<and> fbm_pFbmInfo f"
        "vfi_pFbmFirst w2 = Some f" "vfi_pMajorDispFrame w2 = None" "vfi_pMajorDecoderFrame w2 = None"
        using create [of qs qn ?w1 tr1] p by auto
      obtain y c where "bufsize (fbi_ePixelFormat (vfi_pFbmBufInfo w2)) (fbi_nBufWidth (vfi_pFbmBufInfo w2))
          (fbi_nBufHeight (vfi_pFbmBufInfo w2)) (fbi_nAlignValue (vfi_pFbmBufInfo w2)) = (y, c)"
        by (metis prod.exhaust)
      then show ?thesis
        using True Some assms(3) p q
          inv [of "w2\<lparr>vfi_pFbmSecond := q, vfi_nMinorYBufOffset := y, vfi_nMinorCBufOffset := 2 * c\<rparr>"]
        by (simp add: FbmCreate_def Let_def fbm_sel_def)
    qed
  qed
qed

theorem fbm_create_establishes_inv_witness:
  "\<exists>r w' tr'. FbmCreate memops_example (16, 32) (48, 64) (\<lambda>f x y a. (x * y, x * y div 4)) create_example
       (info_example None None 1) [] = Ok (r, w', tr') \<and> world_inv w' \<and>
     (\<forall>h. r = Some h \<longrightarrow> fbm_sel h w' \<noteq> None)"
  by (rule fbm_create_establishes_inv) (simp_all add: create_example_def info_example_def)

text \<open>C26: Layout of a planar picture buffer. For a frame of up to 8192 x 8192 pixels and an
  alignment that is a power of two between 4 and 1024 (or 0, which means 16), a successful
  \<open>FbmAllocatePictureBuffer\<close> sets a stride and a height that are the smallest aligned ones, takes
  one block, and the planes Y, C1 (and C2, except for NV21, which interleaves them) lie in it one
  after the other without overlap and without a gap: with chroma planes of a quarter, a half or
  the whole of the luminance plane according to the format.\<close>

theorem planar_buffer_layout:
  assumes "is_planar (vp_ePixelFormat p)" "a = 2 ^ k" "4 \<le> a" "a \<le> 1024" "al = a \<or> al = 0 \<and> a = 16"
    "0 < wd" "wd \<le> 8192" "0 < ht" "ht \<le> 8192"
    "FbmAllocatePictureBuffer m p al wd ht tr = (0, v, al1, tr1)"
  shows "al1 = a \<and> vp_nWidth v = vp_nLineStride v \<and>
    wd \<le> vp_nWidth v \<and> vp_nWidth v < wd + a \<and> a dvd vp_nWidth v \<and>
    ht \<le> vp_nHeight v \<and> vp_nHeight v < ht + a \<and> a dvd vp_nHeight v \<and>
    (\<exists>y c n. y = vp_nWidth v * vp_nHeight v \<and> n = y + 2 * c \<and> vp_pData0 v = mo_palloc m tr n \<and>
       tr1 = tr @ [Alloc (vp_pData0 v)] \<and>
       c = (if vp_ePixelFormat p = PIXEL_FORMAT_YUV_PLANER_422 then y div 2
            else if vp_ePixelFormat p = PIXEL_FORMAT_YUV_PLANER_444 then y else y div 4) \<and>
       vp_pData1 v = vp_pData0 v + y \<and>
       (vp_ePixelFormat p \<noteq> PIXEL_FORMAT_NV21 \<longrightarrow>
          vp_pData2 v = vp_pData1 v + c \<and> vp_pData2 v + c = vp_pData0 v + n))"
proof -
  define W H where "W = align_up wd a" and "H = align_up ht a"
  define Y where "Y = W * H"
  define fmt where "fmt = vp_ePixelFormat p"
  define C where "C = (if fmt = 2 then Y div 2 else if fmt = 3 then Y else Y div 4)"
  define Q where "Q = mo_palloc m tr (Y + C * 2)"
  define p0 where "p0 = p\<lparr>vp_pData0 := 0, vp_pData1 := 0, vp_pData2 := 0, vp_pData3 := 0\<rparr>"
  define p2 where "p2 = p0\<lparr>vp_nLineStride := W, vp_nWidth := W, vp_nHeight := H, vp_pData0 := Q,
    vp_pData1 := Q + Y, vp_pData2 := (if fmt \<noteq> 5 then Q + Y + C else 0), vp_pData3 := 0\<rparr>"
  have al: "(if al = 0 then 16 else al) = a" using assms(3,5) by auto
  have w: "wd \<le> W" "W < wd + a" "a dvd W" and h: "ht \<le> H" "H < ht + a" "a dvd H"
    using align_up_pow2 [of wd k] align_up_pow2 [of ht k] assms(2-9) by (auto simp: W_def H_def)
  have "Y \<le> 9216 * 9216" unfolding Y_def using w h assms(4,6-9) by (intro mult_mono) auto
  moreover have "0 \<le> Y" using w h assms(6,8) by (simp add: Y_def)
  ultimately have y: "i32 (W * H) = Y" "0 \<le> Y" "Y \<le> 84934656"
    unfolding Y_def by (auto intro!: i32_id simp: int32_range_def)
  have f: "fmt = 1 \<or> fmt = 2 \<or> fmt = 3 \<or> fmt = 4 \<or> fmt = 5"
    using assms(1) by (auto simp: is_planar_def fmt_def)
  have n: "i32 (Y + C * 2) = Y + C * 2" unfolding C_def by (rule chroma_size [OF y(2,3)])
  have c: "(if vp_ePixelFormat p0 = 1 \<or> vp_ePixelFormat p0 = 4 \<or> vp_ePixelFormat p0 = 5 then drop_bit 2 Y
      else if vp_ePixelFormat p0 = 2 then drop_bit 1 Y else Y) = C"
    using f by (auto simp: drop_bit_eq_div C_def p0_def fmt_def)
  have p0: "vp_ePixelFormat p0 = fmt" by (simp add: p0_def fmt_def)
  have sw: "alloc_switch m p0 al wd ht tr =
      (if Q = 0 then (False, p0\<lparr>vp_nLineStride := W, vp_nWidth := W, vp_nHeight := H\<rparr>, a, tr)
       else (True, p2, a, tr @ [Alloc Q]))"
    using alloc_planar_eq [OF al W_def [symmetric] H_def [symmetric] y(1) c n Q_def [symmetric]]
      assms(1) p0 by (simp add: alloc_switch_def p2_def fmt_def)
  have q: "Q \<noteq> 0"
    using assms(10) sw by (auto simp: FbmAllocatePictureBuffer_def p0_def [symmetric] Let_def)
  then have e: "al1 = a" "tr1 = tr @ [Alloc Q]" "vp_nWidth v = vp_nWidth p2"
    "vp_nLineStride v = vp_nLineStride p2" "vp_nHeight v = vp_nHeight p2" "vp_pData0 v = vp_pData0 p2"
    "vp_pData1 v = vp_pData1 p2" "vp_pData2 v = vp_pData2 p2"
    using assms(10) sw
    by (auto simp: FbmAllocatePictureBuffer_def p0_def [symmetric] Let_def split: if_splits)
  then show ?thesis
    using w h f unfolding Y_def [symmetric]
    by (auto simp: p2_def C_def Q_def fmt_def Y_def [symmetric] mult.commute [of _ 2])
qed

definition picture_example :: VideoPicture where
  "picture_example = vp_zero\<lparr>vp_ePixelFormat := PIXEL_FORMAT_YV12, vp_nWidth := 1280, vp_nHeight := 720\<rparr>"

theorem planar_buffer_layout_witness:
  "\<exists>v tr1. FbmAllocatePictureBuffer memops_example picture_example 0 1280 720 [] = (0, v, 16, tr1) \<and>
     vp_nWidth v = vp_nLineStride v \<and> 1280 \<le> vp_nWidth v \<and> 720 \<le> vp_nHeight v \<and>
     vp_pData1 v = vp_pData0 v + vp_nWidth v * vp_nHeight v"
proof -
  obtain r v al1 tr1 where e: "FbmAllocatePictureBuffer memops_example picture_example 0 1280 720 [] =
      (r, v, al1, tr1)" by (metis prod_cases4)
  moreover have "r = 0"
    using e by (simp add: FbmAllocatePictureBuffer_def alloc_switch_def alloc_planar_def is_planar_def
        picture_example_def vp_zero_def memops_example_def Let_def)
  moreover have "is_planar (vp_ePixelFormat picture_example)"
    by (simp add: picture_example_def is_planar_def)
  ultimately show ?thesis
    using planar_buffer_layout [of picture_example 16 4 0 1280 720 memops_example "[]" v al1 tr1] by auto
qed

end
