(* ===== verification/Vdecoder.thy ===== *)
theory Vdecoder
  imports Sbm Fbm_Alloc
begin

text \<open>
  The application interface of the video decoder, \<open>libcedarc/vdecoder/vdecoder.c\<close>: how demuxer
  and renderer reach the stream buffer managers and the frame buffer managers. Modelled are the
  functions that hand out space for bitstream data, collect the parts of a frame and submit it,
  the functions that move pictures, and the sizing of the stream buffer. The video engine is a
  prebuilt library: \<open>getFbm\<close> is its \<open>VideoEngineGetFbm\<close>, the managers of its pictures are the
  state \<open>vdc_fbmInfo\<close> that the engine and this file share. Start-up, the decode call and the
  shut-down, which run the engine, are not modelled.
\<close>

section \<open>Data\<close>

record VideoStreamInfo =
  vsi_eCodecFormat :: int
  vsi_nWidth :: int
  vsi_nHeight :: int
  vsi_nFrameRate :: int

record VConfig =
  vc_bScaleDownEn :: int
  vc_bRotationEn :: int
  vc_nHorizonScaleDownRatio :: nat
  vc_nVerticalScaleDownRatio :: nat
  vc_nRotateDegree :: int
  vc_bThumbnailMode :: int
  vc_eOutputPixelFormat :: int
  vc_nVbvBufferSize :: int
  vc_bVirMallocSbm :: int

text \<open>\<open>vdc_fbmInfo\<close> is the \<open>fbmInfo\<close> of the engine, \<open>None\<close> when \<open>pVideoEngine\<close> is \<open>NULL\<close>.\<close>

record VideoDecoderContext =
  vdc_vconfig :: VConfig
  vdc_videoStreamInfo :: VideoStreamInfo
  vdc_fbmInfo :: "FbmWorld option"
  vdc_pFbm :: "fbm_handle option list"
  vdc_pSbm :: "Sbm option list"
  vdc_partialStreamDataInfo :: "VideoStreamDataInfo list"

abbreviation (input) VIDEO_CODEC_FORMAT_MJPEG :: int where "VIDEO_CODEC_FORMAT_MJPEG \<equiv> 0x101"
abbreviation (input) VIDEO_CODEC_FORMAT_MPEG1 :: int where "VIDEO_CODEC_FORMAT_MPEG1 \<equiv> 0x102"
abbreviation (input) VIDEO_CODEC_FORMAT_MPEG2 :: int where "VIDEO_CODEC_FORMAT_MPEG2 \<equiv> 0x103"
abbreviation (input) VIDEO_CODEC_FORMAT_RX :: int where "VIDEO_CODEC_FORMAT_RX \<equiv> 0x114"

definition CreateVideoDecoder :: "bool \<Rightarrow> VideoDecoderContext option" where
  "CreateVideoDecoder okMalloc =
     (if \<not> okMalloc then None
      else Some
        \<lparr>vdc_vconfig = \<lparr>vc_bScaleDownEn = 0, vc_bRotationEn = 0, vc_nHorizonScaleDownRatio = 0,
           vc_nVerticalScaleDownRatio = 0, vc_nRotateDegree = 0, vc_bThumbnailMode = 0,
           vc_eOutputPixelFormat = 0, vc_nVbvBufferSize = 0, vc_bVirMallocSbm = 0\<rparr>,
         vdc_videoStreamInfo = \<lparr>vsi_eCodecFormat = 0, vsi_nWidth = 0, vsi_nHeight = 0, vsi_nFrameRate = 0\<rparr>,
         vdc_fbmInfo = None, vdc_pFbm = [None, None], vdc_pSbm = [None, None],
         vdc_partialStreamDataInfo =
           [vsd_zero\<lparr>vsd_nStreamIndex := 0, vsd_nPts := -1\<rparr>, vsd_zero\<lparr>vsd_nStreamIndex := 1, vsd_nPts := -1\<rparr>]\<rparr>)"

section \<open>The bitstream side\<close>

text \<open>The two segments that start at \<open>pStart\<close> and hold \<open>nFreeSize\<close> bytes of the cyclic buffer:
  \<open>*ppBuf\<close>, \<open>*pBufSize\<close>, \<open>*ppRingBuf\<close>, \<open>*pRingBufSize\<close>.\<close>

definition vdec_segments :: "Sbm \<Rightarrow> addr \<Rightarrow> int \<Rightarrow> addr \<times> int \<times> addr \<times> int" where
  "vdec_segments s pStart nFreeSize =
     (let pStreamBufEnd = SbmBufferAddress (Some s) + SbmBufferSize (Some s) in
      if pStart + nFreeSize \<le> pStreamBufEnd then (pStart, nFreeSize, 0, 0)
      else (pStart, pStreamBufEnd - pStart, SbmBufferAddress (Some s), nFreeSize - (pStreamBufEnd - pStart)))"

definition RequestVideoStreamBuffer ::
  "VideoDecoderContext \<Rightarrow> int \<Rightarrow> int \<Rightarrow> (int \<times> addr \<times> int \<times> addr \<times> int) exec" where
  "RequestVideoStreamBuffer p nRequireSize nStreamBufIndex =
     ebind (arr_get (vdc_pSbm p) nStreamBufIndex) (\<lambda>pSbm. case pSbm of
         None \<Rightarrow> Ok (-1, 0, 0, 0, 0)
       | Some s \<Rightarrow>
           ebind (arr_get (vdc_partialStreamDataInfo p) nStreamBufIndex) (\<lambda>part.
           let need = i32 ((if nRequireSize = 0 then 4 else nRequireSize) + vsd_nLength part) in
           case SbmRequestBuffer 0 (Some s) need (Some 0) (Some 0) of
             (r, Some pMem, Some nFreeSize) \<Rightarrow>
               if r < 0 then Ok (-1, 0, 0, 0, 0)
               else if nFreeSize \<le> vsd_nLength part then Ok (-1, 0, 0, 0, 0)
               else
                 (let pStreamBufEnd = SbmBufferAddress (Some s) + SbmBufferSize (Some s);
                      pStart0 = pMem + vsd_nLength part;
                      pStart = (if pStreamBufEnd \<le> pStart0 then pStart0 - SbmBufferSize (Some s) else pStart0)
                  in case vdec_segments s pStart (nFreeSize - vsd_nLength part) of
                       (a, n, b, m) \<Rightarrow> Ok (0, a, n, b, m))
           | _ \<Rightarrow> Fault))"

text \<open>\<open>FlushSbmData\<close>: the address ranges it flushes from the cache.\<close>

definition FlushSbmData ::
  "VideoDecoderContext \<Rightarrow> Sbm \<Rightarrow> VideoStreamDataInfo \<Rightarrow> (addr \<times> int) list" where
  "FlushSbmData p s part =
     (if vc_bVirMallocSbm (vdc_vconfig p) = 0 then
        (let pStreamBufEnd = SbmBufferAddress (Some s) + SbmBufferSize (Some s) in
         if vsd_pData part + vsd_nLength part \<le> pStreamBufEnd then [(vsd_pData part, vsd_nLength part)]
         else
           (let nPartialLen = pStreamBufEnd - vsd_pData part in
            [(vsd_pData part, nPartialLen),
             (SbmBufferAddress (Some s), vsd_nLength part - nPartialLen)]))
      else [])"

text \<open>The part of \<open>SubmitVideoStreamData\<close> for a new stream frame: a frame that was not completed
  is submitted as it is, then the record of the frame in progress starts over.\<close>

definition vdec_first_part ::
  "VideoDecoderContext \<Rightarrow> Sbm \<Rightarrow> VideoStreamDataInfo \<Rightarrow> VideoStreamDataInfo
     \<Rightarrow> (Sbm \<times> VideoStreamDataInfo \<times> (addr \<times> int) list) exec" where
  "vdec_first_part p s part d =
     ebind
       (if vsd_nLength part \<noteq> 0
        then ebind (SbmAddStream 0 (Some s) (Some part)) (\<lambda>(_, s', part').
               Ok (the s', the part', FlushSbmData p s part))
        else Ok (s, part, [])) (\<lambda>(s1, part1, fl).
       Ok (s1, part1\<lparr>vsd_pData := vsd_pData d, vsd_nLength := vsd_nLength d, vsd_nPts := vsd_nPts d,
                     vsd_nPcr := vsd_nPcr d, vsd_bIsFirstPart := vsd_bIsFirstPart d,
                     vsd_bIsLastPart := 0, vsd_bVideoInfoFlag := vsd_bVideoInfoFlag d,
                     vsd_pVideoInfo := vsd_pVideoInfo d\<rparr>, fl))"

definition vdec_next_part :: "VideoStreamDataInfo \<Rightarrow> VideoStreamDataInfo \<Rightarrow> VideoStreamDataInfo" where
  "vdec_next_part part d =
     part\<lparr>vsd_nLength := i32 (vsd_nLength part + vsd_nLength d),
          vsd_nPts := (if vsd_nPts part = -1 \<and> vsd_nPts d \<noteq> -1 then vsd_nPts d else vsd_nPts part)\<rparr>"

text \<open>The record of the frame in progress after the frame was submitted.\<close>

definition vdec_cleared :: "VideoStreamDataInfo \<Rightarrow> VideoStreamDataInfo" where
  "vdec_cleared part =
     part\<lparr>vsd_pData := 0, vsd_nLength := 0, vsd_nPts := -1, vsd_nPcr := -1, vsd_bIsLastPart := 0,
          vsd_bIsFirstPart := 0, vsd_bVideoInfoFlag := 0, vsd_pVideoInfo := 0\<rparr>"

definition vdec_last_part ::
  "VideoDecoderContext \<Rightarrow> Sbm \<Rightarrow> VideoStreamDataInfo
     \<Rightarrow> (Sbm \<times> VideoStreamDataInfo \<times> (addr \<times> int) list) exec" where
  "vdec_last_part p s part =
     ebind (SbmAddStream 0 (Some s) (Some part)) (\<lambda>(_, s', part').
       Ok (the s', vdec_cleared (the part'),
           if vsd_pData part \<noteq> 0 \<and> vsd_nLength part \<noteq> 0 then FlushSbmData p s part else []))"

text \<open>The result is the return code, the new state and the ranges flushed from the cache.\<close>

definition SubmitVideoStreamData ::
  "VideoDecoderContext \<Rightarrow> VideoStreamDataInfo \<Rightarrow> int
     \<Rightarrow> (int \<times> VideoDecoderContext \<times> (addr \<times> int) list) exec" where
  "SubmitVideoStreamData p d nStreamBufIndex =
     ebind (arr_get (vdc_pSbm p) nStreamBufIndex) (\<lambda>pSbm. case pSbm of
         None \<Rightarrow> Ok (-1, p, [])
       | Some s \<Rightarrow>
           ebind (arr_get (vdc_partialStreamDataInfo p) nStreamBufIndex) (\<lambda>part.
           ebind (if vsd_bIsFirstPart d \<noteq> 0 then vdec_first_part p s part d
                  else Ok (s, vdec_next_part part d, [])) (\<lambda>(s1, part1, fl1).
           ebind (if vsd_bIsLastPart d \<noteq> 0 then vdec_last_part p s1 part1 else Ok (s1, part1, []))
             (\<lambda>(s2, part2, fl2).
           ebind (arr_set (vdc_pSbm p) nStreamBufIndex (Some s2)) (\<lambda>sbms.
           ebind (arr_set (vdc_partialStreamDataInfo p) nStreamBufIndex part2) (\<lambda>parts.
             Ok (0, p\<lparr>vdc_pSbm := sbms, vdc_partialStreamDataInfo := parts\<rparr>, fl1 @ fl2)))))))"

definition VideoStreamBufferSize :: "VideoDecoderContext \<Rightarrow> int \<Rightarrow> int exec" where
  "VideoStreamBufferSize p i = ebind (arr_get (vdc_pSbm p) i) (\<lambda>s. Ok (SbmBufferSize s))"

definition VideoStreamDataSize :: "VideoDecoderContext \<Rightarrow> int \<Rightarrow> int exec" where
  "VideoStreamDataSize p i = ebind (arr_get (vdc_pSbm p) i) (\<lambda>s. Ok (SbmStreamDataSize s))"

definition VideoStreamFrameNum :: "VideoDecoderContext \<Rightarrow> int \<Rightarrow> int exec" where
  "VideoStreamFrameNum p i = ebind (arr_get (vdc_pSbm p) i) (\<lambda>s. Ok (SbmStreamFrameNum s))"

definition VideoStreamDataInfoPointer :: "VideoDecoderContext \<Rightarrow> int \<Rightarrow> addr exec" where
  "VideoStreamDataInfoPointer p i = ebind (arr_get (vdc_pSbm p) i) (\<lambda>s. SbmBufferDataInfo 0 s)"

definition DecideStreamBufferSize :: "VideoDecoderContext \<Rightarrow> int" where
  "DecideStreamBufferSize p =
     (let c = vdc_vconfig p;
          fmt = vsi_eCodecFormat (vdc_videoStreamInfo p);
          h0 = vsi_nHeight (vdc_videoStreamInfo p)
      in if 0x10000 \<le> vc_nVbvBufferSize c \<and> vc_nVbvBufferSize c \<le> 0x800000 then vc_nVbvBufferSize c
         else if vc_eOutputPixelFormat c = PIXEL_FORMAT_RGBA \<and> fmt = VIDEO_CODEC_FORMAT_MJPEG \<and>
                 vc_nVbvBufferSize c \<noteq> 0 then vc_nVbvBufferSize c
         else
           (let h = (if h0 = 0 then 1080 else h0);
                n0 = (if h < 480 then 2 * 1024 * 1024
                      else if h < 720 then 4 * 1024 * 1024
                      else if h < 1080 then 6 * 1024 * 1024
                      else if h < 2160 then 8 * 1024 * 1024
                      else 32 * 1024 * 1024);
                n1 = (if fmt = VIDEO_CODEC_FORMAT_MJPEG \<or> fmt = VIDEO_CODEC_FORMAT_MPEG1 \<or>
                         fmt = VIDEO_CODEC_FORMAT_MPEG2 then n0 + 2 * 1024 * 1024 else n0);
                n2 = (if fmt = VIDEO_CODEC_FORMAT_RX then 16 * 1024 * 1024 else n1)
            in if vc_bThumbnailMode c = 1 then min (c_div n2 2) (4 * 1024 * 1024) else n2))"

section \<open>The picture side\<close>

text \<open>The stream information follows the pictures: rotation by 90 or 270 degrees swaps the sides,
  a scaled picture is counted at its full size.\<close>

definition UpdateVideoStreamInfo :: "VideoDecoderContext \<Rightarrow> VideoPicture \<Rightarrow> VideoDecoderContext" where
  "UpdateVideoStreamInfo p pic =
     (let c = vdc_vconfig p;
          i = vdc_videoStreamInfo p;
          (wd, ht) = (if vc_bRotationEn c = 0 \<or> vc_nRotateDegree c = 0 \<or> vc_nRotateDegree c = 3
                      then (vp_nWidth pic, vp_nHeight pic) else (vp_nHeight pic, vp_nWidth pic));
          (W, H) = (if vc_bScaleDownEn c = 0 then (wd, ht)
                    else (i32 (push_bit (vc_nHorizonScaleDownRatio c) wd),
                          i32 (push_bit (vc_nVerticalScaleDownRatio c) ht)));
          i1 = i\<lparr>vsi_nWidth := W, vsi_nHeight := H\<rparr>;
          i2 = (if vsi_nFrameRate i \<noteq> vp_nFrameRate pic \<and> vp_nFrameRate pic \<noteq> 0
                then i1\<lparr>vsi_nFrameRate := vp_nFrameRate pic\<rparr> else i1)
      in p\<lparr>vdc_videoStreamInfo := i2\<rparr>)"

text \<open>The prologue of the picture functions: the manager of the stream, fetched from the engine the
  first time.\<close>

definition vdec_fetch_fbm ::
  "(int \<Rightarrow> FbmWorld \<Rightarrow> fbm_handle option) \<Rightarrow> VideoDecoderContext \<Rightarrow> int \<Rightarrow> VideoDecoderContext exec" where
  "vdec_fetch_fbm getFbm p i =
     (case vdc_fbmInfo p of
        None \<Rightarrow> Ok p
      | Some w \<Rightarrow> ebind (arr_set (vdc_pFbm p) i (getFbm i w)) (\<lambda>hs. Ok (p\<lparr>vdc_pFbm := hs\<rparr>)))"

text \<open>What \<open>RequestPicture\<close> and \<open>NextPictureInfo\<close> do with a picture they found: mark it with the
  stream and update the stream information. \<open>w\<close> is the state of the managers.\<close>

definition vdec_mark_picture ::
  "VideoDecoderContext \<Rightarrow> FbmWorld \<Rightarrow> pic_ptr \<Rightarrow> int \<Rightarrow> VideoDecoderContext exec" where
  "vdec_mark_picture p w q i = ebind (pic_get w q) (\<lambda>v.
     let v1 = v\<lparr>vp_nStreamIndex := i\<rparr> in
     ebind (pic_set q v1 w) (\<lambda>w1. Ok (UpdateVideoStreamInfo (p\<lparr>vdc_fbmInfo := Some w1\<rparr>) v1)))"

definition RequestPicture ::
  "(int \<Rightarrow> FbmWorld \<Rightarrow> fbm_handle option) \<Rightarrow> VideoDecoderContext \<Rightarrow> int
     \<Rightarrow> (pic_ptr option \<times> VideoDecoderContext) exec" where
  "RequestPicture getFbm p nStreamIndex =
     ebind (arr_get (vdc_pFbm p) nStreamIndex) (\<lambda>h0.
     ebind (if h0 = None then vdec_fetch_fbm getFbm p nStreamIndex else Ok p) (\<lambda>p1.
     ebind (arr_get (vdc_pFbm p1) nStreamIndex) (\<lambda>h. case (h, vdc_fbmInfo p1) of
         (Some _, Some w) \<Rightarrow>
           ebind (FbmRequestPicture h w) (\<lambda>(r, w1). case r of
               None \<Rightarrow> Ok (None, p1\<lparr>vdc_fbmInfo := Some w1\<rparr>)
             | Some q \<Rightarrow> ebind (vdec_mark_picture p1 w1 q nStreamIndex) (\<lambda>p2. Ok (Some q, p2)))
       | (None, _) \<Rightarrow> Ok (None, p1)
       | (Some _, None) \<Rightarrow> Fault)))"

definition ReturnPicture ::
  "VideoDecoderContext \<Rightarrow> pic_ptr option \<Rightarrow> (int \<times> VideoDecoderContext) exec" where
  "ReturnPicture p pPicture =
     (case pPicture of
        None \<Rightarrow> Ok (0, p)
      | Some q \<Rightarrow> (case vdc_fbmInfo p of
          None \<Rightarrow> Fault
        | Some w \<Rightarrow> ebind (pic_get w q) (\<lambda>v.
            let nStreamIndex = vp_nStreamIndex v in
            if nStreamIndex < 0 \<or> nStreamIndex > 2 then Ok (-1, p)
            else ebind (arr_get (vdc_pFbm p) nStreamIndex) (\<lambda>h.
              if h = None then Ok (-1, p)
              else ebind (FbmReturnPicture h (Some q) w) (\<lambda>(r, w1).
                Ok (r, p\<lparr>vdc_fbmInfo := Some w1\<rparr>))))))"

definition NextPictureInfo ::
  "(int \<Rightarrow> FbmWorld \<Rightarrow> fbm_handle option) \<Rightarrow> VideoDecoderContext \<Rightarrow> int
     \<Rightarrow> (pic_ptr option \<times> VideoDecoderContext) exec" where
  "NextPictureInfo getFbm p nStreamIndex =
     ebind (arr_get (vdc_pFbm p) nStreamIndex) (\<lambda>h. case (h, vdc_fbmInfo p) of
         (None, _) \<Rightarrow> ebind (vdec_fetch_fbm getFbm p nStreamIndex) (\<lambda>p1. Ok (None, p1))
       | (Some _, None) \<Rightarrow> Fault
       | (Some _, Some w) \<Rightarrow> ebind (FbmNextPictureInfo h w) (\<lambda>r. case r of
             None \<Rightarrow> Ok (None, p)
           | Some q \<Rightarrow> ebind (vdec_mark_picture p w q nStreamIndex) (\<lambda>p1. Ok (Some q, p1))))"

text \<open>The four counters share their shape; \<open>num\<close> is the query of the frame buffer manager.\<close>

definition vdec_picture_num ::
  "(fbm_handle option \<Rightarrow> FbmWorld \<Rightarrow> int exec) \<Rightarrow> (int \<Rightarrow> FbmWorld \<Rightarrow> fbm_handle option)
     \<Rightarrow> VideoDecoderContext \<Rightarrow> int \<Rightarrow> (int \<times> VideoDecoderContext) exec" where
  "vdec_picture_num num getFbm p nStreamIndex =
     ebind (arr_get (vdc_pFbm p) nStreamIndex) (\<lambda>h. case (h, vdc_fbmInfo p) of
         (None, _) \<Rightarrow> ebind (vdec_fetch_fbm getFbm p nStreamIndex) (\<lambda>p1. Ok (0, p1))
       | (Some _, None) \<Rightarrow> Fault
       | (Some _, Some w) \<Rightarrow> ebind (num h w) (\<lambda>n. Ok (n, p)))"

definition TotalPictureBufferNum ::
  "(int \<Rightarrow> FbmWorld \<Rightarrow> fbm_handle option) \<Rightarrow> VideoDecoderContext \<Rightarrow> int \<Rightarrow> (int \<times> VideoDecoderContext) exec" where
  "TotalPictureBufferNum = vdec_picture_num FbmTotalBufferNum"

definition EmptyPictureBufferNum ::
  "(int \<Rightarrow> FbmWorld \<Rightarrow> fbm_handle option) \<Rightarrow> VideoDecoderContext \<Rightarrow> int \<Rightarrow> (int \<times> VideoDecoderContext) exec" where
  "EmptyPictureBufferNum = vdec_picture_num FbmEmptyBufferNum"

definition ValidPictureNum ::
  "(int \<Rightarrow> FbmWorld \<Rightarrow> fbm_handle option) \<Rightarrow> VideoDecoderContext \<Rightarrow> int \<Rightarrow> (int \<times> VideoDecoderContext) exec" where
  "ValidPictureNum = vdec_picture_num FbmValidPictureNum"

definition DecoderSendToDisplayPictureNum ::
  "(int \<Rightarrow> FbmWorld \<Rightarrow> fbm_handle option) \<Rightarrow> VideoDecoderContext \<Rightarrow> int \<Rightarrow> (int \<times> VideoDecoderContext) exec" where
  "DecoderSendToDisplayPictureNum = vdec_picture_num FbmGetDisplayBufferNum"

text \<open>The interface for displays that supply the frames.\<close>

definition GetVideoFbmBufInfo ::
  "(int \<Rightarrow> FbmWorld \<Rightarrow> fbm_handle option) \<Rightarrow> VideoDecoderContext option \<Rightarrow> FbmBufInfo option" where
  "GetVideoFbmBufInfo getFbm pDecoder = (case pDecoder of
       None \<Rightarrow> None
     | Some p \<Rightarrow> (case vdc_fbmInfo p of
         None \<Rightarrow> None
       | Some w \<Rightarrow> if getFbm 0 w = None then None else FbmGetVideoBufferInfo (Some w)))"

definition SetVideoFbmBufAddress ::
  "VideoDecoderContext option \<Rightarrow> pic_ptr \<Rightarrow> int \<Rightarrow> (pic_ptr option \<times> VideoDecoderContext option) exec" where
  "SetVideoFbmBufAddress pDecoder pic bForbidUseFlag = (case pDecoder of
       None \<Rightarrow> Ok (None, None)
     | Some p \<Rightarrow> (case vdc_fbmInfo p of
         None \<Rightarrow> Ok (None, Some p)
       | w \<Rightarrow> ebind (FbmSetFbmBufAddress w pic bForbidUseFlag) (\<lambda>(r, w1). Ok (r, Some (p\<lparr>vdc_fbmInfo := w1\<rparr>)))))"

definition SetVideoFbmBufRelease ::
  "VideoDecoderContext option \<Rightarrow> (int \<times> VideoDecoderContext option) exec" where
  "SetVideoFbmBufRelease pDecoder = (case pDecoder of
       None \<Rightarrow> Ok (-1, None)
     | Some p \<Rightarrow> (case vdc_fbmInfo p of
         None \<Rightarrow> Ok (-1, Some p)
       | w \<Rightarrow> ebind (FbmSetNewDispRelease w) (\<lambda>(r, w1). Ok (r, Some (p\<lparr>vdc_fbmInfo := w1\<rparr>)))))"

definition RequestReleasePicture ::
  "VideoDecoderContext option \<Rightarrow> (pic_ptr option \<times> VideoDecoderContext option) exec" where
  "RequestReleasePicture pDecoder = (case pDecoder of
       None \<Rightarrow> Ok (None, None)
     | Some p \<Rightarrow> (case vdc_fbmInfo p of
         None \<Rightarrow> Ok (None, Some p)
       | w \<Rightarrow> ebind (FbmRequestReleasePicture w) (\<lambda>(r, w1). Ok (r, Some (p\<lparr>vdc_fbmInfo := w1\<rparr>)))))"

definition ReturnRelasePicture ::
  "VideoDecoderContext option \<Rightarrow> pic_ptr \<Rightarrow> int \<Rightarrow> (pic_ptr option \<times> VideoDecoderContext option) exec" where
  "ReturnRelasePicture pDecoder pic bForbidUseFlag = (case pDecoder of
       None \<Rightarrow> Ok (None, None)
     | Some p \<Rightarrow> (case vdc_fbmInfo p of
         None \<Rightarrow> Ok (None, Some p)
       | w \<Rightarrow> ebind (FbmReturnReleasePicture w pic bForbidUseFlag) (\<lambda>(r, w1). Ok (r, Some (p\<lparr>vdc_fbmInfo := w1\<rparr>)))))"

section \<open>Space for bitstream data\<close>

text \<open>Byte \<open>j\<close> of the cyclic buffer, counted from the write address; the frames in use are the
  bytes just before it, the bytes \<open>- nValidDataSize\<close> to \<open>- 1\<close>.\<close>

definition sbm_byte :: "Sbm \<Rightarrow> int \<Rightarrow> addr" where
  "sbm_byte s j = sbm_pStreamBuffer s + (sbm_pWriteAddr s - sbm_pStreamBuffer s + j) mod sbm_nStreamBufferSize s"

text \<open>The addresses of two segments, in the order the caller fills them.\<close>

definition segment_bytes :: "addr \<Rightarrow> int \<Rightarrow> addr \<Rightarrow> int \<Rightarrow> addr list" where
  "segment_bytes a n b m = [a..a + n - 1] @ [b..b + m - 1]"

definition vdec_inv :: "VideoDecoderContext \<Rightarrow> bool" where
  "vdec_inv p \<longleftrightarrow>
     length (vdc_pSbm p) = 2 \<and> length (vdc_pFbm p) = 2 \<and> length (vdc_partialStreamDataInfo p) = 2 \<and>
     (\<forall>s. Some s \<in> set (vdc_pSbm p) \<longrightarrow> sbm_inv s) \<and>
     (\<forall>d \<in> set (vdc_partialStreamDataInfo p). vsd_good d)"

lemma sbm_byte_inj:
  assumes "0 < sbm_nStreamBufferSize s" "hi - lo \<le> sbm_nStreamBufferSize s"
  shows "inj_on (sbm_byte s) {lo..<hi}"
proof (rule inj_onI)
  fix j k
  assume jk: "j \<in> {lo..<hi}" "k \<in> {lo..<hi}" "sbm_byte s j = sbm_byte s k"
  let ?c = "sbm_pWriteAddr s - sbm_pStreamBuffer s" and ?n = "sbm_nStreamBufferSize s"
  have "(?c + j) mod ?n = (?c + k) mod ?n" using jk(3) by (simp add: sbm_byte_def)
  then have "?n dvd (?c + j) - (?c + k)" by (simp add: mod_eq_dvd_iff)
  then have "?n dvd \<bar>j - k\<bar>" by simp
  moreover have "\<bar>j - k\<bar> < ?n" using jk(1,2) assms(2) by auto
  ultimately show "j = k" using zdvd_imp_le [of ?n "\<bar>j - k\<bar>"] by (cases "j = k") auto
qed

lemma sbm_byte_in_buffer:
  "0 < sbm_nStreamBufferSize s \<Longrightarrow>
    sbm_pStreamBuffer s \<le> sbm_byte s j \<and> sbm_byte s j < sbm_pStreamBuffer s + sbm_nStreamBufferSize s"
  by (simp add: sbm_byte_def)

lemma sbm_byte_near:
  assumes "sbm_inv s" "0 \<le> j" "j < sbm_nStreamBufferSize s"
  shows "sbm_byte s j = (if sbm_pWriteAddr s + j \<le> sbm_pStreamBufferEnd s then sbm_pWriteAddr s + j
    else sbm_pWriteAddr s + j - sbm_nStreamBufferSize s)"
proof -
  let ?c = "sbm_pWriteAddr s - sbm_pStreamBuffer s" and ?n = "sbm_nStreamBufferSize s"
  have b: "0 \<le> ?c" "?c < ?n" "sbm_pStreamBufferEnd s = sbm_pStreamBuffer s + ?n - 1"
    using assms(1) by (auto simp: sbm_inv_def)
  show ?thesis
  proof (cases "?c + j < ?n")
    case True
    then show ?thesis using b assms(2) by (simp add: sbm_byte_def)
  next
    case False
    have "(?c + j) mod ?n = (?c + j - ?n) mod ?n" by simp
    also have "\<dots> = ?c + j - ?n" using b False assms(3) by (intro mod_pos_pos_trivial) auto
    finally have "(?c + j) mod ?n = ?c + j - ?n" .
    then show ?thesis using b False by (simp add: sbm_byte_def)
  qed
qed

text \<open>The consecutive addresses from \<open>a\<close> on are those of consecutive bytes.\<close>

lemma upto_sbm_bytes:
  assumes "\<And>k. 0 \<le> k \<Longrightarrow> k < n \<Longrightarrow> sbm_byte s (j + k) = a + k"
  shows "map (sbm_byte s) [j..j + n - 1] = [a..a + n - 1]"
proof (rule nth_equalityI)
  fix k assume "k < length (map (sbm_byte s) [j..j + n - 1])"
  then show "map (sbm_byte s) [j..j + n - 1] ! k = [a..a + n - 1] ! k"
    using assms [of "int k"] by auto
qed simp

lemma vdec_segments_bytes:
  assumes inv: "sbm_inv s" and "0 \<le> l" "0 < n" "l + n \<le> sbm_nStreamBufferSize s"
    and seg: "vdec_segments s (sbm_byte s l) n = (a, k, b, m)"
  shows "segment_bytes a k b m = map (sbm_byte s) [l..l + n - 1]" "k + m = n" "0 < k" "0 \<le> m"
proof -
  let ?e = "sbm_pStreamBufferEnd s" and ?z = "sbm_nStreamBufferSize s" and ?w = "sbm_pWriteAddr s"
  have e: "?e = sbm_pStreamBuffer s + ?z - 1" "?w \<le> ?e" "0 < ?z" "sbm_pStreamBuffer s \<le> ?w"
    using inv by (auto simp: sbm_inv_def)
  have near: "sbm_byte s (l + i) = (if ?w + (l + i) \<le> ?e then ?w + (l + i) else ?w + (l + i) - ?z)"
    if "0 \<le> i" "i < n" for i
    using sbm_byte_near [OF inv, of "l + i"] assms(2-4) that by auto
  have at: "sbm_byte s l = (if ?w + l \<le> ?e then ?w + l else ?w + l - ?z)"
    using near [of 0] assms(3) by simp
  show "k + m = n" "0 < k" "0 \<le> m"
    using seg assms(3) sbm_byte_in_buffer [OF e(3), of l]
    by (auto simp: vdec_segments_def SbmBufferAddress_def SbmBufferSize_def Let_def split: if_splits)
  show "segment_bytes a k b m = map (sbm_byte s) [l..l + n - 1]"
  proof (cases "sbm_byte s l + n \<le> sbm_pStreamBuffer s + ?z")
    case True
    then have "a = sbm_byte s l" "k = n" "m = 0"
      using seg by (auto simp: vdec_segments_def SbmBufferAddress_def SbmBufferSize_def)
    moreover have "sbm_byte s (l + i) = sbm_byte s l + i" if "0 \<le> i" "i < n" for i
      using near [OF that] at that True e assms(2) by (auto split: if_splits)
    ultimately show ?thesis using upto_sbm_bytes [of n s l "sbm_byte s l"] by (simp add: segment_bytes_def)
  next
    case False
    define c where "c = sbm_pStreamBuffer s + ?z - sbm_byte s l"
    have r: "a = sbm_byte s l" "k = c" "b = sbm_pStreamBuffer s" "m = n - c"
      using seg False by (auto simp: vdec_segments_def SbmBufferAddress_def SbmBufferSize_def Let_def c_def)
    have k: "0 < c" "c < n" using False sbm_byte_in_buffer [OF e(3), of l] by (auto simp: c_def)
    have w: "sbm_byte s l = ?w + l" "?w + l + c = ?e + 1"
      using at False e assms(2-4) by (auto simp: c_def split: if_splits)
    have 1: "sbm_byte s (l + i) = sbm_byte s l + i" if "0 \<le> i" "i < c" for i
      using near [of i] w that k by auto
    have 2: "sbm_byte s (l + c + i) = sbm_pStreamBuffer s + i" if "0 \<le> i" "i < n - c" for i
    proof -
      have "sbm_byte s (l + (c + i)) = ?w + (l + (c + i)) - ?z" using near [of "c + i"] w that k by auto
      also have "\<dots> = sbm_pStreamBuffer s + i" using w(2) e(1) by simp
      finally show ?thesis by (simp only: add.assoc)
    qed
    have "[l..l + n - 1] = [l..l + c - 1] @ [l + c..l + c + (n - c) - 1]"
      using upto_split2 [of l "l + c - 1" "l + n - 1"] k by (simp add: algebra_simps)
    then show ?thesis
      using upto_sbm_bytes [OF 1] upto_sbm_bytes [of "n - c" s "l + c", OF 2] r
      by (simp add: segment_bytes_def)
  qed
qed

lemma vdec_inv_nth:
  assumes "vdec_inv p" "i \<in> {0, 1}"
  shows "0 \<le> i" "i < 2" "length (vdc_pSbm p) = 2" "length (vdc_partialStreamDataInfo p) = 2"
    "length (vdc_pFbm p) = 2" "nat i < 2" "vsd_good (vdc_partialStreamDataInfo p ! nat i)"
    "vdc_pSbm p ! nat i = Some s \<Longrightarrow> sbm_inv s"
proof -
  have l: "length (vdc_pSbm p) = 2" "length (vdc_partialStreamDataInfo p) = 2" "nat i < 2"
    using assms by (auto simp: vdec_inv_def)
  show "vsd_good (vdc_partialStreamDataInfo p ! nat i)"
    using assms(1) l nth_mem [of "nat i" "vdc_partialStreamDataInfo p"] by (simp add: vdec_inv_def)
  show "vdc_pSbm p ! nat i = Some s \<Longrightarrow> sbm_inv s"
    using assms(1) l nth_mem [of "nat i" "vdc_pSbm p"] by (auto simp: vdec_inv_def)
qed (use assms in \<open>auto simp: vdec_inv_def\<close>)

text \<open>When there is room for a request.\<close>

definition vdec_room :: "Sbm \<Rightarrow> int \<Rightarrow> bool" where
  "vdec_room s n \<longleftrightarrow>
     fifo_nValidFrameNum (sbm_frameFifo s) < fifo_nMaxFrameNum (sbm_frameFifo s) \<and>
     sbm_nValidDataSize s + n + 64 \<le> sbm_nStreamBufferSize s"

lemma SbmRequestBuffer_room:
  assumes "sbm_inv s" "0 \<le> n" "n \<le> 2147483583"
  shows "SbmRequestBuffer 0 (Some s) n (Some b) (Some z) =
    (if vdec_room s n then (0, Some (sbm_pWriteAddr s), Some n) else (-1, Some b, Some z))"
proof -
  have "i32 (n + 64) = n + 64" using assms(2,3) by (simp add: i32_id int32_range_def)
  then show ?thesis using assms(2) by (auto simp: SbmRequestBuffer_def vdec_room_def Let_def)
qed

lemma RequestVideoStreamBuffer_eq:
  fixes p s i n
  defines "L \<equiv> vsd_nLength (vdc_partialStreamDataInfo p ! nat i)"
    and "n' \<equiv> if n = 0 then 4 else n"
  assumes inv: "vdec_inv p" and i: "i \<in> {0, 1}" and s: "vdc_pSbm p ! nat i = Some s"
    and n: "0 \<le> n" "n \<le> 1073741760"
  shows "RequestVideoStreamBuffer p n i =
    (if vdec_room s (n' + L) then
       (case vdec_segments s (sbm_byte s L) n' of (a, k, b, m) \<Rightarrow> Ok (0, a, k, b, m))
     else Ok (-1, 0, 0, 0, 0))"
proof -
  note v = vdec_inv_nth [OF inv i]
  have L: "0 \<le> L" "L \<le> 1073741823" using v(7) by (auto simp: L_def vsd_good_def)
  have n': "0 < n'" "n' \<le> 1073741760" using n by (auto simp: n'_def)
  have e: "i32 (n' + L) = n' + L" using L n' by (simp add: i32_id int32_range_def)
  have req: "SbmRequestBuffer 0 (Some s) (n' + L) (Some 0) (Some 0) =
      (if vdec_room s (n' + L) then (0, Some (sbm_pWriteAddr s), Some (n' + L)) else (-1, Some 0, Some 0))"
    using SbmRequestBuffer_room [OF v(8) [OF s]] L n' by simp
  have g: "arr_get (vdc_pSbm p) i = Ok (Some s)"
    "arr_get (vdc_partialStreamDataInfo p) i = Ok (vdc_partialStreamDataInfo p ! nat i)"
    using v s by (simp_all add: arr_get_def)
  have a: "vdec_room s (n' + L) \<Longrightarrow>
      (if SbmBufferAddress (Some s) + SbmBufferSize (Some s) \<le> sbm_pWriteAddr s + L
       then sbm_pWriteAddr s + L - SbmBufferSize (Some s) else sbm_pWriteAddr s + L) = sbm_byte s L"
    using sbm_byte_near [OF v(8) [OF s], of L] L n' v(8) [OF s] sbm_inv_data_nonneg [OF v(8) [OF s]]
    by (auto simp: vdec_room_def SbmBufferAddress_def SbmBufferSize_def sbm_inv_def)
  show ?thesis
  proof (cases "vdec_room s (n' + L)")
    case True
    show ?thesis
      using e req g a [OF True] n' True unfolding RequestVideoStreamBuffer_def
      by (simp add: L_def [symmetric] n'_def [symmetric] Let_def del: arr_get_Ok)
  next
    case False
    then show ?thesis
      using e req g unfolding RequestVideoStreamBuffer_def
      by (simp add: L_def [symmetric] n'_def [symmetric] Let_def del: arr_get_Ok)
  qed
qed

section \<open>Collecting the parts of a frame\<close>

definition vdec_started :: "VideoStreamDataInfo \<Rightarrow> VideoStreamDataInfo \<Rightarrow> VideoStreamDataInfo" where
  "vdec_started part d =
     part\<lparr>vsd_pData := vsd_pData d, vsd_nLength := vsd_nLength d, vsd_nPts := vsd_nPts d,
          vsd_nPcr := vsd_nPcr d, vsd_bIsFirstPart := vsd_bIsFirstPart d,
          vsd_bIsLastPart := 0, vsd_bVideoInfoFlag := vsd_bVideoInfoFlag d,
          vsd_pVideoInfo := vsd_pVideoInfo d\<rparr>"

definition vdec_upd :: "VideoDecoderContext \<Rightarrow> int \<Rightarrow> Sbm \<Rightarrow> VideoStreamDataInfo \<Rightarrow> VideoDecoderContext" where
  "vdec_upd p i s q = p\<lparr>vdc_pSbm := (vdc_pSbm p)[nat i := Some s],
     vdc_partialStreamDataInfo := (vdc_partialStreamDataInfo p)[nat i := q]\<rparr>"

lemma vdec_upd_nth [simp]:
  "nat i < length (vdc_pSbm p) \<Longrightarrow> vdc_pSbm (vdec_upd p i s q) ! nat i = Some s"
  "nat i < length (vdc_partialStreamDataInfo p) \<Longrightarrow>
    vdc_partialStreamDataInfo (vdec_upd p i s q) ! nat i = q"
  "vdec_upd (vdec_upd p i s q) i s' q' = vdec_upd p i s' q'"
  by (simp_all add: vdec_upd_def)

lemma vdec_cleared_good [simp]: "vsd_good (vdec_cleared q)" "vsd_nLength (vdec_cleared q) = 0"
  by (simp_all add: vdec_cleared_def vsd_good_def)

lemma vdec_inv_upd:
  assumes "vdec_inv p" "sbm_inv s" "vsd_good q"
  shows "vdec_inv (vdec_upd p i s q)"
  using assms set_update_subset_insert [of "vdc_pSbm p" "nat i" "Some s"]
    set_update_subset_insert [of "vdc_partialStreamDataInfo p" "nat i" q]
  by (auto simp: vdec_inv_def vdec_upd_def)

text \<open>One call, when no unfinished frame has to be submitted first: the record of the frame in
  progress, and with the last part what the stream buffer manager makes of it.\<close>

lemma SubmitVideoStreamData_eq:
  fixes p i d
  defines "part \<equiv> vdc_partialStreamDataInfo p ! nat i"
  defines "q \<equiv> if vsd_bIsFirstPart d \<noteq> 0 then vdec_started part d else vdec_next_part part d"
  assumes inv: "vdec_inv p" and i: "i \<in> {0, 1}" and s: "vdc_pSbm p ! nat i = Some s"
    and part: "vsd_bIsFirstPart d \<noteq> 0 \<Longrightarrow> vsd_nLength part = 0" and q: "vsd_good q"
  shows "\<exists>fl. SubmitVideoStreamData p d i = Ok (0,
    (if vsd_bIsLastPart d = 0 then vdec_upd p i s q
     else if sbm_accepts s q then vdec_upd p i (sbm_added s q) (vdec_cleared (vsd_marked q))
     else vdec_upd p i s (vdec_cleared q)), fl)"
proof -
  note v = vdec_inv_nth [OF inv i]
  have g: "arr_get (vdc_pSbm p) i = Ok (Some s)"
    "arr_get (vdc_partialStreamDataInfo p) i = Ok part"
    "arr_set (vdc_pSbm p) i (Some s') = Ok ((vdc_pSbm p)[nat i := Some s'])"
    "arr_set (vdc_partialStreamDataInfo p) i q' = Ok ((vdc_partialStreamDataInfo p)[nat i := q'])" for s' q'
    using v s by (simp_all add: arr_get_def arr_set_def part_def)
  have f: "(if vsd_bIsFirstPart d \<noteq> 0 then vdec_first_part p s part d
      else Ok (s, vdec_next_part part d, [])) = Ok (s, q, [])"
    using part by (simp add: q_def vdec_first_part_def vdec_started_def)
  obtain fl where l: "vdec_last_part p s q =
      Ok (if sbm_accepts s q then (sbm_added s q, vdec_cleared (vsd_marked q), fl)
          else (s, vdec_cleared q, fl))"
    using SbmAddStream_Some [OF v(8) [OF s] q] by (auto simp: vdec_last_part_def)
  have "SubmitVideoStreamData p d i =
      ebind (if vsd_bIsLastPart d \<noteq> 0 then vdec_last_part p s q else Ok (s, q, [])) (\<lambda>(s2, q2, fl2).
        Ok (0, vdec_upd p i s2 q2, fl2))"
    unfolding SubmitVideoStreamData_def vdec_upd_def
    using f by (simp add: g del: arr_get_Ok arr_set_Ok)
  then show ?thesis using l by simp
qed

text \<open>A client that submits the parts one after the other.\<close>

fun vdec_submit_all :: "VideoDecoderContext \<Rightarrow> int \<Rightarrow> VideoStreamDataInfo list \<Rightarrow> VideoDecoderContext exec" where
  "vdec_submit_all p i [] = Ok p"
| "vdec_submit_all p i (d # ds) =
     ebind (SubmitVideoStreamData p d i) (\<lambda>(_, p', _). vdec_submit_all p' i ds)"

text \<open>The presentation time of a frame is the first one its parts carry.\<close>

fun first_pts :: "int list \<Rightarrow> int" where
  "first_pts [] = -1"
| "first_pts (t # ts) = (if t = -1 then first_pts ts else t)"

lemma vdec_next_parts:
  assumes "vsd_good q" "\<forall>d \<in> set ds. 0 \<le> vsd_nLength d"
    "vsd_nLength q + sum_list (map vsd_nLength ds) \<le> 1073741823"
  shows "vsd_nLength (foldl vdec_next_part q ds) = vsd_nLength q + sum_list (map vsd_nLength ds) \<and>
    vsd_pData (foldl vdec_next_part q ds) = vsd_pData q \<and>
    vsd_nPts (foldl vdec_next_part q ds) = first_pts (vsd_nPts q # map vsd_nPts ds)"
  using assms
proof (induction ds arbitrary: q)
  case (Cons d ds)
  have s: "0 \<le> sum_list (map vsd_nLength ds)" using Cons.prems(2) by (auto intro!: sum_list_nonneg)
  then have n: "vsd_nLength (vdec_next_part q d) = vsd_nLength q + vsd_nLength d"
    using Cons.prems by (simp add: vdec_next_part_def i32_id int32_range_def vsd_good_def)
  have g: "vsd_good (vdec_next_part q d)" using n s Cons.prems by (simp add: vsd_good_def)
  have r: "\<forall>x \<in> set ds. 0 \<le> vsd_nLength x"
    "vsd_nLength (vdec_next_part q d) + sum_list (map vsd_nLength ds) \<le> 1073741823"
    using Cons.prems n by auto
  show ?case using Cons.IH [OF g r] n by (simp add: vdec_next_part_def)
qed auto

lemma vdec_submit_rest:
  assumes "vdec_inv p" "i \<in> {0, 1}" "sbm_inv s" "vsd_good q" "\<forall>d \<in> set ds. 0 \<le> vsd_nLength d"
    "vsd_nLength q + sum_list (map vsd_nLength ds) \<le> 1073741823" "ds \<noteq> []"
    "\<forall>d \<in> set ds. vsd_bIsFirstPart d = 0" "\<forall>d \<in> set (butlast ds). vsd_bIsLastPart d = 0"
    "vsd_bIsLastPart (last ds) \<noteq> 0" "sbm_accepts s (foldl vdec_next_part q ds)"
  shows "vdec_submit_all (vdec_upd p i s q) i ds =
    Ok (vdec_upd p i (sbm_added s (foldl vdec_next_part q ds))
         (vdec_cleared (vsd_marked (foldl vdec_next_part q ds))))"
  using assms(4-)
proof (induction ds arbitrary: q)
  case (Cons d ds)
  let ?q = "vdec_next_part q d"
  have "0 \<le> sum_list (map vsd_nLength ds)" using Cons.prems(2) by (auto intro!: sum_list_nonneg)
  then have n: "vsd_nLength ?q = vsd_nLength q + vsd_nLength d" and g: "vsd_good ?q"
    using vdec_next_parts [OF Cons.prems(1), of "[d]"] Cons.prems by (auto simp: vsd_good_def)
  have l: "nat i < length (vdc_pSbm p)" "nat i < length (vdc_partialStreamDataInfo p)"
    using vdec_inv_nth [OF assms(1,2)] by auto
  note e = SubmitVideoStreamData_eq [OF vdec_inv_upd [OF assms(1,3) Cons.prems(1), of i] assms(2),
      of s d, unfolded vdec_upd_nth(1) [OF l(1)] vdec_upd_nth(2) [OF l(2)]]
  show ?case
  proof (cases ds)
    case Nil
    then show ?thesis using e g Cons.prems by auto
  next
    case rest: (Cons d2 ds2)
    have "vdec_submit_all (vdec_upd p i s ?q) i ds =
        Ok (vdec_upd p i (sbm_added s (foldl vdec_next_part ?q ds))
         (vdec_cleared (vsd_marked (foldl vdec_next_part ?q ds))))"
      by (rule Cons.IH [OF g]) (use rest Cons.prems n in auto)
    then show ?thesis using e g rest Cons.prems by auto
  qed
qed simp

section \<open>Pictures\<close>

text \<open>Marking a picture of a manager writes the stream index into it and nothing else of the
  managers.\<close>

lemma vdec_mark_picture_ok:
  assumes inv: "world_inv w" and f: "fbm_sel h w = Some f" and x: "x < length (fbm_pFrames f)"
  shows "\<exists>p' w' f'. vdec_mark_picture p w (PicAt h x) i = Ok p' \<and> vdc_fbmInfo p' = Some w' \<and>
    vdc_pFbm p' = vdc_pFbm p \<and> world_inv w' \<and> fbm_sel h w' = Some f' \<and> fbm_abs f' = fbm_abs f \<and>
    length (fbm_pFrames f') = length (fbm_pFrames f) \<and>
    vfi_bTwoStreamShareOneFbm w' = vfi_bTwoStreamShareOneFbm w \<and>
    (\<exists>v. pic_get w' (PicAt h x) = Ok v \<and> vp_nStreamIndex v = i)"
proof -
  let ?v = "(vpicture (fbm_pFrames f ! x))\<lparr>vp_nStreamIndex := i\<rparr>"
  let ?f = "node_upd x (\<lambda>n. n\<lparr>vpicture := ?v\<rparr>) f"
  have r: "fbm_rel ?f (fbm_abs f)"
    using fbm_rel_picture [of f "fbm_abs f" x ?v] world_inv_sel [OF inv f] x by simp
  then have "world_inv (fbm_put h ?f w)" "fbm_abs ?f = fbm_abs f"
    using world_inv_put [OF inv f] fbm_rel_abs [OF r] by (simp_all add: fbm_fixed_def)
  moreover have "pic_get (fbm_put h ?f w) (PicAt h x) = Ok ?v"
    using pic_get_at [of h "fbm_put h ?f w" ?f x] x by (simp add: node_upd_nth)
  moreover have "pic_set (PicAt h x) ?v w = Ok (fbm_put h ?f w)"
    using f x by (simp add: pic_set_def node_get_def)
  ultimately show ?thesis
    using pic_get_at [OF f x] x
    by (simp add: vdec_mark_picture_def UpdateVideoStreamInfo_def Let_def del: ebind_eq_Ok)
qed

lemma FbmRequestPicture_result:
  assumes "world_inv w" "vfi_bTwoStreamShareOneFbm w \<noteq> 1" "fbm_sel h w = Some f"
    "fs_valid (fbm_abs f) = x # xs"
  shows "\<exists>w' f'. FbmRequestPicture (Some h) w = Ok (Some (PicAt h x), w') \<and> world_inv w' \<and>
    fbm_sel h w' = Some f' \<and> vfi_bTwoStreamShareOneFbm w' = vfi_bTwoStreamShareOneFbm w \<and>
    fbm_abs f' = (fbm_abs f)\<lparr>fs_valid := xs, fs_ren := insert x (fs_ren (fbm_abs f))\<rparr> \<and>
    x < length (fbm_pFrames f')"
proof -
  let ?s = "snd (spec_request_picture (fbm_abs f))"
  obtain w' where w': "FbmRequestPicture (Some h) w = Ok (Some (PicAt h x), w')" "call_result h w f ?s w'"
    using FbmRequestPicture_refines [OF assms(1-3)] assms(4) by (auto simp: spec_request_picture_def)
  obtain f' where f': "fbm_sel h w' = Some f'" "fbm_rel f' ?s"
    using w'(2) by (auto simp: call_result_def split: option.splits)
  have "world_inv w'"
    using FbmRequestPicture_ok [OF assms(1,3)] assms(2) w'(1) by (auto simp: fbm_shared_def)
  moreover have "x < length (fbm_pFrames f')"
    using f'(2) assms(4) by (auto simp: spec_request_picture_def fbm_rel_def fbm_flags_def)
  ultimately show ?thesis
    using w' f' fbm_rel_abs [OF f'(2)] assms(4)
    by (auto simp: call_result_def spec_request_picture_def)
qed

text \<open>The handle \<open>RequestPicture\<close> uses: the one it stored, or what the engine gives.\<close>

definition vdec_handle ::
  "(int \<Rightarrow> FbmWorld \<Rightarrow> fbm_handle option) \<Rightarrow> VideoDecoderContext \<Rightarrow> int \<Rightarrow> FbmWorld \<Rightarrow> fbm_handle option" where
  "vdec_handle getFbm p i w =
     (case vdc_pFbm p ! nat i of None \<Rightarrow> getFbm i w | Some h \<Rightarrow> Some h)"

lemma RequestPicture_result:
  assumes "vdc_fbmInfo p = Some w" "world_inv w" "vfi_bTwoStreamShareOneFbm w \<noteq> 1"
    "length (vdc_pFbm p) = 2" "i \<in> {0, 1}" "vdec_handle getFbm p i w = Some h" "fbm_sel h w = Some f"
    "fs_valid (fbm_abs f) = x # xs"
  shows "\<exists>p' w' f' v. RequestPicture getFbm p i = Ok (Some (PicAt h x), p') \<and>
    vdc_fbmInfo p' = Some w' \<and> length (vdc_pFbm p') = 2 \<and> vdc_pFbm p' ! nat i = Some h \<and>
    world_inv w' \<and> vfi_bTwoStreamShareOneFbm w' \<noteq> 1 \<and> fbm_sel h w' = Some f' \<and>
    fbm_abs f' = (fbm_abs f)\<lparr>fs_valid := xs, fs_ren := insert x (fs_ren (fbm_abs f))\<rparr> \<and>
    x < length (fbm_pFrames f') \<and> pic_get w' (PicAt h x) = Ok v \<and> vp_nStreamIndex v = i"
proof -
  let ?p1 = "p\<lparr>vdc_pFbm := (vdc_pFbm p)[nat i := Some h]\<rparr>"
  have i: "0 \<le> i" "i < 2" "nat i < length (vdc_pFbm p)" using assms(4,5) by auto
  have "(if vdc_pFbm p ! nat i = None then vdec_fetch_fbm getFbm p i else Ok p) = Ok ?p1"
  proof (cases "vdc_pFbm p ! nat i")
    case None
    then show ?thesis
      using assms(1,4,6) i by (simp add: vdec_fetch_fbm_def vdec_handle_def arr_set_def)
  next
    case (Some h')
    then have "(vdc_pFbm p)[nat i := Some h] = vdc_pFbm p"
      using assms(6) i by (auto simp: vdec_handle_def list_update_same_conv)
    then show ?thesis using Some by simp
  qed
  then have e: "RequestPicture getFbm p i =
      ebind (FbmRequestPicture (Some h) w) (\<lambda>(r, w1). case r of
          None \<Rightarrow> Ok (None, ?p1\<lparr>vdc_fbmInfo := Some w1\<rparr>)
        | Some q \<Rightarrow> ebind (vdec_mark_picture ?p1 w1 q i) (\<lambda>p2. Ok (Some q, p2)))"
    using assms(1,4) i by (simp add: RequestPicture_def arr_get_def del: ebind_eq_Ok)
  obtain w1 f1 where 1: "FbmRequestPicture (Some h) w = Ok (Some (PicAt h x), w1)" "world_inv w1"
    "fbm_sel h w1 = Some f1" "vfi_bTwoStreamShareOneFbm w1 = vfi_bTwoStreamShareOneFbm w"
    "fbm_abs f1 = (fbm_abs f)\<lparr>fs_valid := xs, fs_ren := insert x (fs_ren (fbm_abs f))\<rparr>"
    "x < length (fbm_pFrames f1)"
    using FbmRequestPicture_result [OF assms(2,3,7,8)] by auto
  show ?thesis
    using vdec_mark_picture_ok [OF 1(2,3,6), of ?p1 i] e 1 assms(3,4) i by auto
qed

lemma ReturnPicture_result:
  assumes "vdc_fbmInfo p = Some w" "world_inv w" "vfi_bTwoStreamShareOneFbm w \<noteq> 1"
    "length (vdc_pFbm p) = 2" "i \<in> {0, 1}" "vdc_pFbm p ! nat i = Some h" "fbm_sel h w = Some f"
    "x < length (fbm_pFrames f)" "pic_get w (PicAt h x) = Ok v" "vp_nStreamIndex v = i"
    "x \<in> fs_ren (fbm_abs f)"
  shows "\<exists>p' w' f'. ReturnPicture p (Some (PicAt h x)) = Ok (0, p') \<and> vdc_fbmInfo p' = Some w' \<and>
    world_inv w' \<and> fbm_sel h w' = Some f' \<and> fbm_abs f' = snd (spec_return_picture x (fbm_abs f))"
proof -
  have pv: "pic_valid w (PicAt h x)" using assms(7,8) by (simp add: pic_valid_def)
  have nf: "x \<notin> fs_forbid (fbm_abs f)"
    using world_inv_sel [OF assms(2,7)] assms(11) by (auto simp: fbm_rel_def spec_ok_def)
  obtain w' where w': "FbmReturnPicture (Some h) (Some (PicAt h x)) w = Ok (0, w')"
    "call_result h w f (snd (spec_return_picture x (fbm_abs f))) w'"
    using FbmReturnPicture_refines [OF assms(2,3,7) pv] nf assms(11) by auto
  have "world_inv w'" using FbmReturnPicture_ok [OF assms(2,7) pv] w'(1) by auto
  moreover obtain f' where "fbm_sel h w' = Some f'"
    "fbm_abs f' = snd (spec_return_picture x (fbm_abs f))"
    using w'(2) fbm_rel_abs by (auto simp: call_result_def split: option.splits)
  moreover have "ReturnPicture p (Some (PicAt h x)) = Ok (0, p\<lparr>vdc_fbmInfo := Some w'\<rparr>)"
    using assms(1,4-6,9,10) w'(1) by (auto simp: ReturnPicture_def arr_get_def Let_def)
  ultimately show ?thesis by auto
qed

text \<open>The guard of \<open>ReturnPicture\<close> lets the index 2 pass, which the array of handles does not have.\<close>

lemma ReturnPicture_index_two:
  assumes "vdc_fbmInfo p = Some w" "pic_get w q = Ok v" "vp_nStreamIndex v = 2" "length (vdc_pFbm p) = 2"
  shows "ReturnPicture p (Some q) = Fault"
  using assms by (simp add: ReturnPicture_def arr_get_def)

section \<open>Properties\<close>

definition vdec_example :: "Sbm \<Rightarrow> VideoDecoderContext" where
  "vdec_example s = (the (CreateVideoDecoder True))\<lparr>vdc_pSbm := [Some s, None]\<rparr>"

lemma vdec_example_simps [simp]:
  "vdc_pSbm (vdec_example s) = [Some s, None]" "vdc_pFbm (vdec_example s) = [None, None]"
  "vsd_nLength (vdc_partialStreamDataInfo (vdec_example s) ! 0) = 0"
  "vdc_fbmInfo (vdec_example s) = None"
  by (simp_all add: vdec_example_def CreateVideoDecoder_def vsd_zero_def)

lemma vdec_example_inv: "sbm_inv s \<Longrightarrow> vdec_inv (vdec_example s)"
  by (auto simp: vdec_inv_def vdec_example_def CreateVideoDecoder_def vsd_good_def vsd_zero_def)

text \<open>C3: The space handed to the demuxer. \<open>RequestVideoStreamBuffer\<close> refuses exactly when the
  frame table is full or the frames in use, the data of the frame in progress and the request (4
  bytes when it is 0) leave fewer than 64 bytes of the buffer. Otherwise the two segments it hands out are, in
  order, the bytes of the cyclic buffer that follow the data of the frame in progress, as many as requested;
  they lie inside the buffer and meet neither the frames in use nor the frame in progress, since
  these bytes together have pairwise different addresses.\<close>

theorem vdec_request_space:
  fixes p s i n
  defines "L \<equiv> vsd_nLength (vdc_partialStreamDataInfo p ! nat i)"
    and "n' \<equiv> if n = 0 then 4 else n"
  assumes "vdec_inv p" "i \<in> {0, 1}" "vdc_pSbm p ! nat i = Some s" "0 \<le> n" "n \<le> 1073741760"
  shows "if vdec_room s (n' + L)
    then \<exists>a k b m. RequestVideoStreamBuffer p n i = Ok (0, a, k, b, m) \<and> 0 < k \<and> 0 \<le> m \<and> k + m = n' \<and>
      segment_bytes a k b m = map (sbm_byte s) [L..L + n' - 1] \<and>
      set (segment_bytes a k b m) \<subseteq> {sbm_pStreamBuffer s..sbm_pStreamBufferEnd s} \<and>
      inj_on (sbm_byte s) {- sbm_nValidDataSize s..<L + n'}
    else RequestVideoStreamBuffer p n i = Ok (-1, 0, 0, 0, 0)"
proof -
  note v = vdec_inv_nth [OF assms(3,4)]
  note e = RequestVideoStreamBuffer_eq [OF assms(3-7), folded L_def n'_def]
  have s: "sbm_inv s" using v(8) [OF assms(5)] .
  have L: "0 \<le> L" "0 < n'" using v(7) assms(6) by (auto simp: L_def n'_def vsd_good_def)
  show ?thesis
  proof (cases "vdec_room s (n' + L)")
    case True
    obtain a k b m where seg: "vdec_segments s (sbm_byte s L) n' = (a, k, b, m)"
      by (metis prod_cases4)
    have z: "0 < sbm_nStreamBufferSize s" "L + n' - - sbm_nValidDataSize s \<le> sbm_nStreamBufferSize s"
      "L + n' \<le> sbm_nStreamBufferSize s" "sbm_pStreamBufferEnd s = sbm_pStreamBuffer s + sbm_nStreamBufferSize s - 1"
      using s True sbm_inv_data_nonneg [OF s] by (auto simp: sbm_inv_def vdec_room_def)
    note r = vdec_segments_bytes [OF s L z(3) seg]
    have "set (segment_bytes a k b m) \<subseteq> {sbm_pStreamBuffer s..sbm_pStreamBufferEnd s}"
      unfolding r(1) using sbm_byte_in_buffer [OF z(1)] z(4) by force
    then show ?thesis using True e seg r sbm_byte_inj [OF z(1,2)] by simp
  qed (use e in simp)
qed

theorem vdec_request_space_witness:
  "\<exists>a k b m. RequestVideoStreamBuffer (vdec_example sbm_example) 36 0 = Ok (0, a, k, b, m) \<and> k + m = 36 \<and>
     segment_bytes a k b m = map (sbm_byte sbm_example) [0..35] \<and>
     set (segment_bytes a k b m) \<subseteq> {sbm_pStreamBuffer sbm_example..sbm_pStreamBufferEnd sbm_example}"
proof -
  have "vdec_room sbm_example 36" by (simp add: vdec_room_def sbm_example_def sbm_initial_def)
  then show ?thesis
    using vdec_request_space [OF vdec_example_inv [OF sbm_example_inv(1)], of 0 sbm_example 36]
    by auto
qed

text \<open>C16: A frame delivered in any number of parts arrives as one frame. When no frame is in
  progress, the first part carries the address and only it is marked as the first, only the last part is marked as
  the last, and the stream buffer manager has a free table entry and room for all the data, submitting the parts
  appends one frame to the unread frames: its address is that of the first part, its length the sum of
  the lengths, its presentation time the first one given; no frame is in progress afterwards.\<close>

theorem vdec_frame_assembled:
  assumes "vdec_inv p" "i \<in> {0, 1}" "vdc_pSbm p ! nat i = Some s"
    "vsd_nLength (vdc_partialStreamDataInfo p ! nat i) = 0"
    "vsd_bIsFirstPart d \<noteq> 0" "vsd_pData d \<noteq> 0" "\<forall>x \<in> set ds. vsd_bIsFirstPart x = 0"
    "\<forall>x \<in> set (butlast (d # ds)). vsd_bIsLastPart x = 0" "vsd_bIsLastPart (last (d # ds)) \<noteq> 0"
    "\<forall>x \<in> set (d # ds). 0 \<le> vsd_nLength x"
    "fifo_nValidFrameNum (sbm_frameFifo s) < fifo_nMaxFrameNum (sbm_frameFifo s)"
    "sbm_nValidDataSize s + sum_list (map vsd_nLength (d # ds)) \<le> sbm_nStreamBufferSize s"
    "sum_list (map vsd_nLength (d # ds)) \<le> 1073741823"
  shows "\<exists>p' t fr. vdec_submit_all p i (d # ds) = Ok p' \<and> vdec_inv p' \<and> vdc_pSbm p' ! nat i = Some t \<and>
    sbm_unread t = sbm_unread s @ [fr] \<and> sbm_held t = sbm_held s \<and>
    vsd_pData fr = vsd_pData d \<and> vsd_nLength fr = sum_list (map vsd_nLength (d # ds)) \<and>
    vsd_nPts fr = first_pts (map vsd_nPts (d # ds)) \<and> vsd_bValid fr \<noteq> 0 \<and>
    vsd_nLength (vdc_partialStreamDataInfo p' ! nat i) = 0"
proof -
  define q where "q = vdec_started (vdc_partialStreamDataInfo p ! nat i) d"
  define r where "r = foldl vdec_next_part q ds"
  note v = vdec_inv_nth [OF assms(1,2)]
  have s: "sbm_inv s" using v(8) [OF assms(3)] .
  have "0 \<le> sum_list (map vsd_nLength ds)" using assms(10) by (auto intro!: sum_list_nonneg)
  then have q: "vsd_good q" "vsd_nLength q = vsd_nLength d" "vsd_pData q = vsd_pData d" "vsd_nPts q = vsd_nPts d"
    using assms(10,13) by (auto simp: q_def vdec_started_def vsd_good_def)
  have r: "vsd_nLength r = sum_list (map vsd_nLength (d # ds))" "vsd_pData r = vsd_pData d"
    "vsd_nPts r = first_pts (map vsd_nPts (d # ds))"
    using vdec_next_parts [OF q(1), of ds] q assms(10,13) by (auto simp: r_def)
  have a: "sbm_accepts s r" "vsd_good r"
    using r assms(6,10-13) by (auto simp: sbm_accepts_def vsd_good_def intro!: sum_list_nonneg add_nonneg_nonneg)
  note e = SubmitVideoStreamData_eq [OF assms(1-3), of d, folded q_def] q(1) assms(4,5)
  have "vdec_submit_all p i (d # ds) = Ok (vdec_upd p i (sbm_added s r) (vdec_cleared (vsd_marked r)))"
  proof (cases "ds = []")
    case True
    then show ?thesis using e a assms(9) by (auto simp: r_def)
  next
    case False
    then have "vdec_submit_all (vdec_upd p i s q) i ds =
        Ok (vdec_upd p i (sbm_added s r) (vdec_cleared (vsd_marked r)))"
      using vdec_submit_rest [OF assms(1,2) s q(1), of ds] assms(7-10,13) q(2) a(1) by (auto simp: r_def)
    then show ?thesis using e False assms(8) by auto
  qed
  then show ?thesis
    using r sbm_accepted_lists [OF s a(1)] vdec_inv_upd [OF assms(1) sbm_added_inv [OF s a(2,1)] vdec_cleared_good(1)]
      v(3,4,6) by (auto simp: vsd_marked_def vdec_upd_def)
qed

definition vdec_part :: "int \<Rightarrow> int \<Rightarrow> int \<Rightarrow> int \<Rightarrow> VideoStreamDataInfo" where
  "vdec_part n t a b = (vsd_example n)\<lparr>vsd_nPts := t, vsd_bIsFirstPart := a, vsd_bIsLastPart := b\<rparr>"

lemma vdec_part_simps [simp]:
  "vsd_nLength (vdec_part n t a b) = n" "vsd_nPts (vdec_part n t a b) = t" "vsd_pData (vdec_part n t a b) = 4096"
  "vsd_bIsFirstPart (vdec_part n t a b) = a" "vsd_bIsLastPart (vdec_part n t a b) = b"
  by (simp_all add: vdec_part_def vsd_example_def)

theorem vdec_frame_assembled_witness:
  "\<exists>p' t fr. vdec_submit_all (vdec_example sbm_example) 0
       [vdec_part 10 (-1) 1 0, vdec_part 20 7 0 0, vdec_part 30 8 0 1] = Ok p' \<and>
     vdc_pSbm p' ! 0 = Some t \<and> sbm_unread t = [fr] \<and> vsd_nLength fr = 60 \<and> vsd_nPts fr = 7"
proof -
  have "fifo_nValidFrameNum (sbm_frameFifo sbm_example) < fifo_nMaxFrameNum (sbm_frameFifo sbm_example)"
    "sbm_nValidDataSize sbm_example + 60 \<le> sbm_nStreamBufferSize sbm_example"
    by (simp_all add: sbm_example_def sbm_initial_def)
  then show ?thesis
    using vdec_frame_assembled [OF vdec_example_inv [OF sbm_example_inv(1)], of 0 sbm_example
        "vdec_part 10 (-1) 1 0" "[vdec_part 20 7 0 0, vdec_part 30 8 0 1]"] sbm_example_inv(4)
    by (auto simp del: vdec_submit_all.simps)
qed

text \<open>Frame 0 waiting for display, frame 1 empty.\<close>

definition fbm_example_valid :: Fbm where
  "fbm_example_valid = fbm_example\<lparr>fbm_pFrames :=
       [(node_example 0 None)\<lparr>bInValidPictureQueue := True\<rparr>, node_example 1 None],
     fbm_pEmptyBufferQueue := Some 1, fbm_nEmptyBufferNum := 1,
     fbm_pValidPictureQueue := Some 0, fbm_nValidPictureNum := 1, fbm_nWaitForDispNum := 1\<rparr>"

lemma fbm_example_valid_abs:
  "fbm_inv fbm_example_valid" "fbm_abs fbm_example_valid = spec_example\<lparr>fs_empty := [1], fs_valid := [0]\<rparr>"
proof -
  let ?s = "spec_example\<lparr>fs_empty := [1], fs_valid := [0]\<rparr>"
  have "fbm_chains fbm_example_valid ?s"
    by (simp add: fbm_chains_def fbm_example_valid_def fbm_example_def spec_example_def node_next_def)
  moreover have "fbm_flags fbm_example_valid ?s"
    by (simp add: fbm_flags_def fbm_example_valid_def spec_example_def All_less_Suc)
  moreover have "fbm_counts fbm_example_valid ?s" "spec_ok ?s"
    by (simp_all add: fbm_counts_def spec_ok_def fbm_example_valid_def fbm_example_def spec_example_def)
  ultimately have "fbm_rel fbm_example_valid ?s" by (simp add: fbm_rel_def)
  then show "fbm_inv fbm_example_valid" "fbm_abs fbm_example_valid = ?s" using fbm_rel_iff by auto
qed



text \<open>C34: A frame the stream buffer manager refuses is lost silently: when the frame in progress is complete but
  the manager has no table entry or no room for it, \<open>SubmitVideoStreamData\<close> still answers 0, leaves
  every stream buffer manager as it was and forgets the frame.\<close>

theorem vdec_refused_frame_lost:
  assumes "vdec_inv p" "i \<in> {0, 1}" "vdc_pSbm p ! nat i = Some s"
    "vsd_nLength (vdc_partialStreamDataInfo p ! nat i) = 0" "vsd_bIsFirstPart d \<noteq> 0" "vsd_bIsLastPart d \<noteq> 0"
    "vsd_good d" "\<not> sbm_accepts s d"
  shows "\<exists>p' fl. SubmitVideoStreamData p d i = Ok (0, p', fl) \<and> vdc_pSbm p' = vdc_pSbm p \<and>
    vsd_nLength (vdc_partialStreamDataInfo p' ! nat i) = 0"
proof -
  let ?q = "vdec_started (vdc_partialStreamDataInfo p ! nat i) d"
  have q: "vsd_good ?q" "\<not> sbm_accepts s ?q"
    using assms(7,8) by (auto simp: vdec_started_def vsd_good_def sbm_accepts_def)
  obtain fl where "SubmitVideoStreamData p d i = Ok (0, vdec_upd p i s (vdec_cleared ?q), fl)"
    using SubmitVideoStreamData_eq [OF assms(1-3), of d] assms(4-6) q by auto
  then show ?thesis
    using vdec_inv_nth(3,4,6) [OF assms(1,2)] assms(3) by (auto simp: vdec_upd_def list_update_same_conv)
qed

theorem vdec_refused_frame_lost_witness:
  "\<exists>p' fl. SubmitVideoStreamData (vdec_example sbm_example) (vdec_part 101 5 1 1) 0 = Ok (0, p', fl) \<and>
     vdc_pSbm p' = vdc_pSbm (vdec_example sbm_example)"
proof -
  have "\<not> sbm_accepts sbm_example (vdec_part 101 5 1 1)" "vsd_good (vdec_part 101 5 1 1)"
    by (simp_all add: sbm_accepts_def vsd_good_def) (simp add: sbm_example_def sbm_initial_def)
  then show ?thesis
    using vdec_refused_frame_lost [OF vdec_example_inv [OF sbm_example_inv(1)], of 0 sbm_example
        "vdec_part 101 5 1 1"] by auto
qed

end
