(* ===== verification/Message_Queue.thy ===== *)
theory Message_Queue
  imports Linked_Queue Frame_Fifo Mem_Trace
begin

text \<open>
  The message queue between the threads of the player, \<open>libcore/base/AwMessageQueue.c\<close>: a
  table of message nodes threaded into a list, a mutex and a counting semaphore. The first
  section holds the functions, the second the invariant of the table and what the sections under
  the mutex do to the pending messages, the third the interleavings of posters, getters, waiters
  and a flush. A message is a value of type \<open>'m\<close>: \<open>memcpy\<close> copies all of its \<open>nMessageSize\<close>
  bytes. The semaphore is a counter; \<open>None\<close> as the outcome of a wait is a caller that stays
  blocked.
\<close>

section \<open>The functions\<close>

record 'm MessageNode =
  mn_next :: "nat option"
  mn_valid :: bool
  mn_msg :: 'm

record 'm MessageQueueContext =
  mq_pHead :: "nat option"
  mq_nCount :: int
  mq_Nodes :: "'m MessageNode list"
  mq_nMaxMessageNum :: int
  mq_sem :: nat

text \<open>The blocks of a queue, for the account of its memory.\<close>

datatype mq_block = MqContext | MqName | MqNodes | MqMessage nat

text \<open>The loop of \<open>AwMessageQueueCreate__\<close> over the message buffers: how many it got and whether
  it got all. \<open>okMsg i\<close> says whether the \<open>calloc\<close> for node \<open>i\<close> succeeds.\<close>

fun mq_alloc_msgs :: "(nat \<Rightarrow> bool) \<Rightarrow> nat \<Rightarrow> nat \<Rightarrow> mq_block mem_event list \<Rightarrow>
    bool \<times> mq_block mem_event list" where
  "mq_alloc_msgs okMsg i 0 tr = (True, tr)"
| "mq_alloc_msgs okMsg i (Suc k) tr =
     (if okMsg i then mq_alloc_msgs okMsg (Suc i) k (tr @ [Alloc (MqMessage i)])
      else (False, tr @ map (\<lambda>j. Free (MqMessage j)) [0..<i]))"

text \<open>\<open>okName\<close> is false when \<open>pName\<close> is \<open>NULL\<close> or \<open>strdup\<close> fails: the queue then has no name.
  \<open>zero\<close> is the message all of whose bytes are 0.\<close>

definition AwMessageQueueCreate ::
  "'m \<Rightarrow> int \<Rightarrow> bool \<Rightarrow> bool \<Rightarrow> bool \<Rightarrow> (nat \<Rightarrow> bool)
     \<Rightarrow> 'm MessageQueueContext option \<times> mq_block mem_event list" where
  "AwMessageQueueCreate zero nMaxMessageNum okCtx okName okNodes okMsg =
     (if \<not> okCtx then (None, [])
      else
        (let name = (if okName then [MqName] else []);
             tr = Alloc MqContext # map Alloc name
         in if \<not> okNodes then (None, tr @ map Free name @ [Free MqContext])
         else
           (case mq_alloc_msgs okMsg 0 (nat nMaxMessageNum) (tr @ [Alloc MqNodes]) of
              (ok, tr1) \<Rightarrow>
                if \<not> ok then (None, tr1 @ map Free name @ [Free MqNodes, Free MqContext])
                else
                  (Some \<lparr>mq_pHead = None, mq_nCount = 0,
                         mq_Nodes = replicate (nat nMaxMessageNum)
                           \<lparr>mn_next = None, mn_valid = False, mn_msg = zero\<rparr>,
                         mq_nMaxMessageNum = nMaxMessageNum, mq_sem = 0\<rparr>, tr1))))"

definition AwMessageQueueDestroy :: "bool \<Rightarrow> 'm MessageQueueContext \<Rightarrow> mq_block mem_event list" where
  "AwMessageQueueDestroy named q =
     map (\<lambda>i. Free (MqMessage i)) [0..<nat (mq_nMaxMessageNum q)] @ [Free MqNodes] @
     (if named then [Free MqName] else []) @ [Free MqContext]"

text \<open>The search of \<open>AwMessageQueuePostMessage\<close> for a free node, from node \<open>i\<close> on.\<close>

fun mq_find_free :: "'m MessageNode list \<Rightarrow> nat \<Rightarrow> nat \<Rightarrow> nat option exec" where
  "mq_find_free ns i 0 = Ok None"
| "mq_find_free ns i (Suc k) = ebind (arr_get ns (int i)) (\<lambda>n.
     if \<not> mn_valid n then Ok (Some i) else mq_find_free ns (Suc i) k)"

text \<open>The section of \<open>AwMessageQueuePostMessage\<close> under the mutex.\<close>

definition mq_post_locked ::
  "'m \<Rightarrow> 'm MessageQueueContext \<Rightarrow> (int \<times> 'm MessageQueueContext) exec" where
  "mq_post_locked m q =
     (if mq_nMaxMessageNum q \<le> mq_nCount q then Ok (-1, q)
      else ebind (mq_find_free (mq_Nodes q) 0 (nat (mq_nMaxMessageNum q))) (\<lambda>r.
        case r of
          None \<Rightarrow> Fault
        | Some i \<Rightarrow>
            (let ns = (mq_Nodes q)[i := \<lparr>mn_next = None, mn_valid = True, mn_msg = m\<rparr>];
                 q1 = q\<lparr>mq_nCount := mq_nCount q + 1\<rparr>
             in case mq_pHead q of
                  None \<Rightarrow> Ok (0, q1\<lparr>mq_pHead := Some i, mq_Nodes := ns\<rparr>)
                | Some h \<Rightarrow>
                    (case list_tail (node_next mn_next ns) h of
                       None \<Rightarrow> Fault
                     | Some t \<Rightarrow>
                         Ok (0, q1\<lparr>mq_Nodes := ns[t := (ns ! t)\<lparr>mn_next := Some i\<rparr>]\<rparr>)))))"

definition sem_post :: "'m MessageQueueContext \<Rightarrow> 'm MessageQueueContext" where
  "sem_post q = q\<lparr>mq_sem := mq_sem q + 1\<rparr>"

definition AwMessageQueuePostMessage ::
  "'m \<Rightarrow> 'm MessageQueueContext \<Rightarrow> (int \<times> 'm MessageQueueContext) exec" where
  "AwMessageQueuePostMessage m q =
     ebind (mq_post_locked m q) (\<lambda>(r, q1). if r \<noteq> 0 then Ok (r, q1) else Ok (0, sem_post q1))"

text \<open>\<open>SemTimedWait\<close>: the deadline it computes from the clock, and the wait itself.\<close>

definition sem_deadline :: "int \<times> int \<Rightarrow> int \<Rightarrow> int \<times> int" where
  "sem_deadline now time_ms =
     (let nsec = snd now + c_mod time_ms 1000 * 1000 * 1000;
          sec = fst now + (c_div time_ms 1000 + c_div nsec (1000 * 1000 * 1000))
      in (sec, c_mod nsec (1000 * 1000 * 1000)))"

definition SemTimedWait ::
  "int \<Rightarrow> 'm MessageQueueContext \<Rightarrow> (int \<times> 'm MessageQueueContext) option" where
  "SemTimedWait time_ms q =
     (if 0 < mq_sem q then Some (0, q\<lparr>mq_sem := mq_sem q - 1\<rparr>)
      else if time_ms = -1 then None
      else Some (-1, q))"

definition AwMessageQueueWaitMessage ::
  "int \<Rightarrow> 'm MessageQueueContext \<Rightarrow> (int \<times> 'm MessageQueueContext) option" where
  "AwMessageQueueWaitMessage timeout q =
     (case SemTimedWait timeout q of
        None \<Rightarrow> None
      | Some (r, q1) \<Rightarrow>
          if r < 0 then Some (-1, q1) else Some (mq_nCount (sem_post q1), sem_post q1))"

text \<open>The section of \<open>AwMessageQueueTryGetMessage\<close> under the mutex: the message, or \<open>None\<close> for
  the result -1.\<close>

definition mq_get_locked ::
  "'m MessageQueueContext \<Rightarrow> ('m option \<times> 'm MessageQueueContext) exec" where
  "mq_get_locked q =
     (if mq_nCount q \<le> 0 then Ok (None, q)
      else
        (case mq_pHead q of
           None \<Rightarrow> Fault
         | Some i \<Rightarrow> ebind (arr_get (mq_Nodes q) (int i)) (\<lambda>n.
             Ok (Some (mn_msg n),
                 q\<lparr>mq_pHead := mn_next n, mq_Nodes := (mq_Nodes q)[i := n\<lparr>mn_valid := False\<rparr>],
                   mq_nCount := mq_nCount q - 1\<rparr>))))"

definition AwMessageQueueTryGetMessage ::
  "int \<Rightarrow> 'm MessageQueueContext \<Rightarrow> ('m option \<times> 'm MessageQueueContext) option exec" where
  "AwMessageQueueTryGetMessage timeout q =
     (case SemTimedWait timeout q of
        None \<Rightarrow> Ok None
      | Some (r, q1) \<Rightarrow>
          if r < 0 then Ok (Some (None, q1)) else ebind (mq_get_locked q1) (\<lambda>a. Ok (Some a)))"

definition AwMessageQueueGetMessage ::
  "'m MessageQueueContext \<Rightarrow> ('m option \<times> 'm MessageQueueContext) option exec" where
  "AwMessageQueueGetMessage q = AwMessageQueueTryGetMessage (-1) q"

text \<open>\<open>AwMessageQueueFlush\<close>: the reset of the table, the loop that drains the semaphore, and the
  whole call with no other thread in between.\<close>

definition mq_clear :: "'m MessageQueueContext \<Rightarrow> 'm MessageQueueContext exec" where
  "mq_clear q =
     (if length (mq_Nodes q) < nat (mq_nMaxMessageNum q) then Fault
      else Ok (q\<lparr>mq_pHead := None, mq_nCount := 0,
                 mq_Nodes := map (\<lambda>n. n\<lparr>mn_valid := False\<rparr>)
                     (take (nat (mq_nMaxMessageNum q)) (mq_Nodes q)) @
                   drop (nat (mq_nMaxMessageNum q)) (mq_Nodes q)\<rparr>))"

fun sem_drain :: "nat \<Rightarrow> nat" where
  "sem_drain i = (if i = 0 then 0 else sem_drain (i - 1))"

definition AwMessageQueueFlush ::
  "'m MessageQueueContext \<Rightarrow> (int \<times> 'm MessageQueueContext) exec" where
  "AwMessageQueueFlush q =
     ebind (mq_clear q) (\<lambda>q1. Ok (0, q1\<lparr>mq_sem := sem_drain (mq_sem q1)\<rparr>))"

definition AwMessageQueueGetCount :: "'m MessageQueueContext \<Rightarrow> int" where
  "AwMessageQueueGetCount q = mq_nCount q"

declare sem_drain.simps [simp del]

section \<open>The pending messages\<close>

text \<open>The list of nodes from \<open>pHead\<close> on holds the pending messages: it ends, it is as long as
  \<open>nCount\<close> says and its nodes are exactly the valid ones.\<close>

definition mq_rel :: "'m MessageQueueContext \<Rightarrow> nat list \<Rightarrow> bool" where
  "mq_rel q xs \<longleftrightarrow>
     chain (node_next mn_next (mq_Nodes q)) (mq_pHead q) xs \<and> mq_nCount q = int (length xs) \<and>
     length (mq_Nodes q) = nat (mq_nMaxMessageNum q) \<and>
     (\<forall>i < length (mq_Nodes q). mn_valid (mq_Nodes q ! i) = (i \<in> set xs))"

definition mq_queue :: "'m MessageQueueContext \<Rightarrow> nat list" where
  "mq_queue q = chain_list (node_next mn_next (mq_Nodes q)) (length (mq_Nodes q)) (mq_pHead q)"

definition mq_inv :: "'m MessageQueueContext \<Rightarrow> bool" where
  "mq_inv q \<longleftrightarrow> mq_rel q (mq_queue q)"

definition mq_pending :: "'m MessageQueueContext \<Rightarrow> 'm list" where
  "mq_pending q = map (\<lambda>i. mn_msg (mq_Nodes q ! i)) (mq_queue q)"

lemma mq_rel_queue: "mq_rel q xs \<Longrightarrow> mq_queue q = xs"
  unfolding mq_rel_def mq_queue_def using chain_list_eq chain_length by metis

lemma mq_rel_inv:
  "mq_rel q xs \<Longrightarrow> mq_inv q \<and> mq_pending q = map (\<lambda>i. mn_msg (mq_Nodes q ! i)) xs"
  using mq_rel_queue [of q xs] by (simp add: mq_inv_def mq_pending_def)

lemma mq_rel_in: "mq_rel q xs \<Longrightarrow> set xs \<subseteq> {..<length (mq_Nodes q)}"
  using chain_nodes [of "node_next mn_next (mq_Nodes q)" "mq_pHead q" xs]
  by (force simp: mq_rel_def node_next_def split: if_splits)

lemma mq_rel_sem [simp]: "mq_rel (q\<lparr>mq_sem := s\<rparr>) xs = mq_rel q xs"
  by (simp add: mq_rel_def)

lemma mq_sem_simps [simp]:
  "mq_queue (q\<lparr>mq_sem := s\<rparr>) = mq_queue q" "mq_inv (q\<lparr>mq_sem := s\<rparr>) = mq_inv q"
  "mq_pending (q\<lparr>mq_sem := s\<rparr>) = mq_pending q"
  by (simp_all add: mq_queue_def mq_inv_def mq_pending_def)

lemma mq_pending_count: "mq_inv q \<Longrightarrow> mq_nCount q = int (length (mq_pending q))"
  by (simp add: mq_inv_def mq_rel_def mq_pending_def)

lemma mq_find_free_first:
  assumes "i \<le> j" "j < i + k" "i + k \<le> length ns" "\<not> mn_valid (ns ! j)"
  shows "\<exists>f. mq_find_free ns i k = Ok (Some f) \<and> f < length ns \<and> \<not> mn_valid (ns ! f)"
  using assms
proof (induction k arbitrary: i)
  case (Suc k)
  show ?case
  proof (cases "mn_valid (ns ! i)")
    case True
    then have "i \<noteq> j" using Suc.prems by auto
    then show ?thesis using True Suc.IH [of "Suc i"] Suc.prems by (simp add: arr_get_in del: ebind_eq_Ok)
  next
    case False
    then show ?thesis using Suc.prems by (simp add: arr_get_in del: ebind_eq_Ok)
  qed
qed simp

text \<open>A queue that is not full has a free node.\<close>

lemma mq_has_free:
  assumes "mq_rel q xs" "mq_nCount q < mq_nMaxMessageNum q"
  shows "\<exists>f. mq_find_free (mq_Nodes q) 0 (nat (mq_nMaxMessageNum q)) = Ok (Some f) \<and>
    f < length (mq_Nodes q) \<and> f \<notin> set xs"
proof -
  let ?n = "length (mq_Nodes q)"
  have "card (set xs) \<le> length xs" by (rule card_length)
  also have "\<dots> < ?n" using assms by (simp add: mq_rel_def)
  finally have "card (set xs) < card {..<?n}" by simp
  then have "\<not> {..<?n} \<subseteq> set xs" using card_mono [of "set xs" "{..<?n}"] by fastforce
  then obtain j where j: "j < ?n" "j \<notin> set xs" by auto
  then have "\<not> mn_valid (mq_Nodes q ! j)" using assms(1) by (simp add: mq_rel_def)
  then obtain f where "mq_find_free (mq_Nodes q) 0 ?n = Ok (Some f)" "f < ?n"
      "\<not> mn_valid (mq_Nodes q ! f)"
    using mq_find_free_first [of 0 j ?n "mq_Nodes q"] j by auto
  then show ?thesis using assms(1) by (auto simp: mq_rel_def)
qed

lemma mq_post_full: "mq_nMaxMessageNum q \<le> mq_nCount q \<Longrightarrow> mq_post_locked m q = Ok (-1, q)"
  by (simp add: mq_post_locked_def)

lemma mq_post_rel:
  assumes "mq_rel q xs" "mq_nCount q < mq_nMaxMessageNum q"
  shows "\<exists>q' f. mq_post_locked m q = Ok (0, q') \<and> mq_rel q' (xs @ [f]) \<and> f \<notin> set xs \<and>
    mn_msg (mq_Nodes q' ! f) = m \<and> (\<forall>i \<in> set xs. mn_msg (mq_Nodes q' ! i) = mn_msg (mq_Nodes q ! i)) \<and>
    mq_sem q' = mq_sem q \<and> mq_nMaxMessageNum q' = mq_nMaxMessageNum q"
proof -
  obtain f where f: "mq_find_free (mq_Nodes q) 0 (nat (mq_nMaxMessageNum q)) = Ok (Some f)"
    "f < length (mq_Nodes q)" "f \<notin> set xs"
    using mq_has_free [OF assms] by blast
  define ns where "ns = (mq_Nodes q)[f := \<lparr>mn_next = None, mn_valid = True, mn_msg = m\<rparr>]"
  have nx: "node_next mn_next ns = (node_next mn_next (mq_Nodes q))(f \<mapsto> None)"
    unfolding ns_def by (simp add: node_next_update f)
  have ch: "chain (node_next mn_next ns) (mq_pHead q) xs"
    using assms(1) chain_upd [OF f(3)] by (simp add: nx mq_rel_def)
  show ?thesis
  proof (cases xs rule: rev_cases)
    case Nil
    then have h: "mq_pHead q = None" using ch by simp
    let ?q = "q\<lparr>mq_nCount := mq_nCount q + 1, mq_pHead := Some f, mq_Nodes := ns\<rparr>"
    have "mq_post_locked m q = Ok (0, ?q)"
      using assms(2) f(1) h by (simp add: mq_post_locked_def ns_def)
    moreover have "chain (node_next mn_next ns) (Some f) [f]" by (simp add: nx)
    then have "mq_rel ?q [f]"
      using assms(1) Nil f(2) unfolding mq_rel_def
      by (simp del: chain.simps) (simp add: ns_def nth_list_update)
    ultimately show ?thesis using Nil f by (auto simp: ns_def)
  next
    case (snoc ys l)
    obtain h where h: "mq_pHead q = Some h" using ch snoc by (cases "mq_pHead q") auto
    have t: "list_tail (node_next mn_next ns) h = Some l"
      using chain_tail [of "node_next mn_next ns" h xs] ch h snoc by simp
    have l: "l < length ns" "l \<noteq> f"
      using mq_rel_in [OF assms(1)] snoc f by (auto simp: ns_def)
    let ?ms = "ns[l := (ns ! l)\<lparr>mn_next := Some f\<rparr>]"
    let ?q = "q\<lparr>mq_nCount := mq_nCount q + 1, mq_Nodes := ?ms\<rparr>"
    have "mq_post_locked m q = Ok (0, ?q)"
      using assms(2) f(1) h t by (simp add: mq_post_locked_def ns_def Let_def)
    moreover have "chain (node_next mn_next ?ms) (mq_pHead q) (xs @ [f])"
      using chain_snoc [of "node_next mn_next (mq_Nodes q)" "mq_pHead q" ys l f] assms(1) snoc f(3) l
      by (simp add: node_next_update nx mq_rel_def fun_upd_twist)
    then have "mq_rel ?q (xs @ [f])"
      using assms(1) f(2) l by (auto simp: mq_rel_def ns_def nth_list_update)
    ultimately show ?thesis using f l by (auto simp: ns_def nth_list_update)
  qed
qed

lemma mq_get_rel:
  assumes "mq_rel q (x # xs)"
  shows "\<exists>q'. mq_get_locked q = Ok (Some (mn_msg (mq_Nodes q ! x)), q') \<and> mq_rel q' xs \<and>
    (\<forall>i \<in> set xs. mn_msg (mq_Nodes q' ! i) = mn_msg (mq_Nodes q ! i)) \<and>
    mq_sem q' = mq_sem q \<and> mq_nMaxMessageNum q' = mq_nMaxMessageNum q"
proof -
  have x: "x < length (mq_Nodes q)" "x \<notin> set xs" "mq_pHead q = Some x"
    using mq_rel_in [OF assms] assms chain_distinct [of _ "mq_pHead q" "x # xs"]
    by (auto simp: mq_rel_def)
  let ?n = "mq_Nodes q ! x"
  let ?ns = "(mq_Nodes q)[x := ?n\<lparr>mn_valid := False\<rparr>]"
  have nxt: "node_next mn_next (mq_Nodes q) x = Some (mn_next ?n)" using x(1) by (simp add: node_next_def)
  have "chain (node_next mn_next ?ns) (mn_next ?n) xs"
    using assms x chain_upd [OF x(2)] nxt by (simp add: mq_rel_def node_next_update)
  then have "mq_rel (q\<lparr>mq_pHead := mn_next ?n, mq_Nodes := ?ns, mq_nCount := mq_nCount q - 1\<rparr>) xs"
    using assms x by (auto simp: mq_rel_def nth_list_update)
  moreover have "mn_msg (?ns ! i) = mn_msg (mq_Nodes q ! i)" if "i \<in> set xs" for i
    using that mq_rel_in [OF assms] by (auto simp: nth_list_update)
  moreover have "0 < mq_nCount q" using assms by (simp add: mq_rel_def)
  then have "mq_get_locked q = Ok (Some (mn_msg ?n),
      q\<lparr>mq_pHead := mn_next ?n, mq_Nodes := ?ns, mq_nCount := mq_nCount q - 1\<rparr>)"
    using x by (simp add: mq_get_locked_def arr_get_def)
  ultimately show ?thesis by simp
qed

lemma mq_post_law:
  assumes "mq_inv q" "mq_nCount q < mq_nMaxMessageNum q"
  shows "\<exists>q'. mq_post_locked m q = Ok (0, q') \<and> mq_inv q' \<and> mq_pending q' = mq_pending q @ [m] \<and>
    mq_sem q' = mq_sem q \<and> mq_nMaxMessageNum q' = mq_nMaxMessageNum q"
proof -
  have r: "mq_rel q (mq_queue q)" using assms(1) by (simp add: mq_inv_def)
  obtain q' f where q': "mq_post_locked m q = Ok (0, q')" "mq_rel q' (mq_queue q @ [f])"
    "mn_msg (mq_Nodes q' ! f) = m"
    "\<forall>i \<in> set (mq_queue q). mn_msg (mq_Nodes q' ! i) = mn_msg (mq_Nodes q ! i)"
    "mq_sem q' = mq_sem q" "mq_nMaxMessageNum q' = mq_nMaxMessageNum q"
    using mq_post_rel [OF r assms(2)] by blast
  have "mq_pending q' = mq_pending q @ [m]"
    using mq_rel_inv [OF q'(2)] q'(3,4) by (simp add: mq_pending_def)
  then show ?thesis using q' mq_rel_inv by blast
qed

lemma mq_get_law:
  assumes "mq_inv q" "mq_pending q = m # ms"
  shows "\<exists>q'. mq_get_locked q = Ok (Some m, q') \<and> mq_inv q' \<and> mq_pending q' = ms \<and>
    mq_sem q' = mq_sem q \<and> mq_nMaxMessageNum q' = mq_nMaxMessageNum q"
proof -
  obtain x xs where x: "mq_queue q = x # xs" "mn_msg (mq_Nodes q ! x) = m"
    "ms = map (\<lambda>i. mn_msg (mq_Nodes q ! i)) xs"
    using assms(2) by (auto simp: mq_pending_def)
  then have r: "mq_rel q (x # xs)" using assms(1) by (simp add: mq_inv_def)
  obtain q' where q': "mq_get_locked q = Ok (Some m, q')" "mq_rel q' xs"
    "\<forall>i \<in> set xs. mn_msg (mq_Nodes q' ! i) = mn_msg (mq_Nodes q ! i)"
    "mq_sem q' = mq_sem q" "mq_nMaxMessageNum q' = mq_nMaxMessageNum q"
    using mq_get_rel [OF r] x(2) by blast
  have "mq_pending q' = ms"
    using mq_rel_inv [OF q'(2)] q'(3) x(3) by simp
  then show ?thesis using q' mq_rel_inv by blast
qed

lemma mq_get_empty: "mq_inv q \<Longrightarrow> mq_pending q = [] \<Longrightarrow> mq_get_locked q = Ok (None, q)"
  using mq_pending_count [of q] by (simp add: mq_get_locked_def)

lemma mq_clear_law:
  assumes "mq_inv q"
  shows "\<exists>q'. mq_clear q = Ok q' \<and> mq_inv q' \<and> mq_pending q' = [] \<and>
    mq_sem q' = mq_sem q \<and> mq_nMaxMessageNum q' = mq_nMaxMessageNum q"
proof -
  have len: "length (mq_Nodes q) = nat (mq_nMaxMessageNum q)"
    using assms by (simp add: mq_inv_def mq_rel_def)
  let ?q = "q\<lparr>mq_pHead := None, mq_nCount := 0, mq_Nodes := map (\<lambda>n. n\<lparr>mn_valid := False\<rparr>) (mq_Nodes q)\<rparr>"
  have "mq_rel ?q []" using len by (simp add: mq_rel_def)
  then show ?thesis using mq_rel_inv [of ?q "[]"] len by (simp add: mq_clear_def)
qed

lemma sem_drain_zero [simp]: "sem_drain n = 0"
  by (induction n rule: sem_drain.induct) (subst sem_drain.simps, simp)

text \<open>The posting and the getting side as the contract of a queue sees them. With no thread in
  between the semaphore counts the pending messages.\<close>

definition mq_settled :: "'m MessageQueueContext \<Rightarrow> bool" where
  "mq_settled q \<longleftrightarrow> mq_inv q \<and> int (mq_sem q) = mq_nCount q"

definition mq_put :: "'m \<Rightarrow> 'm MessageQueueContext \<Rightarrow> 'm MessageQueueContext option" where
  "mq_put m q = (case AwMessageQueuePostMessage m q of
      Ok (r, q') \<Rightarrow> if r = 0 then Some q' else None | _ \<Rightarrow> None)"

definition mq_take :: "'m MessageQueueContext \<Rightarrow> ('m \<times> 'm MessageQueueContext) option" where
  "mq_take q = (case AwMessageQueueTryGetMessage 0 q of
      Ok (Some (Some m, q')) \<Rightarrow> Some (m, q') | _ \<Rightarrow> None)"

lemma mq_put_law:
  assumes "mq_settled q" "mq_put m q = Some q'"
  shows "mq_settled q' \<and> mq_pending q' = mq_pending q @ [m]"
proof -
  have i: "mq_inv q" using assms by (simp add: mq_settled_def)
  have lt: "mq_nCount q < mq_nMaxMessageNum q"
    using assms(2) mq_post_full [of q m]
    by (cases "mq_nCount q < mq_nMaxMessageNum q") (auto simp: mq_put_def AwMessageQueuePostMessage_def)
  obtain q1 where q1: "mq_post_locked m q = Ok (0, q1)" "mq_inv q1" "mq_pending q1 = mq_pending q @ [m]"
    "mq_sem q1 = mq_sem q"
    using mq_post_law [OF i lt] by blast
  have "q' = sem_post q1" using assms(2) q1(1) by (simp add: mq_put_def AwMessageQueuePostMessage_def)
  then show ?thesis
    using assms(1) q1 mq_pending_count [OF q1(2)] mq_pending_count [OF i]
    by (simp add: mq_settled_def sem_post_def)
qed

lemma mq_take_law:
  assumes "mq_settled q" "mq_pending q = m # ms"
  shows "\<exists>q'. mq_take q = Some (m, q') \<and> mq_settled q' \<and> mq_pending q' = ms"
proof -
  have i: "mq_inv q" using assms by (simp add: mq_settled_def)
  have s: "mq_sem q = Suc (length ms)"
    using assms mq_pending_count [OF i] by (simp add: mq_settled_def)
  let ?q = "q\<lparr>mq_sem := mq_sem q - 1\<rparr>"
  obtain q' where q': "mq_get_locked ?q = Ok (Some m, q')" "mq_inv q'" "mq_pending q' = ms"
    "mq_sem q' = mq_sem ?q"
    using mq_get_law [of ?q m ms] assms i by auto
  then have "mq_take q = Some (m, q')"
    using s by (simp add: mq_take_def AwMessageQueueTryGetMessage_def SemTimedWait_def)
  then show ?thesis using q' s mq_pending_count [OF q'(2)] by (simp add: mq_settled_def)
qed

interpretation mqq: frame_fifo mq_settled mq_pending "\<lambda>_. True" id mq_put mq_take
proof
  show "mq_take q = None" if "mq_settled q" "mq_pending q = []" for q :: "'a MessageQueueContext"
    using that mq_pending_count [of q]
    by (simp add: mq_settled_def mq_take_def AwMessageQueueTryGetMessage_def SemTimedWait_def)
  show "mq_settled q' \<and> mq_pending q' = mq_pending q @ [id m]"
    if "mq_settled q" "mq_put m q = Some q'" for q q' :: "'a MessageQueueContext" and m
    using mq_put_law [OF that] by simp
qed (rule mq_take_law)

section \<open>Interleavings\<close>

text \<open>The queue with the threads that are inside one of its functions: posters between the
  release of the mutex and \<open>sem_post\<close>, getters between the semaphore and the mutex, callers of
  \<open>AwMessageQueueWaitMessage\<close> between \<open>SemTimedWait\<close> and \<open>sem_post\<close>, and a flush that holds the
  mutex while it drains the semaphore.\<close>

record 'm MqWorld =
  mqw_q :: "'m MessageQueueContext"
  mqw_posting :: nat
  mqw_getting :: nat
  mqw_peeking :: nat
  mqw_flushing :: bool

text \<open>What a step lets the callers see.\<close>

datatype 'm mq_event = Posted 'm | Refused | Got 'm | Missed | TimedOut | Flushed | Internal

inductive mq_step :: "'m MqWorld \<Rightarrow> 'm mq_event \<Rightarrow> 'm MqWorld \<Rightarrow> bool" where
  post: "\<not> mqw_flushing w \<Longrightarrow> mq_post_locked m (mqw_q w) = Ok (0, q) \<Longrightarrow>
    mq_step w (Posted m) (w\<lparr>mqw_q := q, mqw_posting := mqw_posting w + 1\<rparr>)"
| refuse: "\<not> mqw_flushing w \<Longrightarrow> mq_post_locked m (mqw_q w) = Ok (r, q) \<Longrightarrow> r \<noteq> 0 \<Longrightarrow>
    mq_step w Refused (w\<lparr>mqw_q := q\<rparr>)"
| signal: "mqw_posting w = Suc n \<Longrightarrow>
    mq_step w Internal (w\<lparr>mqw_q := sem_post (mqw_q w), mqw_posting := n\<rparr>)"
| wake: "SemTimedWait t (mqw_q w) = Some (0, q) \<Longrightarrow>
    mq_step w Internal (w\<lparr>mqw_q := q, mqw_getting := mqw_getting w + 1\<rparr>)"
| expire: "SemTimedWait t (mqw_q w) = Some (r, q) \<Longrightarrow> r < 0 \<Longrightarrow>
    mq_step w TimedOut (w\<lparr>mqw_q := q\<rparr>)"
| fetch: "\<not> mqw_flushing w \<Longrightarrow> mqw_getting w = Suc n \<Longrightarrow> mq_get_locked (mqw_q w) = Ok (Some m, q) \<Longrightarrow>
    mq_step w (Got m) (w\<lparr>mqw_q := q, mqw_getting := n\<rparr>)"
| miss: "\<not> mqw_flushing w \<Longrightarrow> mqw_getting w = Suc n \<Longrightarrow> mq_get_locked (mqw_q w) = Ok (None, q) \<Longrightarrow>
    mq_step w Missed (w\<lparr>mqw_q := q, mqw_getting := n\<rparr>)"
| peek: "SemTimedWait t (mqw_q w) = Some (0, q) \<Longrightarrow>
    mq_step w Internal (w\<lparr>mqw_q := q, mqw_peeking := mqw_peeking w + 1\<rparr>)"
| unpeek: "mqw_peeking w = Suc n \<Longrightarrow>
    mq_step w Internal (w\<lparr>mqw_q := sem_post (mqw_q w), mqw_peeking := n\<rparr>)"
| clear: "\<not> mqw_flushing w \<Longrightarrow> mq_clear (mqw_q w) = Ok q \<Longrightarrow>
    mq_step w Flushed (w\<lparr>mqw_q := q, mqw_flushing := True\<rparr>)"
| drain: "mqw_flushing w \<Longrightarrow> mq_sem (mqw_q w) = Suc s \<Longrightarrow>
    mq_step w Internal (w\<lparr>mqw_q := mqw_q w\<lparr>mq_sem := s\<rparr>\<rparr>)"
| drained: "mqw_flushing w \<Longrightarrow> mq_sem (mqw_q w) = 0 \<Longrightarrow>
    mq_step w Internal (w\<lparr>mqw_flushing := False\<rparr>)"

inductive mq_run :: "'m MqWorld \<Rightarrow> 'm mq_event list \<Rightarrow> 'm MqWorld \<Rightarrow> bool" where
  start: "mq_run w [] w"
| more: "mq_run w es w1 \<Longrightarrow> mq_step w1 e w2 \<Longrightarrow> mq_run w (es @ [e]) w2"

text \<open>The queue as its callers think of it: what an event does to the list of messages, \<open>None\<close>
  when the event is not possible.\<close>

fun mq_spec :: "nat \<Rightarrow> 'm list \<Rightarrow> 'm mq_event \<Rightarrow> 'm list option" where
  "mq_spec k ms (Posted m) = (if length ms < k then Some (ms @ [m]) else None)"
| "mq_spec k ms Refused = (if length ms < k then None else Some ms)"
| "mq_spec k ms (Got m) = (case ms of [] \<Rightarrow> None | x # xs \<Rightarrow> if x = m then Some xs else None)"
| "mq_spec k ms Missed = (if ms = [] then Some [] else None)"
| "mq_spec k ms Flushed = Some []"
| "mq_spec k ms TimedOut = Some ms"
| "mq_spec k ms Internal = Some ms"

fun mq_spec_run :: "nat \<Rightarrow> 'm list \<Rightarrow> 'm mq_event list \<Rightarrow> 'm list option" where
  "mq_spec_run k ms [] = Some ms"
| "mq_spec_run k ms (e # es) =
     (case mq_spec k ms e of None \<Rightarrow> None | Some ms' \<Rightarrow> mq_spec_run k ms' es)"

text \<open>Every pending message has its token: in the semaphore or with a thread that is about to
  post it or has just taken it. Without a flush no other token exists.\<close>

definition mq_tokens :: "'m MqWorld \<Rightarrow> int" where
  "mq_tokens w = int (mq_sem (mqw_q w) + mqw_posting w + mqw_getting w + mqw_peeking w)"

definition mq_world_inv :: "'m MqWorld \<Rightarrow> bool" where
  "mq_world_inv w \<longleftrightarrow> mq_inv (mqw_q w) \<and> mq_nCount (mqw_q w) \<le> mq_tokens w \<and>
     (mqw_flushing w \<longrightarrow> mq_nCount (mqw_q w) = 0) \<and> 0 \<le> mq_nMaxMessageNum (mqw_q w)"

definition mq_idle :: "'m MqWorld \<Rightarrow> bool" where
  "mq_idle w \<longleftrightarrow> mqw_posting w = 0 \<and> mqw_getting w = 0 \<and> mqw_peeking w = 0 \<and> \<not> mqw_flushing w"

lemma mq_post_cases:
  assumes "mq_inv q" "mq_post_locked m q = Ok (r, q')" "0 \<le> mq_nMaxMessageNum q"
  shows "mq_inv q' \<and> mq_sem q' = mq_sem q \<and> mq_nMaxMessageNum q' = mq_nMaxMessageNum q \<and>
    (if length (mq_pending q) < nat (mq_nMaxMessageNum q)
     then r = 0 \<and> mq_pending q' = mq_pending q @ [m] else r \<noteq> 0 \<and> q' = q)"
  using mq_post_law [OF assms(1), of m] mq_post_full [of q m] mq_pending_count [OF assms(1)] assms
  by (cases "mq_nCount q < mq_nMaxMessageNum q") auto

lemma mq_get_cases:
  assumes "mq_inv q" "mq_get_locked q = Ok (r, q')"
  shows "mq_inv q' \<and> mq_sem q' = mq_sem q \<and> mq_nMaxMessageNum q' = mq_nMaxMessageNum q \<and>
    (case r of None \<Rightarrow> mq_pending q = [] \<and> q' = q | Some m \<Rightarrow> mq_pending q = m # mq_pending q')"
  using mq_get_law [OF assms(1)] mq_get_empty [OF assms(1)] assms
  by (cases "mq_pending q") auto

text \<open>One step keeps the invariant and does to the messages what the specification says; it
  balances messages and tokens unless it drains or misses.\<close>

lemma mq_step_inv:
  assumes "mq_step w e w'" "mq_world_inv w"
  shows "mq_world_inv w' \<and> mq_nMaxMessageNum (mqw_q w') = mq_nMaxMessageNum (mqw_q w) \<and>
    mq_spec (nat (mq_nMaxMessageNum (mqw_q w))) (mq_pending (mqw_q w)) e = Some (mq_pending (mqw_q w'))"
  using assms
proof cases
  case (post m q)
  then show ?thesis
    using assms(2) mq_post_cases [of "mqw_q w" m 0 q] mq_pending_count [of q] mq_pending_count [of "mqw_q w"]
    by (auto simp: mq_world_inv_def mq_tokens_def split: if_splits)
next
  case (refuse m r q)
  then show ?thesis
    using assms(2) mq_post_cases [of "mqw_q w" m r q]
    by (auto simp: mq_world_inv_def mq_tokens_def split: if_splits)
next
  case (fetch n m q)
  then show ?thesis
    using assms(2) mq_get_cases [of "mqw_q w" "Some m" q] mq_pending_count [of q] mq_pending_count [of "mqw_q w"]
    by (auto simp: mq_world_inv_def mq_tokens_def)
next
  case (miss n q)
  then show ?thesis
    using assms(2) mq_get_cases [of "mqw_q w" None q] mq_pending_count [of q]
    by (auto simp: mq_world_inv_def mq_tokens_def)
next
  case (clear q)
  then show ?thesis
    using assms(2) mq_clear_law [of "mqw_q w"] mq_pending_count [of q]
    by (auto simp: mq_world_inv_def mq_tokens_def)
qed (auto simp: mq_world_inv_def mq_tokens_def sem_post_def SemTimedWait_def split: if_splits)

lemma mq_spec_run_snoc:
  "mq_spec_run k ms (es @ [e]) =
     (case mq_spec_run k ms es of None \<Rightarrow> None | Some ms' \<Rightarrow> mq_spec k ms' e)"
  by (induction es arbitrary: ms) (auto split: option.splits)

lemma mq_run_inv:
  assumes "mq_run w es w'" "mq_world_inv w"
  shows "mq_world_inv w' \<and> mq_nMaxMessageNum (mqw_q w') = mq_nMaxMessageNum (mqw_q w) \<and>
    mq_spec_run (nat (mq_nMaxMessageNum (mqw_q w))) (mq_pending (mqw_q w)) es = Some (mq_pending (mqw_q w'))"
  using assms
proof induction
  case (more w es w1 e w2)
  then show ?case using mq_step_inv [OF more.hyps(2)] by (simp add: mq_spec_run_snoc)
qed simp

lemma mq_step_balanced:
  assumes "mq_step w e w'" "mq_world_inv w" "e \<noteq> Flushed" "\<not> mqw_flushing w"
    "mq_tokens w = mq_nCount (mqw_q w)"
  shows "mq_tokens w' = mq_nCount (mqw_q w') \<and> \<not> mqw_flushing w' \<and> e \<noteq> Missed"
  using assms(1)
proof cases
  case (post m q)
  then show ?thesis
    using assms mq_post_cases [of "mqw_q w" m 0 q] mq_pending_count [of q] mq_pending_count [of "mqw_q w"]
    by (auto simp: mq_world_inv_def mq_tokens_def split: if_splits)
next
  case (refuse m r q)
  then show ?thesis
    using assms mq_post_cases [of "mqw_q w" m r q]
    by (auto simp: mq_world_inv_def mq_tokens_def split: if_splits)
next
  case (fetch n m q)
  then show ?thesis
    using assms mq_get_cases [of "mqw_q w" "Some m" q] mq_pending_count [of q] mq_pending_count [of "mqw_q w"]
    by (auto simp: mq_world_inv_def mq_tokens_def)
next
  case (miss n q)
  then show ?thesis
    using assms mq_get_cases [of "mqw_q w" None q] mq_pending_count [of "mqw_q w"]
    by (auto simp: mq_world_inv_def mq_tokens_def)
qed (use assms in \<open>auto simp: mq_tokens_def sem_post_def SemTimedWait_def split: if_splits\<close>)

lemma mq_run_balanced:
  assumes "mq_run w es w'" "mq_world_inv w" "Flushed \<notin> set es" "\<not> mqw_flushing w"
    "mq_tokens w = mq_nCount (mqw_q w)"
  shows "mq_tokens w' = mq_nCount (mqw_q w') \<and> \<not> mqw_flushing w' \<and> Missed \<notin> set es"
  using assms
proof induction
  case (more w es w1 e w2)
  then show ?case
    using mq_step_balanced [OF more.hyps(2)] mq_run_inv [OF more.hyps(1)] by auto
qed simp

lemma mq_alloc_msgs_trace:
  assumes "mq_alloc_msgs okMsg i k tr = (ok, tr1)"
  shows "\<exists>f \<ge> i. tr1 = tr @ map Alloc (map MqMessage [i..<f]) @
    (if ok then [] else map Free (map MqMessage [0..<f])) \<and> (ok \<longrightarrow> f = i + k)"
  using assms
proof (induction k arbitrary: i tr)
  case (Suc k)
  show ?case
  proof (cases "okMsg i")
    case True
    then obtain f where "Suc i \<le> f" "tr1 = tr @ Alloc (MqMessage i) # map Alloc (map MqMessage [Suc i..<f]) @
        (if ok then [] else map Free (map MqMessage [0..<f]))" "ok \<longrightarrow> f = i + Suc k"
      using Suc.IH [of "Suc i" "tr @ [Alloc (MqMessage i)]"] Suc.prems by auto
    then show ?thesis by (intro exI [of _ f]) (simp add: upt_conv_Cons)
  next
    case False
    then show ?thesis using Suc.prems by (intro exI [of _ i]) (auto simp: comp_def)
  qed
qed simp

section \<open>Properties\<close>

lemma mq_created:
  assumes "AwMessageQueueCreate zero n okCtx okName okNodes okMsg = (Some q, tr)"
  shows "mq_rel q []" "mq_pending q = []" "mq_sem q = 0" "mq_nMaxMessageNum q = n"
proof -
  have q: "q = \<lparr>mq_pHead = None, mq_nCount = 0, mq_Nodes = replicate (nat n)
      \<lparr>mn_next = None, mn_valid = False, mn_msg = zero\<rparr>, mq_nMaxMessageNum = n, mq_sem = 0\<rparr>"
    using assms by (auto simp: AwMessageQueueCreate_def Let_def split: if_splits prod.splits)
  show r: "mq_rel q []" by (simp add: q mq_rel_def)
  show "mq_pending q = []" "mq_sem q = 0" "mq_nMaxMessageNum q = n"
    using mq_rel_inv [OF r] by (simp_all add: q)
qed

definition mq_world :: "'m MessageQueueContext \<Rightarrow> 'm MqWorld" where
  "mq_world q = \<lparr>mqw_q = q, mqw_posting = 0, mqw_getting = 0, mqw_peeking = 0, mqw_flushing = False\<rparr>"

lemma mq_world_created:
  assumes "AwMessageQueueCreate zero n okCtx okName okNodes okMsg = (Some q, tr)" "0 \<le> n"
  shows "mq_world_inv (mq_world q)" "mq_tokens (mq_world q) = mq_nCount (mqw_q (mq_world q))"
    "\<not> mqw_flushing (mq_world q)"
  using mq_created [OF assms(1)] mq_rel_inv [OF mq_created(1) [OF assms(1)]] assms(2)
  by (auto simp: mq_world_inv_def mq_world_def mq_tokens_def mq_rel_def)

definition mq_example :: "nat MessageQueueContext" where
  "mq_example = the (fst (AwMessageQueueCreate 0 2 True True True (\<lambda>_. True)))"

lemma mq_example_created:
  "AwMessageQueueCreate 0 2 True True True (\<lambda>_. True) =
     (Some mq_example, snd (AwMessageQueueCreate (0 :: nat) 2 True True True (\<lambda>_. True)))"
  by (simp add: mq_example_def AwMessageQueueCreate_def numeral_2_eq_2)

lemma mq_example_eq:
  "mq_example = \<lparr>mq_pHead = None, mq_nCount = 0,
     mq_Nodes = [\<lparr>mn_next = None, mn_valid = False, mn_msg = 0\<rparr>, \<lparr>mn_next = None, mn_valid = False, mn_msg = 0\<rparr>],
     mq_nMaxMessageNum = 2, mq_sem = 0\<rparr>"
  by (simp add: mq_example_def AwMessageQueueCreate_def numeral_2_eq_2)

text \<open>The queue after a post of 7.\<close>

definition mq_example_posted :: "nat MqWorld" where
  "mq_example_posted =
     \<lparr>mqw_q = \<lparr>mq_pHead = Some 0, mq_nCount = 1,
        mq_Nodes = [\<lparr>mn_next = None, mn_valid = True, mn_msg = 7\<rparr>, \<lparr>mn_next = None, mn_valid = False, mn_msg = 0\<rparr>],
        mq_nMaxMessageNum = 2, mq_sem = 1\<rparr>,
      mqw_posting = 0, mqw_getting = 0, mqw_peeking = 0, mqw_flushing = False\<rparr>"

lemma mq_example_run: "mq_run (mq_world mq_example) [Posted 7, Internal] mq_example_posted"
proof -
  let ?w = "mq_example_posted\<lparr>mqw_q := mqw_q mq_example_posted\<lparr>mq_sem := 0\<rparr>, mqw_posting := 1\<rparr>"
  have p: "mq_post_locked 7 mq_example = Ok (0, mqw_q ?w)"
    by (simp add: mq_example_eq mq_post_locked_def mq_example_posted_def numeral_2_eq_2 arr_get_def)
  have "mq_step (mq_world mq_example) (Posted 7) ?w"
    using mq_step.post [of "mq_world mq_example" 7 "mqw_q ?w"] p
    by (simp add: mq_world_def mq_example_posted_def)
  moreover have "mq_step ?w Internal mq_example_posted"
    using mq_step.signal [of ?w 0] by (simp add: sem_post_def mq_example_posted_def)
  ultimately show ?thesis
    using mq_run.more [OF mq_run.more [OF mq_run.start]] by fastforce
qed

text \<open>C2: Message queue, all interleavings of posters, getters, waiters and flushes. The events
  the callers see are those of a bounded first-in first-out list that a flush empties: a post is
  refused exactly when the list is full, a getter gets the oldest message or finds the list
  empty. In every state reached so, the sections under the mutex return: no wild access, no free
  node missing, no endless walk.\<close>

theorem mq_refines_spec:
  assumes "AwMessageQueueCreate zero n okCtx okName okNodes okMsg = (Some q, tr)" "0 \<le> n"
    "mq_run (mq_world q) es w"
  shows "mq_spec_run (nat n) [] es = Some (mq_pending (mqw_q w)) \<and>
    (\<exists>r. mq_post_locked m (mqw_q w) = Ok r) \<and> (\<exists>r. mq_get_locked (mqw_q w) = Ok r) \<and>
    (\<exists>r. mq_clear (mqw_q w) = Ok r)"
proof -
  have inv: "mq_world_inv w" "mq_spec_run (nat n) [] es = Some (mq_pending (mqw_q w))"
    using mq_run_inv [OF assms(3) mq_world_created(1) [OF assms(1,2)]] mq_created [OF assms(1)]
    by (simp_all add: mq_world_def)
  then have i: "mq_inv (mqw_q w)" by (simp add: mq_world_inv_def)
  have "\<exists>r. mq_post_locked m (mqw_q w) = Ok r"
    using mq_post_law [OF i] mq_post_full by (metis not_less)
  moreover have "\<exists>r. mq_get_locked (mqw_q w) = Ok r"
    using mq_get_law [OF i] mq_get_empty [OF i] by (cases "mq_pending (mqw_q w)") blast+
  ultimately show ?thesis using inv(2) mq_clear_law [OF i] by blast
qed

theorem mq_refines_spec_witness:
  "mq_spec_run 2 [] [Posted 7, Internal] = Some (mq_pending (mqw_q mq_example_posted)) \<and>
   (\<exists>r. mq_post_locked 3 (mqw_q mq_example_posted) = Ok r)"
  using mq_refines_spec [OF mq_example_created _ mq_example_run, of 3] by simp

text \<open>C15: No wakeup is lost. Whatever ran before, when no thread is inside the queue and a
  message is pending, \<open>AwMessageQueueGetMessage\<close> returns the oldest one at once; and as long as
  nothing was flushed, no getter that passed the semaphore comes back without a message.\<close>

theorem mq_no_lost_wakeup:
  assumes "AwMessageQueueCreate zero n okCtx okName okNodes okMsg = (Some q, tr)" "0 \<le> n"
    "mq_run (mq_world q) es w"
  shows "(mq_idle w \<and> mq_pending (mqw_q w) = m # ms \<longrightarrow>
      (\<exists>q'. AwMessageQueueGetMessage (mqw_q w) = Ok (Some (Some m, q')) \<and> mq_pending q' = ms)) \<and>
    (Flushed \<notin> set es \<longrightarrow> Missed \<notin> set es)"
proof -
  note created = mq_world_created [OF assms(1,2)]
  have inv: "mq_world_inv w" using mq_run_inv [OF assms(3) created(1)] by simp
  have "\<exists>q'. AwMessageQueueGetMessage (mqw_q w) = Ok (Some (Some m, q')) \<and> mq_pending q' = ms"
    if idle: "mq_idle w" and pend: "mq_pending (mqw_q w) = m # ms"
  proof -
    let ?q = "mqw_q w"
    have i: "mq_inv ?q" and "mq_nCount ?q \<le> int (mq_sem ?q)"
      using inv idle by (auto simp: mq_world_inv_def mq_tokens_def mq_idle_def)
    then have "0 < mq_sem ?q" using mq_pending_count [OF i] pend by simp
    moreover obtain q' where "mq_get_locked (?q\<lparr>mq_sem := mq_sem ?q - 1\<rparr>) = Ok (Some m, q')"
        "mq_pending q' = ms"
      using mq_get_law [of "?q\<lparr>mq_sem := mq_sem ?q - 1\<rparr>" m ms] i pend by auto
    ultimately show ?thesis
      by (simp add: AwMessageQueueGetMessage_def AwMessageQueueTryGetMessage_def SemTimedWait_def)
  qed
  then show ?thesis using mq_run_balanced [OF assms(3) created(1) _ created(3,2)] by blast
qed

theorem mq_no_lost_wakeup_witness:
  "mq_idle mq_example_posted \<and> Missed \<notin> set [Posted 7, Internal] \<and>
   (\<exists>q'. AwMessageQueueGetMessage (mqw_q mq_example_posted) = Ok (Some (Some 7, q')) \<and> mq_pending q' = [])"
proof -
  have "mq_idle mq_example_posted" by (simp add: mq_idle_def mq_example_posted_def)
  moreover have "mq_pending (mqw_q mq_example_posted) = [7]"
    by (simp add: mq_pending_def mq_queue_def mq_example_posted_def node_next_def)
  ultimately show ?thesis
    using mq_no_lost_wakeup [OF mq_example_created _ mq_example_run, of 7 "[]"] by simp
qed

text \<open>Message queue, calls one after the other. In any sequence of
  \<open>AwMessageQueuePostMessage\<close> and non-blocking \<open>AwMessageQueueTryGetMessage\<close> calls the messages
  come out in the order they were accepted, each exactly once.\<close>

theorem mq_calls_fifo:
  assumes "mq_settled q" "fifo_run mq_put mq_take es q = (ins, outs, q')"
  shows "mq_settled q' \<and> mq_pending q @ ins = outs @ mq_pending q'"
  using mqq.run_fifo [OF assms(1) _ assms(2)] by simp

theorem mq_calls_fifo_witness:
  "mq_settled mq_example \<and>
   (case fifo_run mq_put mq_take [Put 4, Get, Get] mq_example of
      (ins, outs, q') \<Rightarrow> mq_settled q' \<and> mq_pending mq_example @ ins = outs @ mq_pending q')"
proof -
  have "mq_settled mq_example"
    using mq_rel_inv [OF mq_created(1) [OF mq_example_created]] by (simp add: mq_settled_def mq_example_eq)
  then show ?thesis
    using mq_calls_fifo [of mq_example "[Put 4, Get, Get]"]
    by (cases "fifo_run mq_put mq_take [Put 4, Get, Get] mq_example") auto
qed

text \<open>Memory of the queue. Whichever allocation fails, \<open>AwMessageQueueCreate__\<close> frees what
  it took; when it succeeds, \<open>AwMessageQueueDestroy\<close> frees every block once.\<close>

theorem mq_create_destroy_balanced:
  assumes "AwMessageQueueCreate zero n okCtx okName okNodes okMsg = (r, tr)"
  shows "adds_blocks (case r of None \<Rightarrow> tr | Some q \<Rightarrow> tr @ AwMessageQueueDestroy okName q) []"
proof (cases "okCtx \<and> okNodes")
  case False
  then have "tr = [] \<or> tr = map Alloc (MqContext # (if okName then [MqName] else [])) @
      map Free ((if okName then [MqName] else []) @ [MqContext])" "r = None"
    using assms by (auto simp: AwMessageQueueCreate_def Let_def split: if_splits)
  then show ?thesis
    using adds_then_frees [OF adds_blocks_intros(2), of "(if okName then [MqName] else []) @ [MqContext]"
        "MqContext # (if okName then [MqName] else [])"] adds_blocks_intros(3)
    by (elim disjE) (simp_all del: map_append list.map)
next
  case True
  define name where "name = (if okName then [MqName] else [])"
  obtain ok tr1 where a: "mq_alloc_msgs okMsg 0 (nat n) (map Alloc (MqContext # name @ [MqNodes])) = (ok, tr1)"
    by fastforce
  obtain f where f: "tr1 = map Alloc (MqContext # name @ [MqNodes] @ map MqMessage [0..<f]) @
      (if ok then [] else map Free (map MqMessage [0..<f]))" "ok \<longrightarrow> f = nat n"
    using mq_alloc_msgs_trace [OF a] by auto
  show ?thesis
  proof (cases ok)
    case True
    then obtain q where "r = Some q" "mq_nMaxMessageNum q = n" "tr = tr1"
      using assms a \<open>okCtx \<and> okNodes\<close> by (auto simp: AwMessageQueueCreate_def Let_def name_def)
    then have "(case r of None \<Rightarrow> tr | Some q \<Rightarrow> tr @ AwMessageQueueDestroy okName q) =
        map Alloc (MqContext # name @ [MqNodes] @ map MqMessage [0..<f]) @
        map Free (map MqMessage [0..<f] @ [MqNodes] @ name @ [MqContext])"
      using True f by (simp add: AwMessageQueueDestroy_def name_def)
    then show ?thesis by (simp only:) (rule adds_then_frees [OF adds_blocks_intros(2)], simp)
  next
    case False
    then have "r = None" "tr = tr1 @ map Free (name @ [MqNodes, MqContext])"
      using assms a \<open>okCtx \<and> okNodes\<close> by (auto simp: AwMessageQueueCreate_def Let_def name_def)
    then have "(case r of None \<Rightarrow> tr | Some q \<Rightarrow> tr @ AwMessageQueueDestroy okName q) =
        map Alloc (MqContext # name @ [MqNodes] @ map MqMessage [0..<f]) @
        map Free (map MqMessage [0..<f] @ name @ [MqNodes, MqContext])"
      using False f by simp
    then show ?thesis by (simp only:) (rule adds_then_frees [OF adds_blocks_intros(2)], simp)
  qed
qed

theorem mq_create_destroy_balanced_witness:
  "adds_blocks (snd (AwMessageQueueCreate (0 :: nat) 3 True True True (\<lambda>i. i < 2))) [] \<and>
   fst (AwMessageQueueCreate (0 :: nat) 3 True True True (\<lambda>i. i < 2)) = None"
proof -
  have "fst (AwMessageQueueCreate (0 :: nat) 3 True True True (\<lambda>i. i < 2)) = None"
    by (simp add: AwMessageQueueCreate_def numeral_3_eq_3)
  then show ?thesis
    using mq_create_destroy_balanced [of "0 :: nat" 3 True True True "\<lambda>i. i < 2"]
    by (cases "AwMessageQueueCreate (0 :: nat) 3 True True True (\<lambda>i. i < 2)") auto
qed

text \<open>The deadline \<open>SemTimedWait\<close> passes to \<open>sem_timedwait\<close>. For a timeout of at least 0
  milliseconds and a valid clock value it is a valid \<open>timespec\<close> exactly that many milliseconds
  later, and no intermediate nanosecond count leaves the range of a 32-bit \<open>long\<close>.\<close>

theorem sem_deadline_exact:
  assumes "0 \<le> time_ms" "0 \<le> nsec" "nsec < 1000000000" "sem_deadline (sec, nsec) time_ms = (sec', nsec')"
  shows "0 \<le> nsec' \<and> nsec' < 1000000000 \<and>
    sec' * 1000000000 + nsec' = sec * 1000000000 + nsec + time_ms * 1000000 \<and>
    int32_range (nsec + c_mod time_ms 1000 * 1000 * 1000)"
proof -
  define r s where "r = time_ms mod 1000" and "s = time_ms div 1000"
  have t: "time_ms = 1000 * s + r" "0 \<le> r" "r < 1000" by (simp_all add: r_def s_def)
  have c: "c_mod time_ms 1000 = r" "c_div time_ms 1000 = s"
    using assms(1) by (simp_all add: c_mod_nonneg c_div_nonneg r_def s_def)
  define a where "a = nsec + r * 1000000"
  have a: "0 \<le> a" "a < 2000000000" using t(2,3) assms(2,3) by (simp_all add: a_def)
  have "sem_deadline (sec, nsec) time_ms = (sec + (s + a div 1000000000), a mod 1000000000)"
    using a(1) by (simp add: sem_deadline_def Let_def c a_def mult.commute c_div_nonneg c_mod_nonneg)
  then have d: "sec' = sec + (s + a div 1000000000)" "nsec' = a mod 1000000000"
    using assms(4) by simp_all
  obtain x y where xy: "a div 1000000000 = x" "a mod 1000000000 = y" "1000000000 * x + y = a" by simp
  then have "sec' * 1000000000 + nsec' = (sec + s) * 1000000000 + a" by (simp add: d)
  moreover have "int32_range (nsec + c_mod time_ms 1000 * 1000 * 1000)"
    using a by (simp add: int32_range_def c a_def)
  ultimately show ?thesis using d(2) t(1) by (simp add: a_def)
qed

theorem sem_deadline_exact_witness:
  "sem_deadline (100, 999999999) 1001 = (102, 999999) \<and>
   102 * 1000000000 + 999999 = 100 * 1000000000 + 999999999 + (1001 :: int) * 1000000"
proof -
  have "sem_deadline (100, 999999999) 1001 = (102, 999999)"
    by (simp add: sem_deadline_def c_div_def c_mod_def)
  then show ?thesis using sem_deadline_exact [of 1001 999999999 100 102 999999] by simp
qed

end
