(* ===== verification/Stream_Manager.thy ===== *)
theory Stream_Manager
  imports Ring Frame_Fifo Mem_Trace
begin

text \<open>
  The queue of audio and subtitle frames, \<open>libcore/playback/streamManager.c\<close>: a ring of frames
  that keeps the last tenth of the frames already read, so that playback can be rewound after a
  change of track. The first section holds the functions, the second the invariant and what the
  calls do to the pending frames, the third the ownership of the data blocks over runs of a
  producer and a consumer. Calls return the blocks they free.
\<close>

section \<open>The functions\<close>

record StreamFrame =
  sf_pData :: addr
  sf_nLength :: int
  sf_nPts :: int
  sf_nPcr :: int
  sf_nDuration :: int

record StreamFifo =
  smf_pFrames :: "StreamFrame list"
  smf_nMaxFrameNum :: int
  smf_nReadPos :: int
  smf_nWritePos :: int

record StreamManager =
  sm_nMaxBufferSize :: int
  sm_nValidDataSize :: int
  sm_nStreamID :: int
  sm_streamFifo :: StreamFifo
  sm_pMem :: addr
  sm_nMemSize :: int
  sm_lostBaby :: addr

definition sf_zero :: StreamFrame where
  "sf_zero = \<lparr>sf_pData = 0, sf_nLength = 0, sf_nPts = 0, sf_nPcr = 0, sf_nDuration = 0\<rparr>"

definition validFrameNum :: "StreamFifo \<Rightarrow> int" where
  "validFrameNum p =
     c_mod (smf_nWritePos p - smf_nReadPos p + smf_nMaxFrameNum p) (smf_nMaxFrameNum p)"

text \<open>\<open>MIN_PREVERSE_RATIO\<close> is 0.1: the product is a \<open>double\<close>, truncated to \<open>int\<close>. For
  \<open>0 \<le> n < 2^31\<close> the rounding of the product cannot reach the next integer, so the value is
  \<open>n div 10\<close>.\<close>

definition preserve_num :: "int \<Rightarrow> int" where
  "preserve_num n = c_div n 10"

definition invalidFrameNumTooSmall :: "StreamFifo \<Rightarrow> bool" where
  "invalidFrameNumTooSmall p \<longleftrightarrow>
     smf_nMaxFrameNum p - validFrameNum p \<le> preserve_num (smf_nMaxFrameNum p)"

text \<open>\<open>pStruct\<close> and \<open>pNodes\<close> are the results of the two \<open>calloc\<close> calls. The product of
  \<open>nMaxFrameNum\<close> and 0.1 is not positive exactly when \<open>nMaxFrameNum\<close> is not.\<close>

definition StreamManagerCreate ::
  "addr \<Rightarrow> addr \<Rightarrow> int \<Rightarrow> int \<Rightarrow> int \<Rightarrow> StreamManager option \<times> addr mem_event list" where
  "StreamManagerCreate pStruct pNodes nMaxBufferSize nMaxFrameNum nStreamID =
     (if nMaxFrameNum \<le> 0 then (None, [])
      else if pStruct = 0 then (None, [])
      else if pNodes = 0 then (None, [Alloc pStruct, Free pStruct])
      else
        (Some \<lparr>sm_nMaxBufferSize = nMaxBufferSize, sm_nValidDataSize = 0, sm_nStreamID = nStreamID,
               sm_streamFifo =
                 \<lparr>smf_pFrames = replicate (nat nMaxFrameNum) sf_zero,
                  smf_nMaxFrameNum = nMaxFrameNum, smf_nReadPos = 0, smf_nWritePos = 0\<rparr>,
               sm_pMem = 0, sm_nMemSize = 0, sm_lostBaby = 0\<rparr>,
         [Alloc pStruct, Alloc pNodes]))"

definition sm_free_frames :: "StreamFifo \<Rightarrow> addr mem_event list exec" where
  "sm_free_frames f =
     (if length (smf_pFrames f) < nat (smf_nMaxFrameNum f) then Fault
      else Ok (concat (map c_free
             (map sf_pData (take (nat (smf_nMaxFrameNum f)) (smf_pFrames f))))))"

definition StreamManagerDestroy ::
  "addr \<Rightarrow> addr \<Rightarrow> StreamManager option \<Rightarrow> addr mem_event list exec" where
  "StreamManagerDestroy pStruct pNodes p = (case p of
       None \<Rightarrow> Ok []
     | Some s \<Rightarrow> ebind (sm_free_frames (sm_streamFifo s)) (\<lambda>es.
         Ok (es @ [Free pNodes] @ c_free (sm_pMem s) @ [Free pStruct])))"

definition StreamManagerReset ::
  "StreamManager option \<Rightarrow> (StreamManager option \<times> addr mem_event list) exec" where
  "StreamManagerReset p = (case p of
       None \<Rightarrow> Ok (None, [])
     | Some s \<Rightarrow> ebind (sm_free_frames (sm_streamFifo s)) (\<lambda>es.
         let f = sm_streamFifo s;
             n = nat (smf_nMaxFrameNum f);
             s1 = (if sm_pMem s \<noteq> 0
                   then s\<lparr>sm_lostBaby := sm_pMem s, sm_pMem := 0, sm_nMemSize := 0\<rparr> else s)
         in Ok (Some (s1\<lparr>sm_nValidDataSize := 0,
                        sm_streamFifo := f\<lparr>smf_pFrames := replicate n sf_zero @ drop n (smf_pFrames f),
                                           smf_nReadPos := 0, smf_nWritePos := 0\<rparr>\<rparr>), es)))"

definition StreamManagerBufferSize :: "StreamManager option \<Rightarrow> int" where
  "StreamManagerBufferSize p = (case p of None \<Rightarrow> 0 | Some s \<Rightarrow> sm_nMaxBufferSize s)"

definition StreamManagerStreamFrameNum :: "StreamManager option \<Rightarrow> int" where
  "StreamManagerStreamFrameNum p = (case p of None \<Rightarrow> 0 | Some s \<Rightarrow> validFrameNum (sm_streamFifo s))"

definition StreamManagerStreamDataSize :: "StreamManager option \<Rightarrow> int" where
  "StreamManagerStreamDataSize p = (case p of None \<Rightarrow> 0 | Some s \<Rightarrow> sm_nValidDataSize s)"

text \<open>\<open>mem\<close> is what \<open>malloc(nRequireSize)\<close> returns. The result is the return code, the values
  of \<open>*ppBuf\<close> and \<open>*pBufSize\<close>, and the manager.\<close>

definition StreamManagerRequestBuffer ::
  "StreamManager option \<Rightarrow> int \<Rightarrow> addr \<Rightarrow> int \<times> addr \<times> int \<times> StreamManager option" where
  "StreamManagerRequestBuffer p nRequireSize mem = (case p of
       None \<Rightarrow> (-1, 0, 0, None)
     | Some s \<Rightarrow>
         if invalidFrameNumTooSmall (sm_streamFifo s) then (-1, 0, 0, p)
         else if sm_nMaxBufferSize s \<le> sm_nValidDataSize s then (-1, 0, 0, p)
         else if sm_pMem s \<noteq> 0 then (-1, 0, 0, p)
         else if mem \<noteq> 0
           then (0, mem, nRequireSize, Some (s\<lparr>sm_pMem := mem, sm_nMemSize := nRequireSize\<rparr>))
         else (-1, 0, 0, p))"

definition StreamManagerAddStream ::
  "StreamManager option \<Rightarrow> StreamFrame option
     \<Rightarrow> (int \<times> StreamManager option \<times> addr mem_event list) exec" where
  "StreamManagerAddStream p pStreamFrame =
     (case (p, pStreamFrame) of
        (Some s, Some fr) \<Rightarrow>
          (let f = sm_streamFifo s;
               nWritePos = smf_nWritePos f
           in if invalidFrameNumTooSmall f then Ok (-1, p, [])
              else if sm_pMem s \<noteq> sf_pData fr \<or> sm_nMemSize s < sf_nLength fr then
                Ok (-1, p, if sm_lostBaby s = sf_pData fr then c_free (sf_pData fr) else [])
              else ebind (arr_get (smf_pFrames f) nWritePos) (\<lambda>old.
                ebind (arr_set (smf_pFrames f) nWritePos fr) (\<lambda>fs.
                  Ok (0,
                      Some (s\<lparr>sm_streamFifo := f\<lparr>smf_pFrames := fs,
                                smf_nWritePos := c_mod (nWritePos + 1) (smf_nMaxFrameNum f)\<rparr>,
                              sm_nValidDataSize := i32 (sm_nValidDataSize s + sf_nLength fr),
                              sm_pMem := 0, sm_nMemSize := 0\<rparr>),
                      c_free (sf_pData old)))))
      | _ \<Rightarrow> Ok (-1, p, []))"

text \<open>A \<open>StreamFrame*\<close> that the manager hands out is the position of the frame in the ring.\<close>

definition StreamManagerRequestStream ::
  "StreamManager option \<Rightarrow> (int option \<times> StreamManager option) exec" where
  "StreamManagerRequestStream p = (case p of
       None \<Rightarrow> Ok (None, None)
     | Some s \<Rightarrow>
         (let f = sm_streamFifo s;
              r = smf_nReadPos f
          in if validFrameNum f = 0 then Ok (None, p)
             else ebind (arr_get (smf_pFrames f) r) (\<lambda>fr.
               Ok (Some r,
                   Some (s\<lparr>sm_streamFifo := f\<lparr>smf_nReadPos := c_mod (r + 1) (smf_nMaxFrameNum f)\<rparr>,
                           sm_nValidDataSize := i32 (sm_nValidDataSize s - sf_nLength fr)\<rparr>)))))"

definition StreamManagerGetFrameInfo :: "StreamManager option \<Rightarrow> int \<Rightarrow> int option" where
  "StreamManagerGetFrameInfo p nFrameIndex = (case p of
       None \<Rightarrow> None
     | Some s \<Rightarrow>
         (let f = sm_streamFifo s;
              nPos = smf_nReadPos f + nFrameIndex
          in if nFrameIndex < 0 \<or> validFrameNum f \<le> nFrameIndex then None
             else if smf_nMaxFrameNum f \<le> nPos then Some (nPos - smf_nMaxFrameNum f)
             else Some nPos))"

definition StreamManagerReturnStream ::
  "StreamManager option \<Rightarrow> int option \<Rightarrow> (int \<times> StreamManager option) exec" where
  "StreamManagerReturnStream p pStreamFrame =
     (case (p, pStreamFrame) of
        (Some s, Some i) \<Rightarrow>
          (let f = sm_streamFifo s;
               nReadPos = ring_prev (smf_nReadPos f) (smf_nMaxFrameNum f)
           in if validFrameNum f = 0 then Ok (-1, p)
              else if i \<noteq> nReadPos then Abort
              else ebind (arr_get (smf_pFrames f) i) (\<lambda>fr.
                ebind (arr_set (smf_pFrames f) nReadPos fr) (\<lambda>fs.
                  Ok (0, Some (s\<lparr>sm_streamFifo := f\<lparr>smf_pFrames := fs, smf_nReadPos := nReadPos\<rparr>,
                                 sm_nValidDataSize := i32 (sm_nValidDataSize s + sf_nLength fr)\<rparr>)))))
      | _ \<Rightarrow> Ok (-1, p))"

definition StreamManagerFlushStream :: "StreamManager option \<Rightarrow> int option \<Rightarrow> int" where
  "StreamManagerFlushStream p pStreamFrame = 0"

text \<open>\<open>StreamManagerRewind\<close>. \<open>abs\<close> takes an \<open>int\<close>, so the 64-bit difference is cut to 32 bits
  first; the comparison with \<open>minDiff\<close> is one of \<open>uint64_t\<close> values.\<close>

definition pts_diff :: "int \<Rightarrow> int \<Rightarrow> int" where
  "pts_diff curTime nPts =
     (let d = i32 (curTime - nPts) in
      if d = -2147483648 then d + 18446744073709551616 else \<bar>d\<bar>)"

fun sm_nearest :: "int \<Rightarrow> StreamFrame list \<Rightarrow> nat \<Rightarrow> nat \<Rightarrow> nat \<times> int \<Rightarrow> nat exec" where
  "sm_nearest curTime fs n 0 best = Ok (fst best)"
| "sm_nearest curTime fs n (Suc k) best = ebind (arr_get fs (int n)) (\<lambda>fr.
     sm_nearest curTime fs (Suc n) k
       (if pts_diff curTime (sf_nPts fr) < snd best then (n, pts_diff curTime (sf_nPts fr)) else best))"

text \<open>The loop that adds up the data from position \<open>i\<close> to the write position. It has no bound of
  its own; \<open>None\<close> is a run that does not end or reads outside the ring.\<close>

partial_function (option) sm_data_from ::
  "StreamFrame list \<Rightarrow> int \<Rightarrow> int \<Rightarrow> int \<Rightarrow> int \<Rightarrow> int option" where
  "sm_data_from fs maxNum nWritePos i acc =
     (if i = nWritePos then Some acc
      else if i < 0 \<or> int (length fs) \<le> i then None
      else sm_data_from fs maxNum nWritePos (c_mod (i + 1) maxNum) (i32 (acc + sf_nLength (fs ! nat i))))"

definition StreamManagerRewind ::
  "StreamManager option \<Rightarrow> int \<Rightarrow> (int \<times> StreamManager option) exec" where
  "StreamManagerRewind p curTime = (case p of
       None \<Rightarrow> Fault
     | Some s \<Rightarrow>
         (let f = sm_streamFifo s;
              maxNum = smf_nMaxFrameNum f
          in ebind (sm_nearest curTime (smf_pFrames f) 0 (nat maxNum) (0, 18446744073709551615)) (\<lambda>find.
             ebind (arr_get (smf_pFrames f) (int find)) (\<lambda>fr.
               if int find = smf_nReadPos f \<or> sf_pData fr = 0 then Ok (0, p)
               else
                 (case sm_data_from (smf_pFrames f) maxNum (smf_nWritePos f) (int find) 0 of
                    None \<Rightarrow> Fault
                  | Some validDataSize \<Rightarrow>
                      Ok (0, Some (s\<lparr>sm_nValidDataSize := validDataSize,
                                     sm_streamFifo := f\<lparr>smf_nReadPos := int find\<rparr>\<rparr>)))))))"

section \<open>The pending frames\<close>

text \<open>A ring of \<open>n\<close> frames whose \<open>k\<close> pending ones start at position \<open>r\<close>. The data count is the
  sum of their lengths as far as an \<open>int\<close> can hold it.\<close>

definition sm_lengths :: "StreamFrame list \<Rightarrow> int" where
  "sm_lengths fs = sum_list (map sf_nLength fs)"

definition sm_at :: "StreamManager \<Rightarrow> nat \<Rightarrow> nat \<Rightarrow> nat \<Rightarrow> bool" where
  "sm_at s n r k \<longleftrightarrow>
     length (smf_pFrames (sm_streamFifo s)) = n \<and> smf_nMaxFrameNum (sm_streamFifo s) = int n \<and>
     r < n \<and> k < n \<and>
     smf_nReadPos (sm_streamFifo s) = int r \<and> smf_nWritePos (sm_streamFifo s) = int ((r + k) mod n) \<and>
     sm_nValidDataSize s = i32 (sm_lengths (ring_slice (smf_pFrames (sm_streamFifo s)) r k))"

definition sm_inv :: "StreamManager \<Rightarrow> bool" where
  "sm_inv s \<longleftrightarrow> 10 \<le> length (smf_pFrames (sm_streamFifo s)) \<and> sm_at s (length (smf_pFrames (sm_streamFifo s)))
     (nat (smf_nReadPos (sm_streamFifo s))) (nat (validFrameNum (sm_streamFifo s)))"

definition sm_pending :: "StreamManager \<Rightarrow> StreamFrame list" where
  "sm_pending s = ring_slice (smf_pFrames (sm_streamFifo s))
     (nat (smf_nReadPos (sm_streamFifo s))) (nat (validFrameNum (sm_streamFifo s)))"

lemma ring_distance:
  fixes n r k :: nat
  assumes "r < n" "k < n"
  shows "c_mod (int ((r + k) mod n) - int r + int n) (int n) = int k"
proof -
  have "c_mod (int ((r + k) mod n) - int r + int n) (int n) = (int ((r + k) mod n) - int r + int n) mod int n"
    using assms by (intro c_mod_nonneg) auto
  also have "\<dots> = (int (r + k) mod int n - int r + int n) mod int n" by (simp add: zmod_int)
  also have "\<dots> = (int (r + k) - int r) mod int n" by (simp add: mod_diff_left_eq)
  finally show ?thesis using assms by simp
qed

lemma sm_at_valid: "sm_at s n r k \<Longrightarrow> validFrameNum (sm_streamFifo s) = int k"
  by (simp add: sm_at_def validFrameNum_def ring_distance)

lemma sm_at_inv:
  assumes "sm_at s n r k"
  shows "10 \<le> n \<Longrightarrow> sm_inv s" "sm_pending s = ring_slice (smf_pFrames (sm_streamFifo s)) r k"
  using assms sm_at_valid [OF assms] by (simp_all add: sm_inv_def sm_pending_def sm_at_def)

lemma sm_inv_at:
  assumes "sm_inv s"
  obtains n r k where "sm_at s n r k" "10 \<le> n"
  using assms by (auto simp: sm_inv_def)

lemma preserve_num_nat: "preserve_num (int n) = int (n div 10)"
  by (simp add: preserve_num_def c_div_nonneg zdiv_int)

lemma sm_at_room:
  "sm_at s n r k \<Longrightarrow> invalidFrameNumTooSmall (sm_streamFifo s) \<longleftrightarrow> n - k \<le> n div 10"
  using sm_at_valid [of s n r k]
  by (auto simp: invalidFrameNumTooSmall_def sm_at_def preserve_num_nat)

lemma i32_add_cong: "a = i32 x \<Longrightarrow> i32 (a + b) = i32 (x + b)"
  by (simp add: i32_add_left)

lemma c_mod_Suc: "p < n \<Longrightarrow> c_mod (int p + 1) (int n) = int (Suc p mod n)"
  by (simp add: c_mod_nonneg zmod_int add.commute)

lemma StreamManagerAddStream_room:
  assumes "sm_at s n r k" "n div 10 < n - k" "10 \<le> n" "sm_pMem s = sf_pData fr" "sf_nLength fr \<le> sm_nMemSize s"
  shows "\<exists>s'. StreamManagerAddStream (Some s) (Some fr) =
      Ok (0, Some s', c_free (sf_pData (smf_pFrames (sm_streamFifo s) ! ((r + k) mod n)))) \<and>
    sm_at s' n r (Suc k) \<and>
    smf_pFrames (sm_streamFifo s') = (smf_pFrames (sm_streamFifo s))[(r + k) mod n := fr] \<and>
    sm_pMem s' = 0 \<and> sm_lostBaby s' = sm_lostBaby s"
proof -
  define fs where "fs = smf_pFrames (sm_streamFifo s)"
  have l: "length fs = n" "0 < n" using assms(1) by (auto simp: sm_at_def fs_def)
  have k: "Suc k < n" using assms(1-3) by (auto simp: sm_at_def)
  let ?w = "(r + k) mod n"
  have w: "?w < n" using l by simp
  let ?s = "s\<lparr>sm_streamFifo := sm_streamFifo s\<lparr>smf_pFrames := fs[?w := fr],
        smf_nWritePos := int (Suc ?w mod n)\<rparr>,
      sm_nValidDataSize := i32 (sm_nValidDataSize s + sf_nLength fr), sm_pMem := 0, sm_nMemSize := 0\<rparr>"
  have "StreamManagerAddStream (Some s) (Some fr) = Ok (0, Some ?s, c_free (sf_pData (fs ! ?w)))"
    using assms sm_at_room [OF assms(1)] w c_mod_Suc [OF w] l
    by (simp add: StreamManagerAddStream_def sm_at_def fs_def Let_def arr_get_def arr_set_def)
  moreover have "sm_at ?s n r (Suc k)"
    using assms(1) l k ring_slice_write [of k fs r fr] i32_add_cong [of "sm_nValidDataSize s"]
    by (simp add: sm_at_def fs_def sm_lengths_def mod_Suc_eq)
  ultimately show ?thesis by (simp add: fs_def)
qed

lemma StreamManagerRequestStream_some:
  assumes "sm_at s n r (Suc k)"
  shows "\<exists>s'. StreamManagerRequestStream (Some s) = Ok (Some (int r), Some s') \<and>
    sm_at s' n (Suc r mod n) k \<and> smf_pFrames (sm_streamFifo s') = smf_pFrames (sm_streamFifo s) \<and>
    sm_pMem s' = sm_pMem s \<and> sm_nMemSize s' = sm_nMemSize s \<and> sm_lostBaby s' = sm_lostBaby s"
proof -
  define fs where "fs = smf_pFrames (sm_streamFifo s)"
  have l: "length fs = n" "r < n" using assms by (auto simp: sm_at_def fs_def)
  let ?s = "s\<lparr>sm_streamFifo := sm_streamFifo s\<lparr>smf_nReadPos := int (Suc r mod n)\<rparr>,
      sm_nValidDataSize := i32 (sm_nValidDataSize s - sf_nLength (fs ! r))\<rparr>"
  have "StreamManagerRequestStream (Some s) = Ok (Some (int r), Some ?s)"
    using assms sm_at_valid [OF assms] l c_mod_Suc [of r n]
    by (simp add: StreamManagerRequestStream_def sm_at_def fs_def Let_def arr_get_def)
  moreover have "(Suc r mod n + k) mod n = (r + Suc k) mod n" by (simp add: mod_add_left_eq)
  moreover have "i32 (sm_nValidDataSize s - sf_nLength (fs ! r)) =
      i32 (sm_lengths (ring_slice fs (Suc r) k))"
    using assms l i32_add_cong [of "sm_nValidDataSize s" _ "- sf_nLength (fs ! r)"] ring_slice_Cons [of fs r k]
    by (simp add: sm_at_def sm_lengths_def fs_def)
  ultimately show ?thesis
    using assms l ring_slice_Suc_mod [of fs r k] by (simp add: sm_at_def fs_def)
qed

lemma StreamManagerReturnStream_some:
  assumes "sm_at s n (Suc r mod n) k" "r < n" "0 < k" "Suc k < n"
  shows "\<exists>s'. StreamManagerReturnStream (Some s) (Some (int r)) = Ok (0, Some s') \<and>
    sm_at s' n r (Suc k) \<and> smf_pFrames (sm_streamFifo s') = smf_pFrames (sm_streamFifo s) \<and>
    sm_pMem s' = sm_pMem s \<and> sm_nMemSize s' = sm_nMemSize s \<and> sm_lostBaby s' = sm_lostBaby s"
proof -
  define fs where "fs = smf_pFrames (sm_streamFifo s)"
  have l: "length fs = n" "0 < n" using assms by (auto simp: sm_at_def fs_def)
  have prev: "ring_prev (int (Suc r mod n)) (int n) = int r" using ring_prev_mod [of 0 n r] l assms(2) by simp
  let ?s = "s\<lparr>sm_streamFifo := sm_streamFifo s\<lparr>smf_nReadPos := int r\<rparr>,
      sm_nValidDataSize := i32 (sm_nValidDataSize s + sf_nLength (fs ! r))\<rparr>"
  have "StreamManagerReturnStream (Some s) (Some (int r)) = Ok (0, Some ?s)"
    using assms sm_at_valid [OF assms(1)] l prev
    by (simp add: StreamManagerReturnStream_def sm_at_def fs_def Let_def arr_get_def arr_set_def)
  moreover have "(Suc r mod n + k) mod n = (r + Suc k) mod n" by (simp add: mod_add_left_eq)
  moreover have "i32 (sm_nValidDataSize s + sf_nLength (fs ! r)) =
      i32 (sm_lengths (ring_slice fs r (Suc k)))"
    using assms l ring_slice_Cons [of fs r k] ring_slice_Suc_mod [of fs r k]
    by (simp add: sm_at_def sm_lengths_def fs_def add.commute i32_add_right)
  ultimately show ?thesis using assms l by (simp add: sm_at_def fs_def)
qed

text \<open>The loops of \<open>StreamManagerRewind\<close>: the first frame nearest to the given time, and the sum
  of the data from a position on, which takes as many turns as there are frames up to the write
  position.\<close>

lemma pts_diff_bounds: "0 \<le> pts_diff c p \<and> pts_diff c p < 18446744073709551615"
  using i32_range [of "c - p"] by (auto simp: pts_diff_def Let_def int32_range_def)

lemma sm_nearest_least:
  assumes "i + k \<le> length fs"
    "\<forall>m < i. snd best \<le> pts_diff c (sf_nPts (fs ! m))"
    "fst best < i \<and> snd best = pts_diff c (sf_nPts (fs ! fst best)) \<or> i = 0 \<and> 0 < k \<and> snd best = 18446744073709551615"
  shows "\<exists>j < i + k. sm_nearest c fs i k best = Ok j \<and>
    (\<forall>m < i + k. pts_diff c (sf_nPts (fs ! j)) \<le> pts_diff c (sf_nPts (fs ! m)))"
  using assms
proof (induction k arbitrary: i best)
  case 0
  then show ?case by (intro exI [of _ "fst best"]) auto
next
  case (Suc k)
  let ?d = "pts_diff c (sf_nPts (fs ! i))"
  let ?b = "if ?d < snd best then (i, ?d) else best"
  have "\<forall>m < Suc i. snd ?b \<le> pts_diff c (sf_nPts (fs ! m))"
    using Suc.prems(2) by (auto simp: less_Suc_eq)
  moreover have "fst ?b < Suc i \<and> snd ?b = pts_diff c (sf_nPts (fs ! fst ?b))"
    using Suc.prems(3) pts_diff_bounds [of c "sf_nPts (fs ! i)"] by auto
  ultimately obtain j where "j < Suc i + k" "sm_nearest c fs (Suc i) k ?b = Ok j"
      "\<forall>m < Suc i + k. pts_diff c (sf_nPts (fs ! j)) \<le> pts_diff c (sf_nPts (fs ! m))"
    using Suc.IH [of "Suc i" ?b] Suc.prems(1) by auto
  then show ?case using Suc.prems(1) by (auto simp: arr_get_def)
qed

lemma sm_data_from_sum:
  assumes "k < length fs" "acc = i32 a"
  shows "sm_data_from fs (int (length fs)) (int ((j + k) mod length fs)) (int (j mod length fs)) acc =
    Some (i32 (a + sm_lengths (ring_slice fs j k)))"
  using assms
proof (induction k arbitrary: j a acc)
  case 0
  then show ?case by (subst sm_data_from.simps) (simp add: sm_lengths_def)
next
  case (Suc k)
  let ?n = "length fs"
  have n: "0 < ?n" using Suc.prems by auto
  have ne: "j mod ?n \<noteq> (j + Suc k) mod ?n"
    using ring_pos_neq [of 0 "Suc k" ?n j] Suc.prems by simp
  have step: "c_mod (int (j mod ?n) + 1) (int ?n) = int (Suc j mod ?n)"
    using c_mod_Suc [of "j mod ?n" ?n] n by (simp add: mod_Suc_eq)
  have "sm_data_from fs (int ?n) (int ((j + Suc k) mod ?n)) (int (j mod ?n)) acc =
      sm_data_from fs (int ?n) (int ((Suc j + k) mod ?n)) (int (Suc j mod ?n))
        (i32 (a + sf_nLength (fs ! (j mod ?n))))"
    using ne Suc.prems(2) mod_less_divisor [OF n, of j]
    by (subst sm_data_from.simps) (simp add: step i32_add_left not_le)
  also have "\<dots> = Some (i32 (a + sf_nLength (fs ! (j mod ?n)) + sm_lengths (ring_slice fs (Suc j) k)))"
    using Suc.IH [where j = "Suc j" and a = "a + sf_nLength (fs ! (j mod ?n))"] Suc.prems(1) by simp
  finally show ?case by (simp add: ring_slice_Cons sm_lengths_def add.assoc)
qed

lemma StreamManagerRewind_ok:
  assumes "sm_at s n r k"
  shows "\<exists>s' j r' k'. StreamManagerRewind (Some s) c = Ok (0, Some s') \<and> sm_at s' n r' k' \<and> j < n \<and>
    (\<forall>m < n. pts_diff c (sf_nPts (smf_pFrames (sm_streamFifo s) ! j)) \<le>
             pts_diff c (sf_nPts (smf_pFrames (sm_streamFifo s) ! m))) \<and>
    (if j = r \<or> sf_pData (smf_pFrames (sm_streamFifo s) ! j) = 0 then s' = s \<and> r' = r \<and> k' = k
     else r' = j \<and> (j + k') mod n = (r + k) mod n) \<and>
    smf_pFrames (sm_streamFifo s') = smf_pFrames (sm_streamFifo s) \<and>
    sm_pMem s' = sm_pMem s \<and> sm_nMemSize s' = sm_nMemSize s \<and> sm_lostBaby s' = sm_lostBaby s"
proof -
  define fs where "fs = smf_pFrames (sm_streamFifo s)"
  have l: "length fs = n" "0 < n" using assms by (auto simp: sm_at_def fs_def)
  obtain j where j: "j < n" "sm_nearest c fs 0 n (0, 18446744073709551615) = Ok j"
      "\<forall>m < n. pts_diff c (sf_nPts (fs ! j)) \<le> pts_diff c (sf_nPts (fs ! m))"
    using sm_nearest_least [of 0 n fs "(0, 18446744073709551615)" c] l by auto
  have rw: "StreamManagerRewind (Some s) c =
      (if j = r \<or> sf_pData (fs ! j) = 0 then Ok (0, Some s)
       else (case sm_data_from fs (int n) (int ((r + k) mod n)) (int j) 0 of None \<Rightarrow> Fault
         | Some d \<Rightarrow> Ok (0, Some (s\<lparr>sm_nValidDataSize := d,
             sm_streamFifo := sm_streamFifo s\<lparr>smf_nReadPos := int j\<rparr>\<rparr>))))"
    using assms j l by (simp add: StreamManagerRewind_def sm_at_def fs_def Let_def arr_get_def)
  show ?thesis
  proof (cases "j = r \<or> sf_pData (fs ! j) = 0")
    case True
    show ?thesis
      by (rule exI [of _ s], rule exI [of _ j], rule exI [of _ r], rule exI [of _ k])
        (use True rw j assms in \<open>auto simp: fs_def\<close>)
  next
    case False
    define k' where "k' = (r + k + (n - j)) mod n"
    have k': "k' < n" "(j + k') mod n = (r + k) mod n"
      using j(1) l by (simp_all add: k'_def mod_add_right_eq)
    let ?s = "s\<lparr>sm_nValidDataSize := i32 (sm_lengths (ring_slice fs j k')),
        sm_streamFifo := sm_streamFifo s\<lparr>smf_nReadPos := int j\<rparr>\<rparr>"
    have "StreamManagerRewind (Some s) c = Ok (0, Some ?s)"
      using False rw sm_data_from_sum [of k' fs 0 0 j] k' j(1) l by (simp add: i32_def)
    note rewound = this
    have "sm_at ?s n j k'" using assms k' j(1) by (simp add: sm_at_def fs_def)
    note facts = this rewound False j k'
    show ?thesis
      by (rule exI [of _ ?s], rule exI [of _ j], rule exI [of _ j], rule exI [of _ k'])
        (use facts in \<open>auto simp: fs_def\<close>)
  qed
qed

text \<open>A producer that gets a buffer and adds the frame, and a consumer that takes one.\<close>

definition sm_put :: "StreamFrame \<Rightarrow> StreamManager \<Rightarrow> StreamManager option" where
  "sm_put fr s =
     (case StreamManagerRequestBuffer (Some s) (sf_nLength fr) (sf_pData fr) of
        (r, _, _, p) \<Rightarrow>
          if r \<noteq> 0 then None
          else (case StreamManagerAddStream p (Some fr) of
                  Ok (r', p', _) \<Rightarrow> if r' = 0 then p' else None
                | _ \<Rightarrow> None))"

definition sm_get :: "StreamManager \<Rightarrow> (StreamFrame \<times> StreamManager) option" where
  "sm_get s =
     (case StreamManagerRequestStream (Some s) of
        Ok (Some i, Some s') \<Rightarrow> Some (smf_pFrames (sm_streamFifo s) ! nat i, s')
      | _ \<Rightarrow> None)"

lemma sm_put_law:
  assumes "sm_inv s" "sm_put fr s = Some s'"
  shows "sm_inv s' \<and> sm_pending s' = sm_pending s @ [fr]"
proof -
  obtain n r k where at: "sm_at s n r k" "10 \<le> n" using sm_inv_at [OF assms(1)] .
  let ?s = "s\<lparr>sm_pMem := sf_pData fr, sm_nMemSize := sf_nLength fr\<rparr>"
  have rq: "\<not> invalidFrameNumTooSmall (sm_streamFifo s)"
    "StreamManagerRequestBuffer (Some s) (sf_nLength fr) (sf_pData fr) =
      (0, sf_pData fr, sf_nLength fr, Some ?s)"
    using assms(2) by (auto simp: sm_put_def StreamManagerRequestBuffer_def split: if_splits)
  have at': "sm_at ?s n r k" using at(1) by (simp add: sm_at_def)
  have room: "n div 10 < n - k" using rq(1) sm_at_room [OF at(1)] by simp
  obtain t where t: "StreamManagerAddStream (Some ?s) (Some fr) =
      Ok (0, Some t, c_free (sf_pData (smf_pFrames (sm_streamFifo ?s) ! ((r + k) mod n))))"
    "sm_at t n r (Suc k)"
    "smf_pFrames (sm_streamFifo t) = (smf_pFrames (sm_streamFifo s))[(r + k) mod n := fr]"
    using StreamManagerAddStream_room [OF at' room at(2), of fr] by auto
  have "s' = t" using assms(2) rq(2) t(1) by (simp add: sm_put_def)
  moreover have "k < length (smf_pFrames (sm_streamFifo s))" "length (smf_pFrames (sm_streamFifo s)) = n"
    using at by (auto simp: sm_at_def)
  ultimately show ?thesis
    using sm_at_inv(1) [OF t(2) at(2)] sm_at_inv(2) [OF t(2)] sm_at_inv(2) [OF at(1)] t(3)
      ring_slice_write [of k "smf_pFrames (sm_streamFifo s)" r fr] by simp
qed

lemma sm_get_law:
  assumes "sm_inv s" "sm_pending s = fr # frs"
  shows "\<exists>s'. sm_get s = Some (fr, s') \<and> sm_inv s' \<and> sm_pending s' = frs"
proof -
  obtain n r k where at: "sm_at s n r k" "10 \<le> n" using sm_inv_at [OF assms(1)] .
  have l: "length (smf_pFrames (sm_streamFifo s)) = n" "r < n" using at by (auto simp: sm_at_def)
  obtain k' where k: "k = Suc k'"
    using assms(2) sm_at_inv(2) [OF at(1)] by (cases k) auto
  obtain s' where s': "StreamManagerRequestStream (Some s) = Ok (Some (int r), Some s')"
    "sm_at s' n (Suc r mod n) k'" "smf_pFrames (sm_streamFifo s') = smf_pFrames (sm_streamFifo s)"
    using StreamManagerRequestStream_some at(1) k by blast
  have "sm_pending s' = ring_slice (smf_pFrames (sm_streamFifo s)) (Suc r) k'"
    using sm_at_inv(2) [OF s'(2)] s'(3) ring_slice_Suc_mod l(1) by metis
  moreover have "sm_pending s = smf_pFrames (sm_streamFifo s) ! r # ring_slice (smf_pFrames (sm_streamFifo s)) (Suc r) k'"
    using sm_at_inv(2) [OF at(1)] l by (simp add: k ring_slice_Cons)
  ultimately show ?thesis
    using assms(2) s'(1) sm_at_inv(1) [OF s'(2) at(2)] by (simp add: sm_get_def)
qed

lemma sm_get_empty:
  assumes "sm_inv s" "sm_pending s = []"
  shows "sm_get s = None"
proof -
  obtain n r k where at: "sm_at s n r k" using sm_inv_at [OF assms(1)] .
  then have "k = 0" using assms(2) sm_at_inv(2) [OF at] by simp
  then show ?thesis
    using sm_at_valid [OF at] by (simp add: sm_get_def StreamManagerRequestStream_def)
qed

interpretation smq: frame_fifo sm_inv sm_pending "\<lambda>_. True" id sm_put sm_get
proof
  show "sm_inv s' \<and> sm_pending s' = sm_pending s @ [id fr]"
    if "sm_inv s" "sm_put fr s = Some s'" for s fr s'
    using sm_put_law [OF that] by simp
qed (fact sm_get_empty sm_get_law)+

section \<open>Ownership of the data blocks\<close>

text \<open>The manager with its clients: the live data blocks, the buffer the producer has been lent,
  and the frame the consumer requested last and may still return. A reset may come at any time,
  also while the producer fills its buffer; the block is then no longer the manager's and is
  freed when the producer comes back with it.\<close>

record SmWorld =
  smw_s :: StreamManager
  smw_live :: "addr list"
  smw_lease :: "(addr \<times> int) option"
  smw_last :: "int option"

inductive sm_step :: "SmWorld \<Rightarrow> SmWorld \<Rightarrow> bool" where
  request: "smw_lease w = None \<Longrightarrow> mem \<notin> set (smw_live w) \<Longrightarrow>
    StreamManagerRequestBuffer (Some (smw_s w)) need mem = (0, buf, bufsize, Some s) \<Longrightarrow>
    sm_step w (w\<lparr>smw_s := s, smw_live := mem # smw_live w, smw_lease := Some (buf, bufsize)\<rparr>)"
| submit: "smw_lease w = Some (buf, bufsize) \<Longrightarrow> sf_pData fr = buf \<Longrightarrow> sf_nLength fr \<le> bufsize \<Longrightarrow>
    StreamManagerAddStream (Some (smw_s w)) (Some fr) = Ok (ret, Some s, es) \<Longrightarrow>
    sm_step w (w\<lparr>smw_s := s, smw_live := live_blocks (smw_live w) es,
                 smw_lease := (if sm_pMem s = buf then smw_lease w else None)\<rparr>)"
| take: "StreamManagerRequestStream (Some (smw_s w)) = Ok (i, Some s) \<Longrightarrow>
    sm_step w (w\<lparr>smw_s := s, smw_last := i\<rparr>)"
| give_back: "smw_last w = Some i \<Longrightarrow>
    StreamManagerReturnStream (Some (smw_s w)) (Some i) = Ok (ret, Some s) \<Longrightarrow>
    sm_step w (w\<lparr>smw_s := s, smw_last := None\<rparr>)"
| rewind: "StreamManagerRewind (Some (smw_s w)) curTime = Ok (ret, Some s) \<Longrightarrow>
    sm_step w (w\<lparr>smw_s := s, smw_last := None\<rparr>)"
| reset: "StreamManagerReset (Some (smw_s w)) = Ok (Some s, es) \<Longrightarrow>
    sm_step w (w\<lparr>smw_s := s, smw_live := live_blocks (smw_live w) es, smw_last := None\<rparr>)"

definition sm_blocks :: "StreamManager \<Rightarrow> addr multiset" where
  "sm_blocks s = filter_mset (\<lambda>p. p \<noteq> 0)
     (add_mset (sm_pMem s) (mset (map sf_pData (smf_pFrames (sm_streamFifo s)))))"

text \<open>The lent buffer is either the manager's own or, after a reset, the lost one; then the ring
  holds nothing.\<close>

definition sm_stale :: "SmWorld \<Rightarrow> addr multiset" where
  "sm_stale w = (case smw_lease w of
      None \<Rightarrow> {#}
    | Some (buf, _) \<Rightarrow> if sm_pMem (smw_s w) = buf then {#} else {#buf#})"

definition sm_lease_ok :: "SmWorld \<Rightarrow> bool" where
  "sm_lease_ok w \<longleftrightarrow> (case smw_lease w of
      None \<Rightarrow> sm_pMem (smw_s w) = 0
    | Some (buf, bufsize) \<Rightarrow> buf \<noteq> 0 \<and>
        (sm_pMem (smw_s w) = buf \<and> sm_nMemSize (smw_s w) = bufsize \<or>
         sm_pMem (smw_s w) = 0 \<and> sm_lostBaby (smw_s w) = buf \<and>
         validFrameNum (sm_streamFifo (smw_s w)) = 0 \<and>
         set (map sf_pData (smf_pFrames (sm_streamFifo (smw_s w)))) \<subseteq> {0}))"

definition sm_last_ok :: "SmWorld \<Rightarrow> nat \<Rightarrow> nat \<Rightarrow> nat \<Rightarrow> bool" where
  "sm_last_ok w n r k \<longleftrightarrow>
     (case smw_last w of None \<Rightarrow> True | Some i \<Rightarrow> (\<exists>j < n. i = int j \<and> r = Suc j mod n) \<and> Suc k < n)"

definition sm_world_at :: "SmWorld \<Rightarrow> nat \<Rightarrow> nat \<Rightarrow> nat \<Rightarrow> bool" where
  "sm_world_at w n r k \<longleftrightarrow> sm_at (smw_s w) n r k \<and> 20 \<le> n \<and> sm_lease_ok w \<and> sm_last_ok w n r k \<and>
     mset (smw_live w) = sm_blocks (smw_s w) + sm_stale w"

definition sm_world_inv :: "SmWorld \<Rightarrow> bool" where
  "sm_world_inv w \<longleftrightarrow> (\<exists>n r k. sm_world_at w n r k)"

lemma sm_world_last:
  "sm_world_at w n r k \<Longrightarrow> sm_world_at (w\<lparr>smw_s := smw_s w, smw_last := None\<rparr>) n r k"
  by (auto simp: sm_world_at_def sm_last_ok_def sm_lease_ok_def sm_stale_def split: option.splits)

lemma c_free_trace:
  assumes "p = 0 \<or> p \<in> set L"
  shows "frees_ok L (c_free p)" "mset (live_blocks L (c_free p)) = mset L - filter_mset (\<lambda>p. p \<noteq> 0) {#p#}"
  using assms by (auto simp: c_free_def)

lemma sm_blocks_write:
  assumes "w < length fs"
  shows "filter_mset P (mset (map sf_pData (fs[w := fr]))) =
    filter_mset P (mset (map sf_pData fs)) - filter_mset P {#sf_pData (fs ! w)#} + filter_mset P {#sf_pData fr#}"
  using assms by (simp add: map_update mset_update)

lemma sm_blocks_slot:
  "i < length (smf_pFrames (sm_streamFifo s)) \<Longrightarrow>
    sf_pData (smf_pFrames (sm_streamFifo s) ! i) = 0 \<or> sf_pData (smf_pFrames (sm_streamFifo s) ! i) \<in># sm_blocks s"
  by (auto simp: sm_blocks_def)

lemma sm_blocks_added:
  assumes "i < length (smf_pFrames (sm_streamFifo s))"
    "smf_pFrames (sm_streamFifo t) = (smf_pFrames (sm_streamFifo s))[i := fr]" "sm_pMem t = 0"
    "sm_pMem s = sf_pData fr"
  shows "sm_blocks t = sm_blocks s - filter_mset (\<lambda>p. p \<noteq> 0) {#sf_pData (smf_pFrames (sm_streamFifo s) ! i)#}"
proof -
  let ?M = "filter_mset (\<lambda>p. p \<noteq> 0) (mset (map sf_pData (smf_pFrames (sm_streamFifo s))))"
  let ?O = "filter_mset (\<lambda>p. p \<noteq> 0) {#sf_pData (smf_pFrames (sm_streamFifo s) ! i)#}"
  let ?B = "filter_mset (\<lambda>p. p \<noteq> 0) {#sf_pData fr#}"
  have "?O \<subseteq># ?M" using assms(1) by (intro multiset_filter_mono) simp
  then have "?M - ?O + ?B = ?M + ?B - ?O" by (simp add: subset_mset.add_diff_assoc2)
  moreover have "sm_blocks s = ?M + ?B" using assms(4) by (simp add: sm_blocks_def)
  moreover have "sm_blocks t = ?M - ?O + ?B"
    using sm_blocks_write [OF assms(1)] assms(2,3) by (simp add: sm_blocks_def)
  ultimately show ?thesis by simp
qed

lemma sm_submit_ok:
  assumes "sm_world_at w n r k" "smw_lease w = Some (buf, bufsize)" "sf_pData fr = buf"
    "sf_nLength fr \<le> bufsize"
  shows "\<exists>ret s es k'. StreamManagerAddStream (Some (smw_s w)) (Some fr) = Ok (ret, Some s, es) \<and>
    frees_ok (smw_live w) es \<and>
    sm_world_at (w\<lparr>smw_s := s, smw_live := live_blocks (smw_live w) es,
                 smw_lease := (if sm_pMem s = buf then smw_lease w else None)\<rparr>) n r k'"
proof -
  let ?s = "smw_s w"
  let ?fs = "smf_pFrames (sm_streamFifo ?s)"
  have at: "sm_at ?s n r k" and n: "20 \<le> n" and lease: "sm_lease_ok w" and last: "sm_last_ok w n r k"
    and live: "mset (smw_live w) = sm_blocks ?s + sm_stale w" and buf: "buf \<noteq> 0"
    using assms(1,2) by (auto simp: sm_world_at_def sm_lease_ok_def)
  have room: "invalidFrameNumTooSmall (sm_streamFifo ?s) \<longleftrightarrow> n - k \<le> n div 10" using sm_at_room [OF at] .
  show ?thesis
  proof (cases "sm_pMem ?s = buf")
    case False
    then have st: "sm_pMem ?s = 0" "sm_lostBaby ?s = buf" "k = 0" "sm_stale w = {#buf#}"
      using lease assms(2) sm_at_valid [OF at] by (auto simp: sm_lease_ok_def sm_stale_def)
    have "\<not> n - k \<le> n div 10" using n st(3) by simp
    then have "StreamManagerAddStream (Some ?s) (Some fr) = Ok (-1, Some ?s, c_free buf)"
      using room st False assms(3) by (simp add: StreamManagerAddStream_def Let_def)
    moreover have "buf \<in> set (smw_live w)" using live st(4) by (metis multi_member_this set_mset_mset union_iff)
    moreover have "sm_world_at (w\<lparr>smw_s := ?s, smw_live := live_blocks (smw_live w) (c_free buf),
        smw_lease := None\<rparr>) n r k"
      using at n last live st c_free_trace [of buf "smw_live w"] calculation(2) buf
      by (simp add: sm_world_at_def sm_lease_ok_def sm_last_ok_def sm_stale_def)
    ultimately show ?thesis using c_free_trace(1) [of buf "smw_live w"] False by auto
  next
    case True
    then have st: "sm_nMemSize ?s = bufsize" "sm_stale w = {#}"
      using lease assms(2) buf by (auto simp: sm_lease_ok_def sm_stale_def)
    show ?thesis
    proof (cases "n - k \<le> n div 10")
      case full: True
      then have "StreamManagerAddStream (Some ?s) (Some fr) = Ok (-1, Some ?s, [])"
        using room by (simp add: StreamManagerAddStream_def)
      moreover have "w\<lparr>smw_s := ?s, smw_live := smw_live w, smw_lease := smw_lease w\<rparr> = w" by simp
      ultimately show ?thesis using assms(1) True by (auto intro!: exI [of _ k])
    next
      case free: False
      let ?w = "(r + k) mod n"
      have w: "?w < length ?fs" "length ?fs = n" using at by (auto simp: sm_at_def)
      obtain s where s: "StreamManagerAddStream (Some ?s) (Some fr) = Ok (0, Some s, c_free (sf_pData (?fs ! ?w)))"
          "sm_at s n r (Suc k)" "smf_pFrames (sm_streamFifo s) = ?fs[?w := fr]" "sm_pMem s = 0"
        using StreamManagerAddStream_room [OF at, of fr] free n True st(1) assms(3,4) by auto
      have own: "sf_pData (?fs ! ?w) = 0 \<or> sf_pData (?fs ! ?w) \<in> set (smw_live w)"
        using sm_blocks_slot [OF w(1)] live by (metis set_mset_mset union_iff)
      have blocks: "sm_blocks s = sm_blocks ?s - filter_mset (\<lambda>p. p \<noteq> 0) {#sf_pData (?fs ! ?w)#}"
        using sm_blocks_added [OF w(1) s(3,4)] True assms(3) by simp
      have "sm_world_at (w\<lparr>smw_s := s, smw_live := live_blocks (smw_live w) (c_free (sf_pData (?fs ! ?w))),
          smw_lease := None\<rparr>) n r (Suc k)"
        using s n last live st c_free_trace(2) [OF own] blocks free
        by (auto simp: sm_world_at_def sm_lease_ok_def sm_last_ok_def sm_stale_def split: option.splits)
      then show ?thesis using s(1,4) buf c_free_trace(1) [OF own] by auto
    qed
  qed
qed

lemma sm_take_ok:
  assumes "sm_world_at w n r k"
  shows "\<exists>i s r' k'. StreamManagerRequestStream (Some (smw_s w)) = Ok (i, Some s) \<and>
    sm_world_at (w\<lparr>smw_s := s, smw_last := i\<rparr>) n r' k'"
proof -
  let ?s = "smw_s w"
  have at: "sm_at ?s n r k" using assms by (simp add: sm_world_at_def)
  show ?thesis
  proof (cases k)
    case 0
    then have "StreamManagerRequestStream (Some ?s) = Ok (None, Some ?s)"
      using sm_at_valid [OF at] by (simp add: StreamManagerRequestStream_def)
    then show ?thesis using sm_world_last assms(1) by blast
  next
    case (Suc k')
    obtain s where s: "StreamManagerRequestStream (Some ?s) = Ok (Some (int r), Some s)"
      "sm_at s n (Suc r mod n) k'" "smf_pFrames (sm_streamFifo s) = smf_pFrames (sm_streamFifo ?s)"
      "sm_pMem s = sm_pMem ?s" "sm_nMemSize s = sm_nMemSize ?s" "sm_lostBaby s = sm_lostBaby ?s"
      using StreamManagerRequestStream_some at Suc by blast
    have "r < n" "Suc k' < n" using at Suc by (auto simp: sm_at_def)
    moreover have "validFrameNum (sm_streamFifo ?s) \<noteq> 0" using sm_at_valid [OF at] Suc by simp
    ultimately have "sm_world_at (w\<lparr>smw_s := s, smw_last := Some (int r)\<rparr>) n (Suc r mod n) k'"
      using assms s
      by (auto simp: sm_world_at_def sm_last_ok_def sm_lease_ok_def sm_stale_def sm_blocks_def split: option.splits)
    then show ?thesis using s(1) by blast
  qed
qed

lemma sm_give_back_ok:
  assumes "sm_world_at w n r k" "smw_last w = Some i"
  shows "\<exists>ret s r' k'. StreamManagerReturnStream (Some (smw_s w)) (Some i) = Ok (ret, Some s) \<and>
    sm_world_at (w\<lparr>smw_s := s, smw_last := None\<rparr>) n r' k'"
proof -
  let ?s = "smw_s w"
  have at: "sm_at ?s n r k" using assms by (simp add: sm_world_at_def)
  obtain j where j: "j < n" "i = int j" "r = Suc j mod n" "Suc k < n"
    using assms by (auto simp: sm_world_at_def sm_last_ok_def)
  show ?thesis
  proof (cases "k = 0")
    case True
    then have "StreamManagerReturnStream (Some ?s) (Some i) = Ok (-1, Some ?s)"
      using sm_at_valid [OF at] by (simp add: StreamManagerReturnStream_def)
    then show ?thesis using sm_world_last assms(1) by blast
  next
    case False
    obtain s where s: "StreamManagerReturnStream (Some ?s) (Some i) = Ok (0, Some s)"
      "sm_at s n j (Suc k)" "smf_pFrames (sm_streamFifo s) = smf_pFrames (sm_streamFifo ?s)"
      "sm_pMem s = sm_pMem ?s" "sm_nMemSize s = sm_nMemSize ?s" "sm_lostBaby s = sm_lostBaby ?s"
      using StreamManagerReturnStream_some [of ?s n j k] at j False by auto
    moreover have "validFrameNum (sm_streamFifo ?s) \<noteq> 0" using sm_at_valid [OF at] False by simp
    ultimately have "sm_world_at (w\<lparr>smw_s := s, smw_last := None\<rparr>) n j (Suc k)"
      using assms
      by (auto simp: sm_world_at_def sm_last_ok_def sm_lease_ok_def sm_stale_def sm_blocks_def split: option.splits)
    then show ?thesis using s(1) by blast
  qed
qed

lemma sm_rewind_ok:
  assumes "sm_world_at w n r k"
  shows "\<exists>ret s r' k'. StreamManagerRewind (Some (smw_s w)) c = Ok (ret, Some s) \<and>
    sm_world_at (w\<lparr>smw_s := s, smw_last := None\<rparr>) n r' k'"
proof -
  let ?s = "smw_s w"
  have at: "sm_at ?s n r k" using assms by (simp add: sm_world_at_def)
  obtain s j r' k' where s: "StreamManagerRewind (Some ?s) c = Ok (0, Some s)" "sm_at s n r' k'" "j < n"
    "if j = r \<or> sf_pData (smf_pFrames (sm_streamFifo ?s) ! j) = 0 then s = ?s \<and> r' = r \<and> k' = k
     else r' = j \<and> (j + k') mod n = (r + k) mod n"
    "smf_pFrames (sm_streamFifo s) = smf_pFrames (sm_streamFifo ?s)"
    "sm_pMem s = sm_pMem ?s" "sm_nMemSize s = sm_nMemSize ?s" "sm_lostBaby s = sm_lostBaby ?s"
    using StreamManagerRewind_ok [OF at, of c] by blast
  have "sm_lease_ok (w\<lparr>smw_s := s, smw_last := None\<rparr>)"
  proof (cases "s = ?s")
    case True
    then show ?thesis using sm_world_last [OF assms] by (simp add: sm_world_at_def)
  next
    case False
    then have "sf_pData (smf_pFrames (sm_streamFifo ?s) ! j) \<noteq> 0" using s(4) by auto
    moreover have "j < length (smf_pFrames (sm_streamFifo ?s))" using at s(3) by (simp add: sm_at_def)
    ultimately have "\<not> set (map sf_pData (smf_pFrames (sm_streamFifo ?s))) \<subseteq> {0}"
      by (metis (no_types, lifting) image_subset_iff list.set_map nth_mem singletonD)
    then show ?thesis using assms s(6,7) by (auto simp: sm_world_at_def sm_lease_ok_def split: option.splits)
  qed
  then have "sm_world_at (w\<lparr>smw_s := s, smw_last := None\<rparr>) n r' k'"
    using assms s(2,5,6)
    by (auto simp: sm_world_at_def sm_last_ok_def sm_stale_def sm_blocks_def split: option.splits)
  then show ?thesis using s(1) by blast
qed

lemma sm_free_frames_trace:
  assumes "sm_at s n r k"
  shows "sm_free_frames (sm_streamFifo s) =
    Ok (map Free (filter (\<lambda>p. p \<noteq> 0) (map sf_pData (smf_pFrames (sm_streamFifo s)))))"
  using assms c_free_all [of "map sf_pData (smf_pFrames (sm_streamFifo s))"]
  by (simp add: sm_free_frames_def sm_at_def)

lemma sm_reset_ok:
  assumes "sm_world_at w n r k"
  shows "\<exists>s es. StreamManagerReset (Some (smw_s w)) = Ok (Some s, es) \<and> frees_ok (smw_live w) es \<and>
    sm_world_at (w\<lparr>smw_s := s, smw_live := live_blocks (smw_live w) es, smw_last := None\<rparr>) n 0 0"
proof -
  let ?s = "smw_s w"
  define ps where "ps = filter (\<lambda>p. p \<noteq> 0) (map sf_pData (smf_pFrames (sm_streamFifo ?s)))"
  have at: "sm_at ?s n r k" and n: "20 \<le> n" using assms by (simp_all add: sm_world_at_def)
  have len: "length (smf_pFrames (sm_streamFifo ?s)) = n" "smf_nMaxFrameNum (sm_streamFifo ?s) = int n"
    using at by (simp_all add: sm_at_def)
  define s where "s = (if sm_pMem ?s \<noteq> 0 then ?s\<lparr>sm_lostBaby := sm_pMem ?s, sm_pMem := 0, sm_nMemSize := 0\<rparr> else ?s)
      \<lparr>sm_nValidDataSize := 0, sm_streamFifo := sm_streamFifo ?s\<lparr>smf_pFrames := replicate n sf_zero,
         smf_nReadPos := 0, smf_nWritePos := 0\<rparr>\<rparr>"
  have rs: "StreamManagerReset (Some ?s) = Ok (Some s, map Free ps)"
    using sm_free_frames_trace [OF at] len by (simp add: StreamManagerReset_def s_def ps_def Let_def)
  have live: "mset (smw_live w) = sm_blocks ?s + sm_stale w" using assms by (simp add: sm_world_at_def)
  have own: "sm_blocks ?s = mset ps + filter_mset (\<lambda>p. p \<noteq> 0) {#sm_pMem ?s#}"
    by (simp add: sm_blocks_def ps_def mset_filter)
  have fr: "frees_ok (smw_live w) (map Free ps)"
    "mset (live_blocks (smw_live w) (map Free ps)) = filter_mset (\<lambda>p. p \<noteq> 0) {#sm_pMem ?s#} + sm_stale w"
    using frees_trace [of ps "smw_live w"] live own by simp_all
  have ats: "sm_at s n 0 0" using len n by (simp add: s_def sm_at_def sm_lengths_def i32_def)
  have empty: "sm_blocks s = {#}" "sm_pMem s = 0" by (simp_all add: sm_blocks_def s_def sf_zero_def)
  have "sm_lease_ok (w\<lparr>smw_s := s, smw_live := L, smw_last := None\<rparr>)" for L
    using assms sm_at_valid [OF ats]
    by (auto simp: sm_world_at_def sm_lease_ok_def s_def sf_zero_def split: option.splits)
  moreover have "filter_mset (\<lambda>p. p \<noteq> 0) {#sm_pMem ?s#} + sm_stale w =
      sm_stale (w\<lparr>smw_s := s, smw_live := L, smw_last := None\<rparr>)" for L
    using assms empty(2) by (auto simp: sm_world_at_def sm_lease_ok_def sm_stale_def split: option.splits)
  ultimately have "sm_world_at (w\<lparr>smw_s := s, smw_live := live_blocks (smw_live w) (map Free ps), smw_last := None\<rparr>) n 0 0"
    using ats n fr(2) empty(1) by (simp add: sm_world_at_def sm_last_ok_def)
  then show ?thesis using rs fr(1) by blast
qed

lemma sm_request_ok:
  assumes "sm_world_at w n r k" "smw_lease w = None"
    "StreamManagerRequestBuffer (Some (smw_s w)) need mem = (0, buf, bufsize, Some s)"
  shows "sm_world_at (w\<lparr>smw_s := s, smw_live := mem # smw_live w, smw_lease := Some (buf, bufsize)\<rparr>) n r k"
proof -
  have "s = smw_s w\<lparr>sm_pMem := mem, sm_nMemSize := need\<rparr>" "buf = mem" "bufsize = need" "mem \<noteq> 0"
    "sm_pMem (smw_s w) = 0"
    using assms(3) by (auto simp: StreamManagerRequestBuffer_def split: if_splits)
  then show ?thesis
    using assms(1,2)
    by (auto simp: sm_world_at_def sm_at_def sm_lease_ok_def sm_last_ok_def sm_stale_def sm_blocks_def)
qed

lemma sm_world_invI: "sm_world_at w n r k \<Longrightarrow> sm_world_inv w"
  by (auto simp: sm_world_inv_def)

lemma sm_step_inv:
  assumes "sm_step w w'" "sm_world_inv w"
  shows "sm_world_inv w'"
proof -
  obtain n r k where at: "sm_world_at w n r k" using assms(2) by (auto simp: sm_world_inv_def)
  from assms(1) show ?thesis
  proof cases
    case (request mem need buf bufsize s)
    then show ?thesis using sm_request_ok [OF at request(2,4)] by (auto intro: sm_world_invI)
  next
    case (submit buf bufsize fr ret s es)
    then show ?thesis using sm_submit_ok [OF at submit(2,3,4)] by (auto intro: sm_world_invI)
  next
    case (take i s)
    then show ?thesis using sm_take_ok [OF at] by (auto intro: sm_world_invI)
  next
    case (give_back i ret s)
    then show ?thesis using sm_give_back_ok [OF at give_back(2)] by (auto intro: sm_world_invI)
  next
    case (rewind c ret s)
    then show ?thesis using sm_rewind_ok [OF at, of c] by (auto intro: sm_world_invI)
  next
    case (reset s es)
    then show ?thesis using sm_reset_ok [OF at] by (auto intro: sm_world_invI)
  qed
qed

lemma sm_steps_inv: "sm_step\<^sup>*\<^sup>* w w' \<Longrightarrow> sm_world_inv w \<Longrightarrow> sm_world_inv w'"
  by (induction rule: rtranclp_induct) (auto intro: sm_step_inv)

section \<open>Properties\<close>

definition sm_world :: "StreamManager \<Rightarrow> SmWorld" where
  "sm_world s = \<lparr>smw_s = s, smw_live = [], smw_lease = None, smw_last = None\<rparr>"

lemma sm_created:
  assumes "StreamManagerCreate pStruct pNodes bsize n sid = (Some s, tr)"
  shows "sm_at s (nat n) 0 0" "0 < n" "sm_pMem s = 0" "sm_blocks s = {#}"
    "length (smf_pFrames (sm_streamFifo s)) = nat n"
  using assms
  by (auto simp: StreamManagerCreate_def sm_at_def sm_lengths_def i32_def sm_blocks_def sf_zero_def split: if_splits)

lemma sm_world_created:
  assumes "StreamManagerCreate pStruct pNodes bsize n sid = (Some s, tr)" "20 \<le> n"
  shows "sm_world_inv (sm_world s)"
  using sm_created [OF assms(1)] assms(2)
  by (intro sm_world_invI [of _ "nat n" 0 0])
    (simp add: sm_world_at_def sm_world_def sm_lease_ok_def sm_last_ok_def sm_stale_def)

text \<open>What the next call of each client does in a state.\<close>

definition sm_calls_safe :: "SmWorld \<Rightarrow> bool" where
  "sm_calls_safe w \<longleftrightarrow>
     (\<forall>buf bufsize fr. smw_lease w = Some (buf, bufsize) \<and> sf_pData fr = buf \<and> sf_nLength fr \<le> bufsize \<longrightarrow>
        (\<exists>ret s es. StreamManagerAddStream (Some (smw_s w)) (Some fr) = Ok (ret, Some s, es) \<and>
           frees_ok (smw_live w) es)) \<and>
     (\<exists>a. StreamManagerRequestStream (Some (smw_s w)) = Ok a) \<and>
     (\<forall>i. smw_last w = Some i \<longrightarrow> (\<exists>a. StreamManagerReturnStream (Some (smw_s w)) (Some i) = Ok a)) \<and>
     (\<forall>c. \<exists>a. StreamManagerRewind (Some (smw_s w)) c = Ok a) \<and>
     (\<exists>s es. StreamManagerReset (Some (smw_s w)) = Ok (s, es) \<and> frees_ok (smw_live w) es)"

lemma sm_world_calls_safe:
  assumes "sm_world_inv w"
  shows "sm_calls_safe w"
proof -
  obtain n r k where at: "sm_world_at w n r k" using assms by (auto simp: sm_world_inv_def)
  have "\<exists>ret s es. StreamManagerAddStream (Some (smw_s w)) (Some fr) = Ok (ret, Some s, es) \<and>
      frees_ok (smw_live w) es"
    if "smw_lease w = Some (buf, bufsize)" "sf_pData fr = buf" "sf_nLength fr \<le> bufsize" for buf bufsize fr
    using sm_submit_ok [OF at that] by blast
  moreover have "\<exists>a. StreamManagerReturnStream (Some (smw_s w)) (Some i) = Ok a" if "smw_last w = Some i" for i
    using sm_give_back_ok [OF at that] by blast
  ultimately show ?thesis
    unfolding sm_calls_safe_def using sm_take_ok [OF at] sm_rewind_ok [OF at] sm_reset_ok [OF at] by blast
qed

lemma sm_destroy_ok:
  assumes "sm_world_inv w" "smw_lease w = None"
  shows "\<exists>es. StreamManagerDestroy pStruct pNodes (Some (smw_s w)) = Ok (es @ [Free pNodes, Free pStruct]) \<and>
    frees_ok (smw_live w) es \<and> live_blocks (smw_live w) es = []"
proof -
  obtain n r k where at: "sm_world_at w n r k" using assms(1) by (auto simp: sm_world_inv_def)
  let ?ps = "filter (\<lambda>p. p \<noteq> 0) (map sf_pData (smf_pFrames (sm_streamFifo (smw_s w))))"
  have "sm_pMem (smw_s w) = 0" "mset (smw_live w) = sm_blocks (smw_s w)"
    using at assms(2) by (auto simp: sm_world_at_def sm_lease_ok_def sm_stale_def)
  then have live: "sm_pMem (smw_s w) = 0" "mset (smw_live w) = mset ?ps"
    by (simp_all add: sm_blocks_def mset_filter)
  then have "StreamManagerDestroy pStruct pNodes (Some (smw_s w)) = Ok (map Free ?ps @ [Free pNodes, Free pStruct])"
    using at sm_free_frames_trace [of "smw_s w" n r k]
    by (simp add: StreamManagerDestroy_def sm_world_at_def c_free_def)
  moreover have "frees_ok (smw_live w) (map Free ?ps)" "mset (live_blocks (smw_live w) (map Free ?ps)) = {#}"
    using frees_trace [of ?ps "smw_live w"] live(2) by simp_all
  ultimately show ?thesis by auto
qed

definition sm_example :: StreamManager where
  "sm_example = the (fst (StreamManagerCreate 1 2 1000 20 0))"

lemma sm_example_created:
  "StreamManagerCreate 1 2 1000 20 0 = (Some sm_example, [Alloc 1, Alloc 2])"
  by (simp add: sm_example_def StreamManagerCreate_def)

text \<open>The manager after the producer got a buffer of 10 bytes at address 64.\<close>

definition sm_example_lent :: SmWorld where
  "sm_example_lent =
     (sm_world (sm_example\<lparr>sm_pMem := 64, sm_nMemSize := 10\<rparr>))\<lparr>smw_live := [64], smw_lease := Some (64, 10)\<rparr>"

lemma sm_example_step: "sm_step (sm_world sm_example) sm_example_lent"
proof -
  have "\<not> invalidFrameNumTooSmall (sm_streamFifo sm_example)"
    using sm_at_room [OF sm_created(1) [OF sm_example_created]] by simp
  then have "StreamManagerRequestBuffer (Some sm_example) 10 64 =
      (0, 64, 10, Some (sm_example\<lparr>sm_pMem := 64, sm_nMemSize := 10\<rparr>))"
    by (simp add: StreamManagerRequestBuffer_def) (simp add: sm_example_def StreamManagerCreate_def)
  then show ?thesis
    using sm_step.request [of "sm_world sm_example" 64 10 64 10] by (simp add: sm_world_def sm_example_lent_def)
qed



text \<open>Stream manager, order. Frames come out in the order they were accepted, each once, for
  any interleaving of a producer and a consumer; the ring keeps its invariant, so the data count
  is the sum of the lengths of the frames that are pending.\<close>

theorem sm_fifo_order:
  assumes "sm_inv s" "fifo_run sm_put sm_get es s = (ins, outs, s')"
  shows "sm_inv s' \<and> sm_pending s @ ins = outs @ sm_pending s'"
  using smq.run_fifo [OF assms(1) _ assms(2)] by simp

lemma sm_example_inv: "sm_inv sm_example"
  using sm_at_inv(1) [OF sm_created(1) [OF sm_example_created]] by simp

theorem sm_fifo_order_witness:
  "sm_inv sm_example \<and>
   (case fifo_run sm_put sm_get [Put (sf_zero\<lparr>sf_pData := 64, sf_nLength := 10\<rparr>), Get] sm_example of
      (ins, outs, s') \<Rightarrow> sm_inv s' \<and> sm_pending sm_example @ ins = outs @ sm_pending s')"
  using sm_fifo_order [OF sm_example_inv, of "[Put (sf_zero\<lparr>sf_pData := 64, sf_nLength := 10\<rparr>), Get]"]
    sm_example_inv
  by (cases "fifo_run sm_put sm_get [Put (sf_zero\<lparr>sf_pData := 64, sf_nLength := 10\<rparr>), Get] sm_example") auto

text \<open>C20: What the ring preserves. A frame that is added never overwrites a pending frame nor
  one of the last tenth of the frames that were read, counted back from the read position: the
  frame the consumer still works on stays intact.\<close>

theorem sm_preserves_read_frames:
  assumes "sm_at s n r k" "10 \<le> n" "StreamManagerAddStream (Some s) (Some fr) = Ok (0, Some s', es)"
    "d \<le> n div 10 \<or> n - k < d" "0 < d" "d \<le> n"
  shows "smf_pFrames (sm_streamFifo s') ! ((r + n - d) mod n) =
    smf_pFrames (sm_streamFifo s) ! ((r + n - d) mod n)"
proof -
  have ok: "\<not> invalidFrameNumTooSmall (sm_streamFifo s)" "sm_pMem s = sf_pData fr"
    "sf_nLength fr \<le> sm_nMemSize s"
    using assms(3) by (auto simp: StreamManagerAddStream_def Let_def split: if_splits)
  then have room: "n div 10 < n - k" using sm_at_room [OF assms(1)] by simp
  have "smf_pFrames (sm_streamFifo s') = (smf_pFrames (sm_streamFifo s))[(r + k) mod n := fr]"
    using StreamManagerAddStream_room [OF assms(1) room assms(2) ok(2,3)] assms(3) by auto
  moreover have "(r + (n - d)) mod n \<noteq> (r + k) mod n"
  proof (cases "n - d < k")
    case True
    then show ?thesis using ring_pos_neq [of "n - d" k n r] assms(1) by (simp add: sm_at_def)
  next
    case False
    then have "k < n - d" using assms(4,6) room by auto
    then show ?thesis using ring_pos_neq [of k "n - d" n r] assms(1,5) by (auto simp: sm_at_def)
  qed
  ultimately show ?thesis using assms(6) by (simp add: nth_list_update)
qed

theorem sm_preserves_read_frames_witness:
  "\<exists>s'. StreamManagerAddStream (Some (smw_s sm_example_lent)) (Some (sf_zero\<lparr>sf_pData := 64, sf_nLength := 10\<rparr>)) =
      Ok (0, Some s', []) \<and>
    smf_pFrames (sm_streamFifo s') ! 18 = smf_pFrames (sm_streamFifo (smw_s sm_example_lent)) ! 18"
proof -
  let ?fr = "sf_zero\<lparr>sf_pData := 64, sf_nLength := 10\<rparr>"
  let ?s = "smw_s sm_example_lent"
  have at: "sm_at ?s 20 0 0"
    using sm_created(1) [OF sm_example_created] by (simp add: sm_at_def sm_example_lent_def sm_world_def)
  have fr: "smf_pFrames (sm_streamFifo ?s) ! 0 = sf_zero"
    by (simp add: sm_example_lent_def sm_world_def sm_example_def StreamManagerCreate_def)
  obtain s' where s': "StreamManagerAddStream (Some ?s) (Some ?fr) = Ok (0, Some s', c_free 0)"
    using StreamManagerAddStream_room [OF at, of ?fr] fr
    by (auto simp: sm_example_lent_def sm_world_def sf_zero_def)
  then show ?thesis
    using sm_preserves_read_frames [OF at _ s', of 2] by (simp add: c_free_def)
qed


definition sm_example_frames :: "StreamFrame list" where
  "sm_example_frames =
     map (\<lambda>i. sf_zero\<lparr>sf_pData := 64 + int i, sf_nLength := 1, sf_nPts := 100 * int i\<rparr>) [0..<10]"

text \<open>A full turn of the ring: frames 5 to 9 are pending, frame 0 is the oldest that was kept.\<close>

definition sm_example_turned :: StreamManager where
  "sm_example_turned =
     \<lparr>sm_nMaxBufferSize = 1000, sm_nValidDataSize = 5, sm_nStreamID = 0,
      sm_streamFifo = \<lparr>smf_pFrames = sm_example_frames, smf_nMaxFrameNum = 10, smf_nReadPos = 5,
                       smf_nWritePos = 0\<rparr>,
      sm_pMem = 0, sm_nMemSize = 0, sm_lostBaby = 0\<rparr>"

lemma sm_example_frames_nth:
  "m < 10 \<Longrightarrow> sf_nPts (sm_example_frames ! m) = 100 * int m"
  "m < 10 \<Longrightarrow> sf_pData (sm_example_frames ! m) = 64 + int m"
  "m < 10 \<Longrightarrow> sf_nLength (sm_example_frames ! m) = 1"
  "length sm_example_frames = 10"
  by (simp_all add: sm_example_frames_def del: upt_Suc)

lemma sm_example_turned_at: "sm_at sm_example_turned 10 5 5"
proof -
  have "sm_lengths (ring_slice sm_example_frames 5 5) = 5"
    by (simp add: sm_lengths_def ring_slice_def sm_example_frames_nth upt_rec)
  then show ?thesis
    by (simp add: sm_at_def sm_example_turned_def sm_example_frames_nth i32_def)
qed


text \<open>Rewinding to the oldest frame of a full ring drops everything. That frame lies at the
  write position; \<open>StreamManagerRewind\<close> makes it the read position as well, which is how an
  empty ring looks.\<close>

theorem sm_rewind_oldest_empties:
  assumes "sm_at s n r k" "0 < k" "sf_pData (smf_pFrames (sm_streamFifo s) ! ((r + k) mod n)) \<noteq> 0"
    "\<forall>m < n. m \<noteq> (r + k) mod n \<longrightarrow>
       pts_diff c (sf_nPts (smf_pFrames (sm_streamFifo s) ! ((r + k) mod n))) <
       pts_diff c (sf_nPts (smf_pFrames (sm_streamFifo s) ! m))"
  shows "\<exists>s'. StreamManagerRewind (Some s) c = Ok (0, Some s') \<and>
    StreamManagerStreamFrameNum (Some s') = 0 \<and> sm_pending s' = []"
proof -
  let ?w = "(r + k) mod n"
  obtain s' j r' k' where s': "StreamManagerRewind (Some s) c = Ok (0, Some s')" "sm_at s' n r' k'" "j < n"
    "\<forall>m < n. pts_diff c (sf_nPts (smf_pFrames (sm_streamFifo s) ! j)) \<le>
             pts_diff c (sf_nPts (smf_pFrames (sm_streamFifo s) ! m))"
    "if j = r \<or> sf_pData (smf_pFrames (sm_streamFifo s) ! j) = 0 then s' = s \<and> r' = r \<and> k' = k
     else r' = j \<and> (j + k') mod n = (r + k) mod n"
    using StreamManagerRewind_ok [OF assms(1), of c] by blast
  have w: "?w < n" "?w \<noteq> r"
    using assms(1,2) ring_pos_neq [of 0 k n r] by (auto simp: sm_at_def)
  have j: "j = ?w" using assms(4) s'(3,4) w(1) by (metis leD)
  then have "r' = ?w" "(?w + k') mod n = ?w" using s'(5) assms(3) w(2) by auto
  then have "k' = 0"
    using ring_pos_neq [of 0 k' n ?w] s'(2) w(1) by (cases k') (auto simp: sm_at_def)
  then show ?thesis
    using s'(1) sm_at_valid [OF s'(2)] sm_at_inv(2) [OF s'(2)]
    by (simp add: StreamManagerStreamFrameNum_def)
qed

theorem sm_rewind_oldest_empties_witness:
  "StreamManagerStreamFrameNum (Some sm_example_turned) = 5 \<and>
   (\<exists>s'. StreamManagerRewind (Some sm_example_turned) 0 = Ok (0, Some s') \<and>
      StreamManagerStreamFrameNum (Some s') = 0)"
proof -
  have f: "smf_pFrames (sm_streamFifo sm_example_turned) = sm_example_frames"
    by (simp add: sm_example_turned_def)
  have d: "pts_diff 0 (sf_nPts (sm_example_frames ! m)) = 100 * int m" if "m < 10" for m
    using that by (simp add: sm_example_frames_nth pts_diff_def i32_id int32_range_def Let_def)
  have "\<exists>s'. StreamManagerRewind (Some sm_example_turned) 0 = Ok (0, Some s') \<and>
      StreamManagerStreamFrameNum (Some s') = 0 \<and> sm_pending s' = []"
    by (rule sm_rewind_oldest_empties [OF sm_example_turned_at])
      (auto simp: f d, simp add: sm_example_frames_nth)
  then show ?thesis
    using sm_at_valid [OF sm_example_turned_at] by (auto simp: StreamManagerStreamFrameNum_def)
qed

text \<open>The last frame cannot be returned. When the consumer takes the only pending frame and
  gives it back, \<open>StreamManagerReturnStream\<close> sees an empty ring and fails; the frame is not
  pending again.\<close>

theorem sm_return_last_refused:
  assumes "sm_at s n r 1"
  shows "\<exists>s'. StreamManagerRequestStream (Some s) = Ok (Some (int r), Some s') \<and>
    StreamManagerReturnStream (Some s') (Some (int r)) = Ok (-1, Some s') \<and> sm_pending s' = []"
proof -
  obtain s' where s': "StreamManagerRequestStream (Some s) = Ok (Some (int r), Some s')"
      "sm_at s' n (Suc r mod n) 0"
    using StreamManagerRequestStream_some [of s n r 0] assms by auto
  then have "StreamManagerReturnStream (Some s') (Some (int r)) = Ok (-1, Some s')"
    using sm_at_valid [OF s'(2)] by (simp add: StreamManagerReturnStream_def)
  then show ?thesis using s' sm_at_inv(2) [OF s'(2)] by simp
qed

theorem sm_return_last_refused_witness:
  "\<exists>s s'. StreamManagerRequestStream (Some s) = Ok (Some 9, Some s') \<and>
    StreamManagerReturnStream (Some s') (Some 9) = Ok (-1, Some s')"
proof -
  let ?s = "sm_example_turned\<lparr>sm_nValidDataSize := 1,
      sm_streamFifo := (sm_streamFifo sm_example_turned)\<lparr>smf_nReadPos := 9\<rparr>\<rparr>"
  have "sm_at ?s 10 9 1"
    by (simp add: sm_at_def sm_example_turned_def sm_lengths_def ring_slice_def sm_example_frames_nth i32_def)
  then show ?thesis using sm_return_last_refused [of ?s 10 9] by auto
qed

text \<open>A ring of fewer than ten frames loses all of them. \<open>StreamManagerCreate\<close> accepts such a
  size although no frame is preserved then; the frame that fills the ring moves the write
  position onto the read position, and the ring counts as empty.\<close>

theorem sm_small_ring_loses_frames:
  assumes "sm_at s n r (n - 1)" "n < 10" "sm_pMem s = sf_pData fr" "sf_nLength fr \<le> sm_nMemSize s"
  shows "\<exists>s' es. StreamManagerAddStream (Some s) (Some fr) = Ok (0, Some s', es) \<and>
    StreamManagerStreamFrameNum (Some s') = 0"
proof -
  define fs where "fs = smf_pFrames (sm_streamFifo s)"
  have l: "length fs = n" "0 < n" "r < n" using assms by (auto simp: sm_at_def fs_def)
  let ?w = "(r + (n - 1)) mod n"
  have w: "?w < n" "Suc ?w mod n = r" using l by (simp_all add: mod_Suc_eq)
  let ?s = "s\<lparr>sm_streamFifo := sm_streamFifo s\<lparr>smf_pFrames := fs[?w := fr], smf_nWritePos := int r\<rparr>,
      sm_nValidDataSize := i32 (sm_nValidDataSize s + sf_nLength fr), sm_pMem := 0, sm_nMemSize := 0\<rparr>"
  have pos: "smf_nWritePos (sm_streamFifo s) = int ?w" "smf_nMaxFrameNum (sm_streamFifo s) = int n"
    "smf_nReadPos (sm_streamFifo s) = int r" "\<not> invalidFrameNumTooSmall (sm_streamFifo s)"
    using assms(1,2) sm_at_room [OF assms(1)] by (auto simp: sm_at_def)
  have "StreamManagerAddStream (Some s) (Some fr) = Ok (0, Some ?s, c_free (sf_pData (fs ! ?w)))"
    using assms(3,4) pos w c_mod_Suc [OF w(1)] l
    by (simp add: StreamManagerAddStream_def fs_def Let_def arr_get_def arr_set_def)
  moreover have "validFrameNum (sm_streamFifo ?s) = 0"
    using pos l by (simp add: validFrameNum_def c_mod_nonneg)
  ultimately show ?thesis by (simp add: StreamManagerStreamFrameNum_def)
qed

theorem sm_small_ring_loses_frames_witness:
  "\<exists>s tr s' es. StreamManagerCreate 1 2 1000 1 0 = (Some s, tr) \<and>
    StreamManagerAddStream (Some (s\<lparr>sm_pMem := 64, sm_nMemSize := 8\<rparr>))
      (Some (sf_zero\<lparr>sf_pData := 64, sf_nLength := 8\<rparr>)) = Ok (0, Some s', es) \<and>
    StreamManagerStreamFrameNum (Some s') = 0"
proof -
  obtain s tr where s: "StreamManagerCreate 1 2 1000 1 0 = (Some s, tr)"
    by (simp add: StreamManagerCreate_def)
  then have "sm_at (s\<lparr>sm_pMem := 64, sm_nMemSize := 8\<rparr>) 1 0 (1 - 1)"
    using sm_created(1) [OF s] by (simp add: sm_at_def)
  then show ?thesis
    using sm_small_ring_loses_frames [of "s\<lparr>sm_pMem := 64, sm_nMemSize := 8\<rparr>" 1 0
        "sf_zero\<lparr>sf_pData := 64, sf_nLength := 8\<rparr>"] s by auto
qed

end
