(* ===== verification/Estimaters.thy ===== *)
theory Estimaters
  imports Ring "HOL-Library.Multiset"
begin

text \<open>
  The two estimaters of the player: \<open>libcore/playback/bitrateEstimater.c\<close>, which keeps the last
  500 packets and computes the bit rate from the longest run of packets without a jump in time,
  and \<open>libcore/playback/framerateEstimater.c\<close>, which takes the median of the last frame
  durations. The float play rate of the frame rate estimater is not modelled. An array on the
  stack of a function has its declared size and starts unset: an element is \<open>None\<close> until it is
  written, and reading an unset element or outside the array is a fault. The arrays of the frame
  rate estimater, which are filled from index 0 on, are the lists of the values written, and an
  access beyond them is a fault. Time stamps are taken to
  be far enough from the ends of 64 bits for their sums and differences to be exact.
\<close>

section \<open>The bit rate estimater\<close>

abbreviation (input) BITRATE_ARRAY_SIZE :: nat where "BITRATE_ARRAY_SIZE \<equiv> 500"
abbreviation (input) BITRATE_ESTIMATE_INTERVAL :: int where "BITRATE_ESTIMATE_INTERVAL \<equiv> 5"
abbreviation (input) PTS_DISCONTINUE_INTERVAL :: int where "PTS_DISCONTINUE_INTERVAL \<equiv> 1000000"

record BitrateEstimateNode =
  ben_nFramePts :: int
  ben_nFrameLen :: int

record BitrateEstimater =
  be_nBitrate :: int
  be_nWritePos :: int
  be_nValidNodeCnt :: int
  be_nWritePosLastEstimate :: int
  be_nodes :: "BitrateEstimateNode list"

definition BitrateEstimaterCreate :: "bool \<Rightarrow> BitrateEstimater option" where
  "BitrateEstimaterCreate okMalloc =
     (if \<not> okMalloc then None
      else Some \<lparr>be_nBitrate = 0, be_nWritePos = 0, be_nValidNodeCnt = 0, be_nWritePosLastEstimate = 0,
                 be_nodes = replicate BITRATE_ARRAY_SIZE \<lparr>ben_nFramePts = 0, ben_nFrameLen = 0\<rparr>\<rparr>)"

definition pts_jump :: "int \<Rightarrow> int \<Rightarrow> bool" where
  "pts_jump a b \<longleftrightarrow> a > b + PTS_DISCONTINUE_INTERVAL \<or> a + PTS_DISCONTINUE_INTERVAL < b"

text \<open>Reading an element of an array on the stack.\<close>

definition arr_val :: "'a option list \<Rightarrow> int \<Rightarrow> 'a exec" where
  "arr_val xs i = ebind (arr_get xs i) (\<lambda>v. case v of None \<Rightarrow> Fault | Some x \<Rightarrow> Ok x)"

text \<open>The copy loop: \<open>k\<close> nodes from position \<open>nStartPos\<close> on into \<open>frameLenArr\<close> and \<open>ptsArr\<close>.\<close>

fun be_copy :: "BitrateEstimateNode list \<Rightarrow> int \<Rightarrow> nat \<Rightarrow> nat \<Rightarrow> int option list \<Rightarrow> int option list \<Rightarrow>
    (int option list \<times> int option list) exec" where
  "be_copy nodes nStartPos i 0 frameLenArr ptsArr = Ok (frameLenArr, ptsArr)"
| "be_copy nodes nStartPos i (Suc k) frameLenArr ptsArr =
     ebind (arr_get nodes nStartPos) (\<lambda>nd.
     ebind (arr_set frameLenArr (int i) (Some (ben_nFrameLen nd))) (\<lambda>frameLenArr.
     ebind (arr_set ptsArr (int i) (Some (ben_nFramePts nd))) (\<lambda>ptsArr.
       be_copy nodes (ring_next nStartPos (int BITRATE_ARRAY_SIZE)) (Suc i) k frameLenArr ptsArr)))"

text \<open>The first loop over the time stamps: the index of the first jump, or the last index.\<close>

fun be_first_jump :: "int option list \<Rightarrow> nat \<Rightarrow> nat \<Rightarrow> nat exec" where
  "be_first_jump ptsArr i 0 = Ok i"
| "be_first_jump ptsArr i (Suc k) =
     ebind (arr_val ptsArr (int i)) (\<lambda>a. ebind (arr_val ptsArr (int i + 1)) (\<lambda>b.
       if pts_jump a b then Ok i else be_first_jump ptsArr (Suc i) k))"

text \<open>The loop of the loop back mode: \<open>j\<close> and \<open>nRunLen\<close> of the longest run seen, and where the
  current run started.\<close>

fun be_longest_run :: "int option list \<Rightarrow> nat \<Rightarrow> nat \<Rightarrow> nat \<Rightarrow> nat \<Rightarrow> nat \<Rightarrow> (nat \<times> nat) exec" where
  "be_longest_run ptsArr i 0 j nStartPos nRunLen = Ok (j, nRunLen)"
| "be_longest_run ptsArr i (Suc k) j nStartPos nRunLen =
     ebind (arr_val ptsArr (int i)) (\<lambda>a. ebind (arr_val ptsArr (int i + 1)) (\<lambda>b.
       if pts_jump a b then
         (if i - nStartPos > nRunLen then be_longest_run ptsArr (Suc i) k nStartPos (i + 1) (i - nStartPos)
          else be_longest_run ptsArr (Suc i) k j (i + 1) nRunLen)
       else be_longest_run ptsArr (Suc i) k j nStartPos nRunLen))"

text \<open>The sum of \<open>k\<close> frame lengths from index \<open>i\<close> on.\<close>

fun be_total :: "int option list \<Rightarrow> nat \<Rightarrow> nat \<Rightarrow> int \<Rightarrow> int exec" where
  "be_total frameLenArr i 0 nTotalSize = Ok nTotalSize"
| "be_total frameLenArr i (Suc k) nTotalSize =
     ebind (arr_val frameLenArr (int i)) (\<lambda>l. be_total frameLenArr (Suc i) k (nTotalSize + l))"

text \<open>The rate of the packets \<open>first\<close> to \<open>first + len\<close>, \<open>None\<close> when their duration is not
  positive. The 64-bit products cannot overflow for 500 lengths of 32 bits.\<close>

definition be_rate :: "int option list \<Rightarrow> int option list \<Rightarrow> nat \<Rightarrow> nat \<Rightarrow> int option exec" where
  "be_rate ptsArr frameLenArr first len =
     ebind (arr_val ptsArr (int first)) (\<lambda>nFirstPts.
     ebind (arr_val ptsArr (int (first + len))) (\<lambda>nLastPts.
       let nDuration = nLastPts - nFirstPts in
       if nDuration \<le> 0 then Ok None
       else
         ebind (be_total frameLenArr first (len + 1) 0) (\<lambda>nTotalSize.
           let nByteRate = c_div (nTotalSize * 1000000) nDuration
           in Ok (Some (i32 (nByteRate * 8))))))"

text \<open>The estimate proper on \<open>cnt\<close> packets: the new bit rate, \<open>None\<close> when it stays.\<close>

definition be_estimate :: "nat \<Rightarrow> int option list \<Rightarrow> int option list \<Rightarrow> int option exec" where
  "be_estimate cnt ptsArr frameLenArr =
     ebind (be_first_jump ptsArr 0 (cnt - 1)) (\<lambda>i.
       if i = cnt - 1 then be_rate ptsArr frameLenArr 0 (cnt - 1)
       else
         ebind (arr_set ptsArr (int cnt) (Some (-1))) (\<lambda>ptsArr.
         ebind (be_longest_run ptsArr 0 cnt 0 0 0) (\<lambda>(j, nRunLen).
           if 0 < nRunLen then be_rate ptsArr frameLenArr j nRunLen else Ok None)))"

definition BitrateEstimaterUpdate :: "BitrateEstimater \<Rightarrow> int \<Rightarrow> int \<Rightarrow> BitrateEstimater exec" where
  "BitrateEstimaterUpdate be nPts nFrameLen =
     (if nPts = -1 then
        (if be_nValidNodeCnt be = 0 then Ok be
         else
           (let tmpWritePos = (if be_nWritePos be = 0 then int BITRATE_ARRAY_SIZE - 1 else be_nWritePos be - 1)
            in ebind (arr_get (be_nodes be) tmpWritePos) (\<lambda>nd.
               ebind (arr_set (be_nodes be) tmpWritePos
                        (nd\<lparr>ben_nFrameLen := i32 (ben_nFrameLen nd + nFrameLen)\<rparr>)) (\<lambda>nodes.
               Ok (be\<lparr>be_nodes := nodes\<rparr>)))))
      else
        ebind (arr_set (be_nodes be) (be_nWritePos be) \<lparr>ben_nFramePts = nPts, ben_nFrameLen = nFrameLen\<rparr>)
          (\<lambda>nodes.
           let w = ring_next (be_nWritePos be) (int BITRATE_ARRAY_SIZE);
               cnt = (if be_nValidNodeCnt be < int BITRATE_ARRAY_SIZE then be_nValidNodeCnt be + 1
                      else be_nValidNodeCnt be);
               be1 = be\<lparr>be_nodes := nodes, be_nWritePos := w, be_nValidNodeCnt := cnt\<rparr>;
               last = be_nWritePosLastEstimate be;
               tmpWritePos = (if w < last then w + int BITRATE_ARRAY_SIZE else w)
           in if tmpWritePos < last + BITRATE_ESTIMATE_INTERVAL then Ok be1
              else
                (let nStartPos = (if w - cnt < 0 then w - cnt + int BITRATE_ARRAY_SIZE else w - cnt)
                 in ebind (be_copy nodes nStartPos 0 (nat cnt) (replicate BITRATE_ARRAY_SIZE None)
                             (replicate (BITRATE_ARRAY_SIZE + 1) None)) (\<lambda>(frameLenArr, ptsArr).
                    ebind (be_estimate (nat cnt) ptsArr frameLenArr) (\<lambda>rate.
                      let be2 = be1\<lparr>be_nWritePosLastEstimate := w\<rparr>
                      in case rate of
                           None \<Rightarrow> Ok be2
                         | Some r \<Rightarrow> Ok (be2\<lparr>be_nBitrate := r\<rparr>))))))"

definition BitrateEstimaterGetBitrate :: "BitrateEstimater \<Rightarrow> int" where
  "BitrateEstimaterGetBitrate be = be_nBitrate be"

definition BitrateEstimaterReset :: "BitrateEstimater \<Rightarrow> BitrateEstimater" where
  "BitrateEstimaterReset be =
     be\<lparr>be_nBitrate := 0, be_nWritePos := 0, be_nValidNodeCnt := 0, be_nWritePosLastEstimate := 0\<rparr>"

section \<open>The frame rate estimater\<close>

abbreviation (input) FRAMERATE_ARRAY_SIZE :: nat where "FRAMERATE_ARRAY_SIZE \<equiv> 4"
abbreviation (input) FRAMERATE_START_ESTIMATE_SIZE :: int where "FRAMERATE_START_ESTIMATE_SIZE \<equiv> 2"

record FramerateEstimater =
  fe_nPts :: "int list"
  fe_nWritePos :: int
  fe_nValidPtsCnt :: int
  fe_nFrameDuration :: int

definition FramerateEstimaterCreate :: "bool \<Rightarrow> FramerateEstimater option" where
  "FramerateEstimaterCreate okMalloc =
     (if \<not> okMalloc then None
      else Some \<lparr>fe_nPts = replicate FRAMERATE_ARRAY_SIZE 0, fe_nWritePos = 0, fe_nValidPtsCnt = 0,
                 fe_nFrameDuration = 0\<rparr>)"

text \<open>The loop over the differences of neighbouring time stamps.\<close>

fun fe_differences :: "int list \<Rightarrow> nat \<Rightarrow> nat \<Rightarrow> int list \<Rightarrow> int list exec" where
  "fe_differences nPtsArr i 0 nDurationArr = Ok nDurationArr"
| "fe_differences nPtsArr i (Suc k) nDurationArr =
     ebind (arr_get nPtsArr (int i + 1)) (\<lambda>b. ebind (arr_get nPtsArr (int i)) (\<lambda>a.
       fe_differences nPtsArr (Suc i) k (nDurationArr @ [b - a])))"

text \<open>The bubble sort: \<open>tmp\<close> is an \<open>int\<close>, so a duration that moves up is cut to 32 bits.\<close>

fun fe_sort_inner :: "nat \<Rightarrow> nat \<Rightarrow> int list \<Rightarrow> int list exec" where
  "fe_sort_inner n 0 xs = Ok xs"
| "fe_sort_inner n (Suc m) xs =
     ebind (arr_get xs (int n)) (\<lambda>a. ebind (arr_get xs (int n + 1)) (\<lambda>b.
       if a > b then
         (let tmp = i32 a in
          ebind (arr_set xs (int n) b) (\<lambda>ys. ebind (arr_set ys (int n + 1) tmp) (\<lambda>zs.
            fe_sort_inner (Suc n) m zs)))
       else fe_sort_inner (Suc n) m xs))"

fun fe_sort_outer :: "nat \<Rightarrow> nat \<Rightarrow> int list \<Rightarrow> int list exec" where
  "fe_sort_outer k 0 xs = Ok xs"
| "fe_sort_outer k (Suc m) xs = ebind (fe_sort_inner 0 (length xs - 1 - k) xs) (fe_sort_outer (Suc k) m)"

definition FramerateEstimaterUpdate :: "FramerateEstimater \<Rightarrow> int \<Rightarrow> FramerateEstimater exec" where
  "FramerateEstimaterUpdate fe nPts =
     ebind (arr_set (fe_nPts fe) (fe_nWritePos fe) nPts) (\<lambda>pts.
       let w = ring_next (fe_nWritePos fe) (int FRAMERATE_ARRAY_SIZE);
           cnt = (if fe_nValidPtsCnt fe < int FRAMERATE_ARRAY_SIZE then fe_nValidPtsCnt fe + 1
                  else fe_nValidPtsCnt fe);
           fe1 = fe\<lparr>fe_nPts := pts, fe_nWritePos := w, fe_nValidPtsCnt := cnt\<rparr>
       in if cnt < FRAMERATE_START_ESTIMATE_SIZE then Ok fe1
          else
            (let nStartPos = (if w - cnt < 0 then w - cnt + int FRAMERATE_ARRAY_SIZE else w - cnt)
             in ebind (ring_read (int FRAMERATE_ARRAY_SIZE) pts nStartPos (nat cnt) []) (\<lambda>arr.
                ebind (fe_differences arr 0 (nat cnt - 1) []) (\<lambda>d.
                ebind (fe_sort_outer 0 (length d - 1) d) (\<lambda>s.
                ebind (arr_get s (int (length d) div 2)) (\<lambda>m.
                  Ok (fe1\<lparr>fe_nFrameDuration := i32 m\<rparr>)))))))"

definition FramerateEstimaterReset :: "FramerateEstimater \<Rightarrow> FramerateEstimater" where
  "FramerateEstimaterReset fe = fe\<lparr>fe_nFrameDuration := 0, fe_nWritePos := 0, fe_nValidPtsCnt := 0\<rparr>"

section \<open>The longest run\<close>

definition run_ok :: "int list \<Rightarrow> nat \<Rightarrow> nat \<Rightarrow> bool" where
  "run_ok pts a l \<longleftrightarrow> (\<forall>t. a \<le> t \<and> t < a + l \<longrightarrow> \<not> pts_jump (pts ! t) (pts ! (t + 1)))"

text \<open>What the loop keeps before index \<open>i\<close>: the current run has no jump, the best run is one that
  was ended by a jump, and no run that ended before the current one is longer.\<close>

definition run_inv :: "int list \<Rightarrow> nat \<Rightarrow> nat \<Rightarrow> nat \<Rightarrow> nat \<Rightarrow> bool" where
  "run_inv pts i j start len \<longleftrightarrow> start \<le> i \<and> run_ok pts start (i - start) \<and>
     (len = 0 \<and> j = 0 \<or> j + len < start \<and> pts_jump (pts ! (j + len)) (pts ! (j + len + 1))) \<and>
     run_ok pts j len \<and> (\<forall>a l. a + l < start \<and> run_ok pts a l \<longrightarrow> l \<le> len) \<and>
     (0 < start \<longrightarrow> pts_jump (pts ! (start - 1)) (pts ! start))"

lemma run_ok_extend: "run_ok pts a l \<Longrightarrow> \<not> pts_jump (pts ! (a + l)) (pts ! (a + l + 1)) \<Longrightarrow> run_ok pts a (Suc l)"
  by (auto simp: run_ok_def less_Suc_eq)

lemma run_inv_next:
  assumes "run_inv pts i j start len" "\<not> pts_jump (pts ! i) (pts ! (i + 1))"
  shows "run_inv pts (Suc i) j start len"
  using assms run_ok_extend [of pts start "i - start"] by (auto simp: run_inv_def Suc_diff_le)

lemma run_inv_jump:
  assumes "run_inv pts i j start len" "pts_jump (pts ! i) (pts ! (i + 1))"
  shows "run_inv pts (Suc i) (if len < i - start then start else j) (i + 1) (if len < i - start then i - start else len)"
proof -
  have cur: "start \<le> i" "run_ok pts start (i - start)"
    and before: "0 < start \<longrightarrow> pts_jump (pts ! (start - 1)) (pts ! start)"
    using assms(1) by (auto simp: run_inv_def)
  have max: "l \<le> (if len < i - start then i - start else len)"
    if run: "a + l < i + 1" "run_ok pts a l" for a l
  proof (cases "a + l < start")
    case True
    then have "l \<le> len" using assms(1) run(2) by (auto simp: run_inv_def)
    then show ?thesis by simp
  next
    case False
    have "start \<le> a"
    proof (rule ccontr)
      assume "\<not> start \<le> a"
      then have "pts_jump (pts ! (start - 1)) (pts ! start)" "a \<le> start - 1" "start - 1 < a + l" "0 < start"
        using before False by auto
      then show False using run(2) [unfolded run_ok_def, rule_format, of "start - 1"] by simp
    qed
    then show ?thesis using run(1) by auto
  qed
  then show ?thesis using assms cur by (auto simp: run_inv_def run_ok_def)
qed

text \<open>The arrays after the copy loop: values up to some index, then unset elements.\<close>

lemma arr_val_Ok [simp]: "i < length xs \<Longrightarrow> arr_val (map Some xs @ us) (int i) = Ok (xs ! i)"
  by (simp add: arr_val_def arr_get_in nth_append del: arr_get_Ok)

lemma arr_val_Ok_Suc [simp]: "i + 1 < length xs \<Longrightarrow> arr_val (map Some xs @ us) (int i + 1) = Ok (xs ! (i + 1))"
  using arr_val_Ok [of "i + 1" xs us] by (simp add: add.commute)

lemma arr_set_next:
  "i = length xs \<Longrightarrow> arr_set (map Some xs @ u # us) (int i) (Some x) = Ok (map Some (xs @ [x]) @ us)"
  by (simp add: arr_set_def list_update_append)

lemma be_copy_slice:
  assumes "length nodes = BITRATE_ARRAY_SIZE" "p < BITRATE_ARRAY_SIZE" "length ls = i" "length ps = i"
    "k \<le> length us" "k \<le> length vs"
  shows "be_copy nodes (int p) i k (map Some ls @ us) (map Some ps @ vs) =
    Ok (map Some (ls @ map ben_nFrameLen (ring_slice nodes p k)) @ drop k us,
        map Some (ps @ map ben_nFramePts (ring_slice nodes p k)) @ drop k vs)"
  using assms(2-)
proof (induction k arbitrary: p i ls ps us vs)
  case (Suc k)
  obtain u us' v vs' where uv: "us = u # us'" "vs = v # vs'"
    using Suc.prems(4,5) by (metis Suc_le_length_iff)
  let ?nd = "nodes ! p"
  have p': "Suc p mod 500 < 500" by simp
  have nxt: "ring_next (int p) 500 = int (Suc p mod 500)"
    using ring_next_nat [of p 500] Suc.prems(1) by simp
  have get: "arr_get nodes (int p) = Ok ?nd" using assms(1) Suc.prems(1) by simp
  have sl: "ring_slice nodes p (Suc k) = ?nd # ring_slice nodes (Suc p mod 500) k"
    using ring_slice_Cons [of nodes p k] ring_slice_Suc_mod [of nodes p k] assms(1) Suc.prems(1) by simp
  show ?case
    using Suc.IH [OF p', of "ls @ [ben_nFrameLen ?nd]" "Suc i" "ps @ [ben_nFramePts ?nd]" us' vs']
      Suc.prems(2-) uv arr_set_next [of i ls u us'] arr_set_next [of i ps v vs'] get nxt sl
    by (simp del: arr_get_Ok arr_set_Ok ebind_eq_Ok)
qed simp

lemma be_first_jump_Ok:
  assumes "i + k < length pts"
  shows "\<exists>n. be_first_jump (map Some pts @ us) i k = Ok n \<and> (n = i + k \<longleftrightarrow> run_ok pts i k)"
  using assms
proof (induction k arbitrary: i)
  case (Suc k)
  show ?case
  proof (cases "pts_jump (pts ! i) (pts ! (i + 1))")
    case True
    then show ?thesis using Suc.prems by (auto simp: run_ok_def)
  next
    case False
    then have "run_ok pts i (Suc k) \<longleftrightarrow> run_ok pts (Suc i) k"
      by (auto simp: run_ok_def) (metis Suc_leI le_neq_implies_less)
    then show ?thesis using Suc.IH [of "Suc i"] Suc.prems False by simp
  qed
qed (auto simp: run_ok_def)

lemma be_longest_run_inv:
  assumes "run_inv pts i j start len" "i + k < length pts"
  shows "\<exists>j' start' len'. be_longest_run (map Some pts @ us) i k j start len = Ok (j', len') \<and>
    run_inv pts (i + k) j' start' len'"
  using assms
proof (induction k arbitrary: i j start len)
  case (Suc k)
  show ?case
  proof (cases "pts_jump (pts ! i) (pts ! (i + 1))")
    case False
    then show ?thesis
      using Suc.IH [OF run_inv_next [OF Suc.prems(1) False]] Suc.prems(2) by simp
  next
    case True
    then show ?thesis
      using Suc.IH [OF run_inv_jump [OF Suc.prems(1) True]] Suc.prems(2)
      by (cases "len < i - start") simp_all
  qed
qed auto

lemma be_longest_run_start:
  assumes "k < length pts"
  obtains j len start where "be_longest_run (map Some pts @ us) 0 k 0 0 0 = Ok (j, len)"
    "run_inv pts k j start len"
proof -
  have "run_inv pts 0 0 0 0" by (simp add: run_inv_def run_ok_def)
  from be_longest_run_inv [OF this, of k us] show thesis using assms that by auto
qed

lemma be_total_Ok:
  "i + k \<le> length ls \<Longrightarrow> be_total (map Some ls @ us) i k t = Ok (t + sum_list (take k (drop i ls)))"
proof (induction k arbitrary: i t)
  case (Suc k)
  then have "drop i ls = ls ! i # drop (Suc i) ls" by (simp add: Cons_nth_drop_Suc)
  then show ?case using Suc by (simp add: add.assoc)
qed simp

text \<open>The rate of a run, from the packets themselves: the bytes of packets \<open>j\<close> to \<open>j + len\<close> over
  the time between the first and the last of them, in bits per second.\<close>

definition run_duration :: "int list \<Rightarrow> nat \<Rightarrow> nat \<Rightarrow> int" where
  "run_duration pts j len = pts ! (j + len) - pts ! j"

definition run_rate :: "int list \<Rightarrow> int list \<Rightarrow> nat \<Rightarrow> nat \<Rightarrow> int" where
  "run_rate pts ls j len =
     i32 (8 * c_div (sum_list (take (len + 1) (drop j ls)) * 1000000) (run_duration pts j len))"

lemma be_rate_Ok:
  assumes "j + len < length pts" "length ls = length pts"
  shows "be_rate (map Some pts @ us) (map Some ls @ vs) j len =
    Ok (if 0 < run_duration pts j len then Some (run_rate pts ls j len) else None)"
  using assms be_total_Ok [of j "len + 1" ls vs 0] arr_val_Ok [of j pts us] arr_val_Ok [of "j + len" pts us]
  by (auto simp: be_rate_def Let_def run_duration_def run_rate_def mult.commute
      simp del: arr_val_Ok be_total.simps of_nat_add)

text \<open>The estimate reads set elements only. What it stores is the rate of a run without a jump,
  and of the whole table when that has none.\<close>

lemma be_estimate_Ok:
  assumes "0 < length pts" "length ls = length pts" "us \<noteq> []"
  shows "\<exists>r. be_estimate (length pts) (map Some pts @ us) (map Some ls @ vs) = Ok r \<and>
    (r = None \<or> (\<exists>j len. j + len < length pts \<and> run_ok pts j len \<and> 0 < run_duration pts j len \<and>
       r = Some (run_rate pts ls j len))) \<and>
    (run_ok pts 0 (length pts - 1) \<and> 0 < run_duration pts 0 (length pts - 1) \<longrightarrow>
       r = Some (run_rate pts ls 0 (length pts - 1)))"
proof -
  let ?n = "length pts"
  obtain i where i: "be_first_jump (map Some pts @ us) 0 (?n - 1) = Ok i" "i = ?n - 1 \<longleftrightarrow> run_ok pts 0 (?n - 1)"
    using be_first_jump_Ok [of 0 "?n - 1" pts us] assms(1) by auto
  show ?thesis
  proof (cases "i = ?n - 1")
    case True
    let ?d = "run_duration pts 0 (?n - 1)" and ?b = "run_rate pts ls 0 (?n - 1)"
    have "be_estimate ?n (map Some pts @ us) (map Some ls @ vs) = Ok (if 0 < ?d then Some ?b else None)"
      using True i(1) be_rate_Ok [of 0 "?n - 1" pts ls us vs] assms by (simp add: be_estimate_def)
    moreover have "\<exists>j len. j + len < ?n \<and> run_ok pts j len \<and> 0 < run_duration pts j len \<and>
        Some ?b = Some (run_rate pts ls j len)" if "0 < ?d"
      using True i(2) that assms(1) by (intro exI [of _ 0] exI [of _ "?n - 1"]) simp
    ultimately show ?thesis by simp
  next
    case False
    obtain u us' where u: "us = u # us'" using assms(3) by (cases us) auto
    let ?q = "pts @ [-1]"
    have set: "arr_set (map Some pts @ us) (int ?n) (Some (-1)) = Ok (map Some ?q @ us')"
      using arr_set_next [of ?n pts u us' "-1"] u by simp
    obtain j len start where r: "be_longest_run (map Some ?q @ us') 0 ?n 0 0 0 = Ok (j, len)"
      "run_inv ?q ?n j start len"
      using be_longest_run_start [of ?n ?q us'] by auto
    have run: "j + len < ?n" "run_ok pts j len" if "0 < len"
      using r(2) that by (auto simp: run_inv_def run_ok_def nth_append)
    have "be_rate (map Some ?q @ us') (map Some ls @ vs) j len =
        Ok (if 0 < run_duration pts j len then Some (run_rate pts ls j len) else None)" if "0 < len"
      using be_rate_Ok [of j len pts ls "Some (-1) # us'" vs] run [OF that] assms(2) by simp
    then show ?thesis
      using False i set r(1) run by (auto simp: be_estimate_def simp del: arr_set_Ok ebind_eq_Ok)
  qed
qed

section \<open>The median\<close>

text \<open>The passes without the checks, for arrays long enough.\<close>

fun bubble_inner :: "nat \<Rightarrow> nat \<Rightarrow> int list \<Rightarrow> int list" where
  "bubble_inner n 0 xs = xs"
| "bubble_inner n (Suc m) xs = bubble_inner (Suc n) m
     (if xs ! n > xs ! (n + 1) then (let tmp = i32 (xs ! n) in xs[n := xs ! (n + 1), n + 1 := tmp]) else xs)"

fun bubble_outer :: "nat \<Rightarrow> nat \<Rightarrow> int list \<Rightarrow> int list" where
  "bubble_outer k 0 xs = xs"
| "bubble_outer k (Suc m) xs = bubble_outer (Suc k) m (bubble_inner 0 (length xs - 1 - k) xs)"

lemma fe_sort_inner_Ok: "n + m < length xs \<Longrightarrow> fe_sort_inner n m xs = Ok (bubble_inner n m xs)"
proof (induction m arbitrary: n xs)
  case (Suc m)
  have "nat (int n + 1) = Suc n" by simp
  then show ?case
    using Suc by (simp add: arr_get_def arr_set_def Let_def del: arr_get_Ok arr_set_Ok ebind_eq_Ok)
qed simp

lemma bubble_inner_length [simp]: "length (bubble_inner n m xs) = length xs"
  by (induction n m xs rule: bubble_inner.induct) (simp_all add: Let_def)

lemma fe_sort_outer_Ok:
  "k + m < length xs \<or> m = 0 \<Longrightarrow> fe_sort_outer k m xs = Ok (bubble_outer k m xs)"
  by (induction m arbitrary: k xs) (simp_all add: fe_sort_inner_Ok)

text \<open>One pass over positions \<open>n\<close> to \<open>n + m\<close> leaves the largest of them at the end; as long as
  all values fit 32 bits it only permutes them.\<close>

definition pass_ok :: "nat \<Rightarrow> nat \<Rightarrow> int list \<Rightarrow> int list \<Rightarrow> bool" where
  "pass_ok n m xs ys \<longleftrightarrow> mset ys = mset xs \<and> (\<forall>i. i < n \<or> n + m < i \<longrightarrow> ys ! i = xs ! i) \<and>
     (\<forall>i \<in> {n..n + m}. xs ! i \<le> ys ! (n + m)) \<and> (\<forall>i \<in> {n..n + m}. ys ! i \<in> (!) xs ` {n..n + m})"

lemma pass_ok_Suc:
  assumes "pass_ok (Suc n) m ys zs" "mset ys = mset xs" "ys ! n \<le> ys ! Suc n"
    "ys ! n = xs ! n \<and> ys ! Suc n = xs ! Suc n \<or> ys ! n = xs ! Suc n \<and> ys ! Suc n = xs ! n"
    "\<And>i. i \<noteq> n \<Longrightarrow> i \<noteq> Suc n \<Longrightarrow> ys ! i = xs ! i"
  shows "pass_ok n (Suc m) xs zs"
proof -
  have img: "(!) ys ` {n..n + Suc m} = (!) xs ` {n..n + Suc m}"
  proof -
    have split: "{n..n + Suc m} = insert n (insert (Suc n) {Suc (Suc n)..n + Suc m})" by auto
    have "(!) ys ` {Suc (Suc n)..n + Suc m} = (!) xs ` {Suc (Suc n)..n + Suc m}"
      by (rule image_cong) (use assms(5) in auto)
    then show ?thesis using assms(4) unfolding split by auto
  qed
  have top: "\<forall>i \<in> {n..n + Suc m}. ys ! i \<le> zs ! (n + Suc m)"
  proof
    fix i assume i: "i \<in> {n..n + Suc m}"
    have max: "ys ! j \<le> zs ! (n + Suc m)" if "j \<in> {Suc n..Suc n + m}" for j
      using assms(1) that by (auto simp: pass_ok_def)
    show "ys ! i \<le> zs ! (n + Suc m)"
      using max [of i] max [of "Suc n"] assms(3) i by (cases "i = n") auto
  qed
  have "xs ! i \<le> zs ! (n + Suc m)" if "i \<in> {n..n + Suc m}" for i
    using img top that by (metis (no_types, lifting) imageE imageI)
  moreover have "zs ! i \<in> (!) xs ` {n..n + Suc m}" if "i \<in> {n..n + Suc m}" for i
  proof (cases "i = n")
    case True
    then have "zs ! i = ys ! n" using assms(1) by (auto simp: pass_ok_def)
    then show ?thesis using img that True by blast
  next
    case False
    then have "zs ! i \<in> (!) ys ` {Suc n..Suc n + m}" using assms(1) that by (auto simp: pass_ok_def)
    moreover have "(!) ys ` {Suc n..Suc n + m} \<subseteq> (!) ys ` {n..n + Suc m}" by (intro image_mono) auto
    ultimately show ?thesis using img by blast
  qed
  moreover have "zs ! i = xs ! i" if "i < n \<or> n + Suc m < i" for i
    using assms(1) assms(5) [of i] that by (auto simp: pass_ok_def)
  ultimately show ?thesis using assms(1,2) by (simp add: pass_ok_def)
qed

lemma bubble_inner_pass:
  assumes "n + m < length xs" "\<forall>x \<in> set xs. int32_range x"
  shows "pass_ok n m xs (bubble_inner n m xs)"
  using assms
proof (induction m arbitrary: n xs)
  case 0
  then show ?case by (auto simp: pass_ok_def)
next
  case (Suc m)
  define ys where "ys = (if xs ! n > xs ! (n + 1) then xs[n := xs ! (n + 1), n + 1 := xs ! n] else xs)"
  have r: "int32_range (xs ! n)" using Suc.prems by simp
  then have step: "bubble_inner n (Suc m) xs = bubble_inner (Suc n) m ys"
    by (simp add: ys_def i32_id)
  have ms: "mset ys = mset xs" using Suc.prems(1) by (auto simp: ys_def mset_swap)
  then have len: "length ys = length xs" by (metis size_mset)
  have "\<forall>x \<in> set ys. int32_range x" using Suc.prems(2) ms by (metis set_mset_mset)
  then have IH: "pass_ok (Suc n) m ys (bubble_inner (Suc n) m ys)"
    using Suc.IH [of "Suc n" ys] Suc.prems(1) len by simp
  show ?case unfolding step
    by (rule pass_ok_Suc [OF IH ms]) (use Suc.prems(1) in \<open>auto simp: ys_def nth_list_update\<close>)
qed

text \<open>After \<open>k\<close> passes the last \<open>k\<close> positions hold the largest values in order.\<close>

definition top_sorted :: "nat \<Rightarrow> int list \<Rightarrow> bool" where
  "top_sorted k xs \<longleftrightarrow> (\<forall>i j. i \<le> j \<and> length xs \<le> j + k \<and> j < length xs \<longrightarrow> xs ! i \<le> xs ! j)"

lemma top_sorted_pass:
  assumes "top_sorted k xs" "k < length xs" "pass_ok 0 (length xs - 1 - k) xs ys"
  shows "top_sorted (Suc k) ys"
proof -
  let ?m = "length xs - 1 - k"
  have len: "length ys = length xs" using assms(3) by (metis pass_ok_def size_mset)
  show ?thesis unfolding top_sorted_def len
  proof (intro allI impI)
    fix i j assume ij: "i \<le> j \<and> length xs \<le> j + Suc k \<and> j < length xs"
    obtain i' where i': "ys ! i = xs ! i'" "i' \<le> j"
    proof (cases "i \<le> ?m")
      case True
      then have "ys ! i \<in> (!) xs ` {0..?m}" using assms(3) by (auto simp: pass_ok_def)
      then show ?thesis using that ij by fastforce
    next
      case False
      then show ?thesis using that [of i] assms(3) ij by (auto simp: pass_ok_def)
    qed
    show "ys ! i \<le> ys ! j"
    proof (cases "j = ?m")
      case True
      then show ?thesis using i' assms(3) by (auto simp: pass_ok_def)
    next
      case False
      then have "ys ! j = xs ! j" "length xs \<le> j + k" using assms(2,3) ij by (auto simp: pass_ok_def)
      then show ?thesis using assms(1) i' ij by (auto simp: top_sorted_def)
    qed
  qed
qed

lemma bubble_outer_sorts:
  assumes "top_sorted k xs" "\<forall>x \<in> set xs. int32_range x" "k + m < length xs \<or> m = 0"
  shows "mset (bubble_outer k m xs) = mset xs \<and> top_sorted (k + m) (bubble_outer k m xs)"
  using assms
proof (induction m arbitrary: k xs)
  case (Suc m)
  let ?ys = "bubble_inner 0 (length xs - 1 - k) xs"
  have pass: "pass_ok 0 (length xs - 1 - k) xs ?ys"
    using bubble_inner_pass [of 0 "length xs - 1 - k" xs] Suc.prems by simp
  then have ms: "mset ?ys = mset xs" by (simp add: pass_ok_def)
  then have "length ?ys = length xs" "set ?ys = set xs" by (metis size_mset, metis set_mset_mset)
  then show ?case
    using Suc.IH [of "Suc k" ?ys] top_sorted_pass [OF Suc.prems(1) _ pass] Suc.prems ms by auto
qed simp

lemma bubble_is_sort:
  assumes "\<forall>x \<in> set xs. int32_range x"
  shows "bubble_outer 0 (length xs - 1) xs = sort xs"
proof -
  let ?ys = "bubble_outer 0 (length xs - 1) xs"
  have start: "top_sorted 0 xs" "0 + (length xs - 1) < length xs \<or> length xs - 1 = 0"
    by (simp add: top_sorted_def, arith)
  have ys: "mset ?ys = mset xs" "top_sorted (length xs - 1) ?ys"
    using bubble_outer_sorts [OF start(1) assms start(2)] by simp_all
  then have "length ?ys = length xs" by (metis size_mset)
  then have "?ys ! i \<le> ?ys ! j" if "i \<le> j" "j < length ?ys" for i j
    using ys(2) that by (cases "j = 0") (auto simp: top_sorted_def)
  then have "sorted ?ys" by (simp add: sorted_iff_nth_mono)
  then show ?thesis using ys(1) by (metis properties_for_sort)
qed

text \<open>The bubble sort of the estimater is \<open>sort\<close>.\<close>

lemma fe_sort_is_sort:
  assumes "\<forall>x \<in> set xs. int32_range x"
  shows "fe_sort_outer 0 (length xs - 1) xs = Ok (sort xs)"
  using fe_sort_outer_Ok [of 0 "length xs - 1" xs] bubble_is_sort [OF assms] by (cases xs) simp_all

text \<open>The durations between the stamps of a table.\<close>

definition fe_durations :: "int list \<Rightarrow> int list" where
  "fe_durations pts = map (\<lambda>i. pts ! (i + 1) - pts ! i) [0..<length pts - 1]"

lemma fe_differences_Ok:
  "i + k < length pts \<Longrightarrow>
    fe_differences pts i k acc = Ok (acc @ map (\<lambda>i. pts ! (i + 1) - pts ! i) [i..<i + k])"
proof (induction k arbitrary: i acc)
  case (Suc k)
  have "nat (int i + 1) = Suc i" "[i..<i + Suc k] = i # [Suc i..<Suc i + k]"
    by (simp_all add: upt_rec)
  then show ?case
    using Suc by (simp add: arr_get_def del: arr_get_Ok ebind_eq_Ok)
qed simp

section \<open>Properties\<close>

definition be_inv :: "BitrateEstimater \<Rightarrow> bool" where
  "be_inv be \<longleftrightarrow> length (be_nodes be) = BITRATE_ARRAY_SIZE \<and> int32_range (be_nBitrate be) \<and>
     0 \<le> be_nWritePos be \<and> be_nWritePos be < int BITRATE_ARRAY_SIZE \<and>
     0 \<le> be_nValidNodeCnt be \<and> be_nValidNodeCnt be \<le> int BITRATE_ARRAY_SIZE \<and>
     0 \<le> be_nWritePosLastEstimate be \<and> be_nWritePosLastEstimate be < int BITRATE_ARRAY_SIZE"

text \<open>The state before the estimate: the packet is stored and counted.\<close>

definition be_stored :: "BitrateEstimater \<Rightarrow> int \<Rightarrow> int \<Rightarrow> BitrateEstimater" where
  "be_stored be nPts nFrameLen =
     be\<lparr>be_nodes := (be_nodes be)[nat (be_nWritePos be) := \<lparr>ben_nFramePts = nPts, ben_nFrameLen = nFrameLen\<rparr>],
        be_nWritePos := ring_next (be_nWritePos be) (int BITRATE_ARRAY_SIZE),
        be_nValidNodeCnt := min (be_nValidNodeCnt be + 1) (int BITRATE_ARRAY_SIZE)\<rparr>"

text \<open>The packets the estimate works on, oldest first.\<close>

definition be_packets :: "BitrateEstimater \<Rightarrow> BitrateEstimateNode list" where
  "be_packets be = ring_slice (be_nodes be)
     (nat ((be_nWritePos be - be_nValidNodeCnt be) mod int BITRATE_ARRAY_SIZE)) (nat (be_nValidNodeCnt be))"

definition be_pts :: "BitrateEstimater \<Rightarrow> int list" where
  "be_pts be = map ben_nFramePts (be_packets be)"

definition be_lens :: "BitrateEstimater \<Rightarrow> int list" where
  "be_lens be = map ben_nFrameLen (be_packets be)"

text \<open>A new rate is computed when at least 5 packets were stored since the last one.\<close>

definition be_due :: "BitrateEstimater \<Rightarrow> BitrateEstimater \<Rightarrow> bool" where
  "be_due be be' \<longleftrightarrow> 5 \<le> (be_nWritePos be' - be_nWritePosLastEstimate be) mod int BITRATE_ARRAY_SIZE"

lemma be_stored_inv:
  assumes "be_inv be"
  shows "be_inv (be_stored be nPts nFrameLen)" "0 < be_nValidNodeCnt (be_stored be nPts nFrameLen)"
  using assms ring_next_bounds [of "be_nWritePos be" 500] by (auto simp: be_inv_def be_stored_def)

lemma ring_start_mod:
  fixes w c m :: int
  assumes "0 \<le> w" "w < m" "0 \<le> c" "c \<le> m"
  shows "(if w - c < 0 then w - c + m else w - c) = (w - c) mod m"
proof (cases "w - c < 0")
  case True
  then have "(w - c) mod m = (w - c + m) mod m" by simp
  also have "\<dots> = w - c + m" using True assms by (intro mod_pos_pos_trivial) auto
  finally show ?thesis using True by simp
qed (use assms in simp)

lemma be_due_iff:
  assumes "be_inv be" "be_inv be'"
  shows "be_due be be' \<longleftrightarrow>
    \<not> (if be_nWritePos be' < be_nWritePosLastEstimate be then be_nWritePos be' + 500 else be_nWritePos be')
      < be_nWritePosLastEstimate be + 5"
  using ring_start_mod [of "be_nWritePos be'" 500 "be_nWritePosLastEstimate be"] assms
  by (auto simp: be_due_def be_inv_def split: if_splits)

text \<open>The copy loop reads the packets of the table.\<close>

lemma be_copy_packets:
  assumes "be_inv be"
  defines "c \<equiv> nat (be_nValidNodeCnt be)" and "s \<equiv> be_nWritePos be - be_nValidNodeCnt be"
  shows "be_copy (be_nodes be) (if s < 0 then s + 500 else s) 0 c (replicate 500 None) (replicate 501 None) =
    Ok (map Some (be_lens be) @ replicate (500 - c) None, map Some (be_pts be) @ replicate (501 - c) None)"
proof -
  have b: "0 \<le> be_nWritePos be" "be_nWritePos be < 500" "0 \<le> be_nValidNodeCnt be" "be_nValidNodeCnt be \<le> 500"
    "length (be_nodes be) = 500" "c \<le> 500"
    using assms by (auto simp: be_inv_def)
  have "(if s < 0 then s + 500 else s) = s mod 500"
    unfolding s_def by (rule ring_start_mod) (use b in auto)
  then have "(if s < 0 then s + 500 else s) = int (nat (s mod 500))" "nat (s mod 500) < 500"
    by (simp_all add: nat_less_iff)
  then show ?thesis
    using be_copy_slice [of "be_nodes be" "nat (s mod 500)" "[]" 0 "[]" c "replicate 500 None" "replicate 501 None"] b
    by (simp add: be_pts_def be_lens_def be_packets_def c_def s_def)
qed

lemma be_update_eq:
  fixes nFrameLen :: int
  assumes "be_inv be" "nPts \<noteq> -1"
  defines "be1 \<equiv> be_stored be nPts nFrameLen"
  shows "BitrateEstimaterUpdate be nPts nFrameLen =
    (if \<not> be_due be be1 then Ok be1
     else ebind (be_estimate (length (be_pts be1)) (map Some (be_pts be1) @ replicate (501 - length (be_pts be1)) None)
                  (map Some (be_lens be1) @ replicate (500 - length (be_pts be1)) None)) (\<lambda>rate.
            let be2 = be1\<lparr>be_nWritePosLastEstimate := be_nWritePos be1\<rparr>
            in case rate of None \<Rightarrow> Ok be2 | Some r \<Rightarrow> Ok (be2\<lparr>be_nBitrate := r\<rparr>)))"
proof -
  define w c where "w = ring_next (be_nWritePos be) 500" and "c = min (be_nValidNodeCnt be + 1) 500"
  define ns where "ns = (be_nodes be)[nat (be_nWritePos be) := \<lparr>ben_nFramePts = nPts, ben_nFrameLen = nFrameLen\<rparr>]"
  have be1: "be1 = be\<lparr>be_nodes := ns, be_nWritePos := w, be_nValidNodeCnt := c\<rparr>"
    by (simp add: be1_def be_stored_def w_def c_def ns_def)
  have inv: "be_inv be1" using be_stored_inv assms(1) by (simp add: be1_def)
  have set: "arr_set (be_nodes be) (be_nWritePos be) \<lparr>ben_nFramePts = nPts, ben_nFrameLen = nFrameLen\<rparr> = Ok ns"
    using assms(1) by (simp add: be_inv_def ns_def arr_set_def)
  have cnt: "(if be_nValidNodeCnt be < 500 then be_nValidNodeCnt be + 1 else be_nValidNodeCnt be) = c"
    using assms(1) by (auto simp: be_inv_def c_def)
  have len: "length (be_pts be1) = nat c" by (simp add: be_pts_def be_packets_def be1)
  let ?arrs = "(map Some (be_lens be1) @ replicate (500 - nat c) None, map Some (be_pts be1) @ replicate (501 - nat c) None)"
  have copy: "w < c \<Longrightarrow> be_copy ns (w - c + 500) 0 (nat c) (replicate 500 None) (replicate 501 None) = Ok ?arrs"
    "\<not> w < c \<Longrightarrow> be_copy ns (w - c) 0 (nat c) (replicate 500 None) (replicate 501 None) = Ok ?arrs"
    using be_copy_packets [OF inv] by (simp_all add: be1 cong: if_cong)
  have due: "be_due be be1 \<longleftrightarrow> \<not> (if w < be_nWritePosLastEstimate be then w + 500 else w)
      < be_nWritePosLastEstimate be + 5"
    using be_due_iff [OF assms(1) inv] by (simp add: be1)
  show ?thesis
    using assms(2)
    by (simp add: BitrateEstimaterUpdate_def set cnt w_def [symmetric] copy len due Let_def
        del: ebind_eq_Ok) (simp add: be1)
qed

text \<open>C28: Bit rate estimater, safety and result of an update. Every update returns: no access
  lies outside the table or the two arrays on the stack and none reads an element that was not
  written. It keeps write position, count and last position within the table and the bit rate
  within 32 bits; create and reset establish this. The bit rate afterwards is the old one or the
  rate of a run of packets of the table without a jump and of positive duration; when a new rate
  is due and the whole table is such a run, it is the rate of all packets.\<close>

theorem bitrate_update_well_formed:
  assumes "be_inv be"
  shows "(\<exists>be'. BitrateEstimaterUpdate be nPts nFrameLen = Ok be' \<and> be_inv be' \<and>
      (be_nBitrate be' = be_nBitrate be \<or>
       (\<exists>j len. j + len < length (be_pts be') \<and> run_ok (be_pts be') j len \<and> 0 < run_duration (be_pts be') j len \<and>
          be_nBitrate be' = run_rate (be_pts be') (be_lens be') j len)) \<and>
      (nPts \<noteq> -1 \<and> be_due be be' \<and> run_ok (be_pts be') 0 (length (be_pts be') - 1) \<and>
         0 < run_duration (be_pts be') 0 (length (be_pts be') - 1) \<longrightarrow>
       be_nBitrate be' = run_rate (be_pts be') (be_lens be') 0 (length (be_pts be') - 1))) \<and>
    be_inv (BitrateEstimaterReset be) \<and> be_inv (the (BitrateEstimaterCreate True))"
    (is "(\<exists>be'. ?upd be' \<and> be_inv be' \<and> ?old be' \<and> ?all be') \<and> _")
proof -
  have "be_inv (BitrateEstimaterReset be)" "be_inv (the (BitrateEstimaterCreate True))"
    using assms by (simp_all add: be_inv_def BitrateEstimaterReset_def BitrateEstimaterCreate_def int32_range_def)
  moreover have "\<exists>be'. ?upd be' \<and> be_inv be' \<and> ?old be' \<and> ?all be'"
  proof (cases "nPts = -1")
    case True
    then show ?thesis
      using assms by (auto simp: BitrateEstimaterUpdate_def be_inv_def arr_get_def arr_set_def Let_def)
  next
    case False
    define be1 where "be1 = be_stored be nPts nFrameLen"
    note inv1 = be_stored_inv [OF assms, of nPts nFrameLen, folded be1_def]
    have same: "be_nBitrate be1 = be_nBitrate be" by (simp add: be1_def be_stored_def)
    let ?p = "be_pts be1" and ?l = "be_lens be1"
    have len: "length ?l = length ?p" "0 < length ?p" "length ?p \<le> 500"
      using inv1 by (auto simp: be_pts_def be_lens_def be_packets_def be_inv_def)
    have "replicate (501 - length ?p) (None :: int option) \<noteq> []" using len(3) by simp
    then obtain r where r: "be_estimate (length ?p) (map Some ?p @ replicate (501 - length ?p) None)
          (map Some ?l @ replicate (500 - length ?p) None) = Ok r"
      "r = None \<or> (\<exists>j len. j + len < length ?p \<and> run_ok ?p j len \<and> 0 < run_duration ?p j len \<and>
         r = Some (run_rate ?p ?l j len))"
      "run_ok ?p 0 (length ?p - 1) \<and> 0 < run_duration ?p 0 (length ?p - 1) \<longrightarrow>
         r = Some (run_rate ?p ?l 0 (length ?p - 1))"
      using be_estimate_Ok [OF len(2,1)] by blast
    define be2 where "be2 = be1\<lparr>be_nWritePosLastEstimate := be_nWritePos be1\<rparr>"
    have keep: "be_pts (be2\<lparr>be_nBitrate := b\<rparr>) = ?p" "be_lens (be2\<lparr>be_nBitrate := b\<rparr>) = ?l"
      "be_pts be2 = ?p" "be_lens be2 = ?l" "be_nBitrate be2 = be_nBitrate be" "be_inv be2"
      "be_due be (be2\<lparr>be_nBitrate := b\<rparr>) = be_due be be1" for b
      using inv1 same by (simp_all add: be2_def be_pts_def be_lens_def be_packets_def be_inv_def be_due_def)
    have upd: "BitrateEstimaterUpdate be nPts nFrameLen =
        (if \<not> be_due be be1 then Ok be1 else case r of None \<Rightarrow> Ok be2 | Some b \<Rightarrow> Ok (be2\<lparr>be_nBitrate := b\<rparr>))"
      using be_update_eq [OF assms False, of nFrameLen] r(1) by (simp add: be1_def [symmetric] be2_def [symmetric])
    have range: "be_inv (be2\<lparr>be_nBitrate := run_rate ?p ?l j len\<rparr>)" for j len
      using keep(6) i32_range by (simp add: be_inv_def run_rate_def)
    show ?thesis
    proof (cases "be_due be be1")
      case False
      then show ?thesis using upd inv1 same by auto
    next
      case due: True
      show ?thesis
      proof (cases r)
        case None
        then show ?thesis using upd due r(3) keep by auto
      next
        case (Some b)
        then show ?thesis using upd due r(2,3) keep range by auto
      qed
    qed
  qed
  ultimately show ?thesis by blast
qed

text \<open>Five packets, 40 ms apart, of 1000 bytes each; the fifth makes an estimate due.\<close>

definition be_example :: BitrateEstimater where
  "be_example = \<lparr>be_nBitrate = 0, be_nWritePos = 4, be_nValidNodeCnt = 4, be_nWritePosLastEstimate = 0,
     be_nodes = map (\<lambda>i. \<lparr>ben_nFramePts = 40000 * int i, ben_nFrameLen = 1000\<rparr>) [0..<500]\<rparr>"

theorem bitrate_update_well_formed_witness:
  "\<exists>be'. BitrateEstimaterUpdate be_example 160000 1000 = Ok be' \<and> be_inv be' \<and> be_nBitrate be' = 250000"
proof -
  have inv: "be_inv be_example" by (simp add: be_inv_def be_example_def int32_range_def)
  define be1 where "be1 = be_stored be_example 160000 1000"
  have one: "be_pts be1 = [0, 40000, 80000, 120000, 160000]" "be_lens be1 = [1000, 1000, 1000, 1000, 1000]"
    "be_due be_example be1"
    unfolding be1_def by code_simp+
  obtain be' where be': "BitrateEstimaterUpdate be_example 160000 1000 = Ok be'" "be_inv be'"
    "be_due be_example be' \<and> run_ok (be_pts be') 0 (length (be_pts be') - 1) \<and>
         0 < run_duration (be_pts be') 0 (length (be_pts be') - 1) \<Longrightarrow>
       be_nBitrate be' = run_rate (be_pts be') (be_lens be') 0 (length (be_pts be') - 1)"
    using bitrate_update_well_formed [OF inv, of 160000 1000] by auto
  have "be_pts be' = be_pts be1" "be_lens be' = be_lens be1" "be_nWritePos be' = be_nWritePos be1"
    using be'(1) be_update_eq [OF inv, of 160000 1000]
    by (auto simp: be1_def [symmetric] Let_def be_pts_def be_lens_def be_packets_def split: if_splits option.splits)
  moreover have "run_ok (be_pts be1) 0 (length (be_pts be1) - 1)"
    using one(1) by (auto simp: run_ok_def pts_jump_def less_Suc_eq eval_nat_numeral)
  moreover have "run_duration (be_pts be1) 0 (length (be_pts be1) - 1) = 160000"
    "run_rate (be_pts be1) (be_lens be1) 0 (length (be_pts be1) - 1) = 250000"
    using one by (simp_all add: run_duration_def run_rate_def c_div_def i32_def)
  ultimately show ?thesis using be' one(3) by (auto simp: be_due_def)
qed

text \<open>C29: Bit rate estimater, the run it uses. When the last time stamp lies more than a second
  after 0, the search of the loop back mode over the stamps and the end mark returns, and the run
  it picks has no jump in it and is as long as any run without a jump.\<close>

theorem bitrate_longest_run:
  assumes "pts \<noteq> []" "last pts > 999999"
  shows "\<exists>j len. be_longest_run (map Some (pts @ [-1]) @ us) 0 (length pts) 0 0 0 = Ok (j, len) \<and>
    j + len < length pts \<and> run_ok pts j len \<and>
    (\<forall>a l. a + l < length pts \<and> run_ok pts a l \<longrightarrow> l \<le> len)"
proof -
  let ?q = "pts @ [-1]" and ?n = "length pts"
  obtain j len start where r: "be_longest_run (map Some ?q @ us) 0 ?n 0 0 0 = Ok (j, len)"
    and inv: "run_inv ?q ?n j start len"
    using be_longest_run_start [of ?n ?q us] by auto
  have same: "run_ok ?q a l \<longleftrightarrow> run_ok pts a l" if "a + l < ?n" for a l
    using that by (auto simp: run_ok_def nth_append)
  have end_jump: "pts_jump (?q ! (?n - 1)) (?q ! (?n - 1 + 1))"
    using assms by (simp add: pts_jump_def nth_append last_conv_nth)
  have "start = ?n"
  proof (rule ccontr)
    assume "start \<noteq> ?n"
    then have "start \<le> ?n - 1" "?n - 1 < start + (?n - start)" using inv by (auto simp: run_inv_def)
    moreover have "run_ok ?q start (?n - start)" using inv by (simp add: run_inv_def)
    ultimately have "\<not> pts_jump (?q ! (?n - 1)) (?q ! (?n - 1 + 1))" by (simp add: run_ok_def)
    then show False using end_jump by contradiction
  qed
  moreover have "j + len < ?n" using inv assms(1) calculation by (auto simp: run_inv_def)
  ultimately show ?thesis using r inv same by (auto simp: run_inv_def)
qed

theorem bitrate_longest_run_witness:
  "be_longest_run (map Some ([9000000, 9040000, 2000000, 2040000, 2080000] @ [-1]) @ [None]) 0 5 0 0 0 = Ok (2, 2) \<and>
   run_ok [9000000, 9040000, 2000000, 2040000, 2080000] 2 2"
proof -
  let ?p = "[9000000, 9040000, 2000000, 2040000, 2080000] :: int list"
  have e: "be_longest_run (map Some (?p @ [-1]) @ [None]) 0 5 0 0 0 = Ok (2, 2)"
    "be_longest_run (map Some (?p @ [-1]) @ [None]) 0 (length ?p) 0 0 0 = Ok (2, 2)"
    by code_simp+
  obtain j len where "be_longest_run (map Some (?p @ [-1]) @ [None]) 0 (length ?p) 0 0 0 = Ok (j, len)"
    "run_ok ?p j len"
    using bitrate_longest_run [of ?p "[None]"] by (auto simp del: be_longest_run.simps)
  then show ?thesis using e by (simp del: be_longest_run.simps)
qed

text \<open>The run in progress is dropped near time 0. After a jump back to the start of the
  stream, as long as the time stamps of the new run stay within a second of the end mark -1, the
  loop back mode never picks it, however long it is: the run it picks ends before it.\<close>

theorem bitrate_run_after_loop_ignored:
  assumes "old \<noteq> []" "run_ok (new @ [-1]) 0 (length new)"
  shows "\<exists>j len. be_longest_run (map Some (old @ new @ [-1]) @ us) 0 (length (old @ new)) 0 0 0 = Ok (j, len) \<and>
    j + len < length old"
proof -
  let ?q = "old @ new @ [-1]"
  obtain j len start where r: "be_longest_run (map Some ?q @ us) 0 (length (old @ new)) 0 0 0 = Ok (j, len)"
    and inv: "run_inv ?q (length (old @ new)) j start len"
    using be_longest_run_start [of "length (old @ new)" ?q us] by auto
  have "j + len < length old"
  proof (rule ccontr)
    assume late: "\<not> j + len < length old"
    let ?t = "j + len - length old"
    have "j + len < start" "start \<le> length old + length new" "pts_jump (?q ! (j + len)) (?q ! (j + len + 1))"
      using inv late assms(1) by (auto simp: run_inv_def)
    then have "pts_jump ((new @ [-1]) ! ?t) ((new @ [-1]) ! (?t + 1))" "?t < length new"
      using late by (auto simp: nth_append [of old] Suc_diff_le)
    then show False using assms(2) by (simp add: run_ok_def)
  qed
  then show ?thesis using r by blast
qed

theorem bitrate_run_after_loop_ignored_witness:
  "\<exists>j len. be_longest_run (map Some ([9000000, 9040000] @ [0, 40000, 80000, 120000] @ [-1]) @ [None]) 0
     (length ([9000000, 9040000 :: int] @ [0, 40000, 80000, 120000])) 0 0 0 = Ok (j, len) \<and>
     j + len < length [9000000 :: int, 9040000]"
proof (rule bitrate_run_after_loop_ignored)
  let ?new = "[0, 40000, 80000, 120000] :: int list"
  have "\<not> pts_jump ((?new @ [-1]) ! t) ((?new @ [-1]) ! (t + 1))" if "t < length ?new" for t
  proof -
    have "t = 0 \<or> t = 1 \<or> t = 2 \<or> t = 3" using that by auto
    then show ?thesis by (auto simp: pts_jump_def)
  qed
  then show "run_ok (?new @ [-1]) 0 (length ?new)" by (simp add: run_ok_def)
qed simp

definition fe_inv :: "FramerateEstimater \<Rightarrow> bool" where
  "fe_inv fe \<longleftrightarrow> length (fe_nPts fe) = FRAMERATE_ARRAY_SIZE \<and>
     0 \<le> fe_nWritePos fe \<and> fe_nWritePos fe < int FRAMERATE_ARRAY_SIZE \<and>
     0 \<le> fe_nValidPtsCnt fe \<and> fe_nValidPtsCnt fe \<le> int FRAMERATE_ARRAY_SIZE"

definition fe_stored :: "FramerateEstimater \<Rightarrow> int \<Rightarrow> FramerateEstimater" where
  "fe_stored fe nPts =
     fe\<lparr>fe_nPts := (fe_nPts fe)[nat (fe_nWritePos fe) := nPts],
        fe_nWritePos := ring_next (fe_nWritePos fe) (int FRAMERATE_ARRAY_SIZE),
        fe_nValidPtsCnt := min (fe_nValidPtsCnt fe + 1) (int FRAMERATE_ARRAY_SIZE)\<rparr>"

text \<open>The time stamps in the table, oldest first.\<close>

definition fe_stamps :: "FramerateEstimater \<Rightarrow> int list" where
  "fe_stamps fe = ring_slice (fe_nPts fe)
     (nat ((fe_nWritePos fe - fe_nValidPtsCnt fe) mod int FRAMERATE_ARRAY_SIZE)) (nat (fe_nValidPtsCnt fe))"

text \<open>C23: Frame rate estimater. An update stores the time stamp and, once there are two, sets the
  frame duration to the median of the durations between the stamps in the table: the element in
  the middle of the durations in increasing order, provided the durations fit 32 bits.\<close>

theorem framerate_is_median:
  assumes "fe_inv fe" "\<forall>d \<in> set (fe_durations (fe_stamps (fe_stored fe nPts))). int32_range d"
  shows "\<exists>fe'. FramerateEstimaterUpdate fe nPts = Ok fe' \<and> fe_inv fe' \<and>
    (2 \<le> fe_nValidPtsCnt fe' \<longrightarrow>
       fe_nFrameDuration fe' =
         sort (fe_durations (fe_stamps fe')) ! (length (fe_durations (fe_stamps fe')) div 2))"
proof -
  define w c where "w = ring_next (fe_nWritePos fe) 4" and "c = min (fe_nValidPtsCnt fe + 1) 4"
  define ps where "ps = (fe_nPts fe)[nat (fe_nWritePos fe) := nPts]"
  define fe1 where "fe1 = fe\<lparr>fe_nPts := ps, fe_nWritePos := w, fe_nValidPtsCnt := c\<rparr>"
  have b: "0 \<le> w" "w < 4" "0 < c" "c \<le> 4" "length ps = 4"
    using assms(1) ring_next_bounds [of "fe_nWritePos fe" 4] by (auto simp: fe_inv_def w_def c_def ps_def)
  have inv: "fe_inv fe1" using b by (simp add: fe_inv_def fe1_def)
  have set: "arr_set (fe_nPts fe) (fe_nWritePos fe) nPts = Ok ps"
    using assms(1) by (simp add: fe_inv_def ps_def arr_set_def)
  have cnt: "(if fe_nValidPtsCnt fe < 4 then fe_nValidPtsCnt fe + 1 else fe_nValidPtsCnt fe) = c"
    using assms(1) by (auto simp: fe_inv_def c_def)
  have pos: "(w - c) mod 4 = int (nat ((w - c) mod 4))" "nat ((w - c) mod 4) < length ps"
    using b(5) by (simp_all add: nat_less_iff)
  define arr where "arr = fe_stamps fe1"
  have read: "ring_read 4 ps (if w - c < 0 then w - c + 4 else w - c) (nat c) [] = Ok arr"
    using ring_read_slice [OF pos(2), of "nat c" "[]"] pos(1) b ring_start_mod [of w 4 c]
    by (simp add: arr_def fe_stamps_def fe1_def)
  then have read': "w < c \<Longrightarrow> ring_read 4 ps (w - c + 4) (nat c) [] = Ok arr"
    "\<not> w < c \<Longrightarrow> ring_read 4 ps (w - c) (nat c) [] = Ok arr"
    by auto
  have range: "\<forall>d \<in> set (fe_durations arr). int32_range d"
    using assms(2) by (simp add: arr_def fe1_def fe_stored_def ps_def w_def c_def)
  show ?thesis
  proof (cases "c < 2")
    case True
    then have "FramerateEstimaterUpdate fe nPts = Ok fe1"
      by (simp add: FramerateEstimaterUpdate_def set cnt w_def [symmetric] fe1_def Let_def)
    then show ?thesis using inv True by (auto simp: fe1_def)
  next
    case False
    let ?d = "fe_durations arr"
    let ?m = "sort ?d ! (length ?d div 2)"
    have len: "0 < length ?d" using False by (simp add: fe_durations_def arr_def fe_stamps_def fe1_def)
    have diff: "fe_differences arr 0 (nat c - 1) [] = Ok ?d"
      using fe_differences_Ok [of 0 "nat c - 1" arr "[]"] b(3)
      by (simp add: fe_durations_def arr_def fe_stamps_def fe1_def)
    have sorted: "fe_sort_outer 0 (length ?d - 1) ?d = Ok (sort ?d)" using fe_sort_is_sort [OF range] .
    have mid: "length ?d div 2 < length (sort ?d)" using len by simp
    then have "?m \<in> set ?d" by (metis nth_mem set_sort)
    then have "i32 ?m = ?m" using range i32_id by blast
    moreover have get: "arr_get (sort ?d) (int (length ?d) div 2) = Ok ?m"
      using mid by (simp add: arr_get_def zdiv_int [symmetric] nat_div_distrib del: arr_get_Ok)
    ultimately have "FramerateEstimaterUpdate fe nPts = Ok (fe1\<lparr>fe_nFrameDuration := ?m\<rparr>)"
      using False sorted diff
      by (simp add: FramerateEstimaterUpdate_def set cnt w_def [symmetric] fe1_def Let_def get read'
          del: ebind_eq_Ok arr_get_Ok)
    then show ?thesis using inv by (auto simp: fe_inv_def arr_def fe_stamps_def)
  qed
qed

theorem framerate_is_median_witness:
  "\<exists>fe'. FramerateEstimaterUpdate
      \<lparr>fe_nPts = [40000, 80000, 130000, 0], fe_nWritePos = 3, fe_nValidPtsCnt = 3, fe_nFrameDuration = 40000\<rparr> 160000 =
      Ok fe' \<and> fe_inv fe' \<and> fe_nFrameDuration fe' = sort [40000, 50000, 30000] ! 1"
proof -
  let ?fe = "\<lparr>fe_nPts = [40000, 80000, 130000, 0], fe_nWritePos = 3, fe_nValidPtsCnt = 3, fe_nFrameDuration = 40000\<rparr>"
  let ?fe' = "\<lparr>fe_nPts = [40000, 80000, 130000, 160000], fe_nWritePos = 0, fe_nValidPtsCnt = 4, fe_nFrameDuration = 40000\<rparr>"
  have u: "FramerateEstimaterUpdate ?fe 160000 = Ok ?fe'" by code_simp
  have d: "fe_durations (fe_stamps (fe_stored ?fe 160000)) = [40000, 50000, 30000]"
    "fe_durations (fe_stamps ?fe') = [40000, 50000, 30000]"
    by code_simp+
  have "fe_inv ?fe" by (simp add: fe_inv_def)
  moreover have "\<forall>d \<in> set (fe_durations (fe_stamps (fe_stored ?fe 160000))). int32_range d"
    unfolding d(1) by (simp add: int32_range_def)
  ultimately obtain fe' where "Ok ?fe' = Ok fe'" "fe_inv fe'"
    "2 \<le> fe_nValidPtsCnt fe' \<longrightarrow> fe_nFrameDuration fe' =
       sort (fe_durations (fe_stamps fe')) ! (length (fe_durations (fe_stamps fe')) div 2)"
    using framerate_is_median [of ?fe 160000] unfolding u by blast
  then have "fe_inv ?fe'" "fe_nFrameDuration ?fe' = sort [40000, 50000, 30000] ! 1"
    using d(2) by (simp, auto)
  then show ?thesis using u by blast
qed

text \<open>A jump of the clock spoils the sort. A duration beyond 32 bits that has to move up is
  cut to its low 32 bits on the way, so that the result is not a rearrangement of the durations;
  three durations show it.\<close>

theorem framerate_sort_truncates:
  assumes "2147483648 \<le> d" "d < 4294967296" "0 \<le> a" "a \<le> b" "b < 2147483648"
  shows "\<exists>ys. fe_sort_outer 0 2 [d, a, b] = Ok ys \<and> d \<notin> set ys \<and> ys ! 0 < 0"
proof -
  have i: "i32 d = d - 4294967296" "i32 (d - 4294967296) = d - 4294967296" "i32 a = a" "i32 b = b"
    using assms by (simp_all add: i32_wrap_high i32_id int32_range_def)
  show ?thesis using assms i fe_sort_outer_Ok [of 0 2 "[d, a, b]"] by (auto simp: numeral_2_eq_2 Let_def)
qed

theorem framerate_sort_truncates_witness:
  "\<exists>ys. fe_sort_outer 0 2 [3000000000, 40000, 40000] = Ok ys \<and> ys ! 0 < 0"
proof -
  obtain ys where "fe_sort_outer 0 2 [3000000000, 40000, 40000] = Ok ys" "ys ! 0 < 0"
    using framerate_sort_truncates [of 3000000000 40000 40000] by (auto simp del: ebind_eq_Ok)
  then show ?thesis by blast
qed

end
