(* ===== verification/Bit_Reader.thy ===== *)
theory Bit_Reader
  imports Cedar_Prelude
begin

text \<open>
  The bit reader of the parsers, \<open>libcore/base/CdxBitReader.c\<close>: a reservoir of up to 32 bits in
  front of a byte array. It is shown to be a cursor in the bit string of the array. The checks
  with \<open>CDX_CHECK\<close> are compiled out in normal builds and are not modelled. C leaves a shift of a
  32-bit value by 32 undefined, and the reader performs such shifts; \<open>sh x k\<close> is what the machine
  computes then, and the proofs only use that a shifted 0 is 0.
\<close>

unbundle bit_operations_syntax

section \<open>The functions\<close>

record CdxBitReader =
  br_data :: "8 word list"
  br_mData :: nat
  br_mSize :: nat
  br_mReservoir :: "32 word"
  br_mNumBitsLeft :: nat

definition shl32 :: "(32 word \<Rightarrow> nat \<Rightarrow> 32 word) \<Rightarrow> 32 word \<Rightarrow> nat \<Rightarrow> 32 word" where
  "shl32 sh x k = (if k < 32 then push_bit k x else sh x k)"

definition shr32 :: "(32 word \<Rightarrow> nat \<Rightarrow> 32 word) \<Rightarrow> 32 word \<Rightarrow> nat \<Rightarrow> 32 word" where
  "shr32 sh x k = (if k < 32 then drop_bit k x else sh x k)"

definition CdxBitReaderCreate :: "8 word list \<Rightarrow> CdxBitReader" where
  "CdxBitReaderCreate data =
     \<lparr>br_data = data, br_mData = 0, br_mSize = length data, br_mReservoir = 0, br_mNumBitsLeft = 0\<rparr>"

text \<open>The loop of \<open>onFillReservoir\<close>, with \<open>k\<close> turns to go: the value of \<open>i\<close> at its end.\<close>

fun br_fill_loop :: "nat \<Rightarrow> nat \<Rightarrow> CdxBitReader \<Rightarrow> (nat \<times> CdxBitReader) exec" where
  "br_fill_loop 0 i br = Ok (i, br)"
| "br_fill_loop (Suc k) i br =
     (if 0 < br_mSize br then
        ebind (arr_get (br_data br) (int (br_mData br))) (\<lambda>b.
          br_fill_loop k (Suc i)
            (br\<lparr>br_mReservoir := push_bit 8 (br_mReservoir br) OR ucast b,
                br_mData := br_mData br + 1, br_mSize := br_mSize br - 1\<rparr>))
      else Ok (i, br))"

definition onFillReservoir ::
  "(32 word \<Rightarrow> nat \<Rightarrow> 32 word) \<Rightarrow> CdxBitReader \<Rightarrow> CdxBitReader exec" where
  "onFillReservoir sh br = ebind (br_fill_loop 4 0 (br\<lparr>br_mReservoir := 0\<rparr>)) (\<lambda>(i, br1).
     Ok (br1\<lparr>br_mNumBitsLeft := 8 * i, br_mReservoir := shl32 sh (br_mReservoir br1) (32 - 8 * i)\<rparr>))"

text \<open>The loop of \<open>CdxBitReaderGetBits\<close>. \<open>None\<close>: it does not end, or reads outside the array.\<close>

partial_function (option) br_get_loop ::
  "(32 word \<Rightarrow> nat \<Rightarrow> 32 word) \<Rightarrow> nat \<Rightarrow> 32 word \<Rightarrow> CdxBitReader \<Rightarrow> (32 word \<times> CdxBitReader) option" where
  "br_get_loop sh n result br =
     (if n = 0 then Some (result, br)
      else
        (case (if br_mNumBitsLeft br = 0 then onFillReservoir sh br else Ok br) of
           Ok br1 \<Rightarrow>
             (let m = min n (br_mNumBitsLeft br1) in
              br_get_loop sh (n - m) (shl32 sh result m OR shr32 sh (br_mReservoir br1) (32 - m))
                (br1\<lparr>br_mReservoir := shl32 sh (br_mReservoir br1) m,
                     br_mNumBitsLeft := br_mNumBitsLeft br1 - m\<rparr>))
         | _ \<Rightarrow> None))"

definition CdxBitReaderGetBits ::
  "(32 word \<Rightarrow> nat \<Rightarrow> 32 word) \<Rightarrow> nat \<Rightarrow> CdxBitReader \<Rightarrow> (32 word \<times> CdxBitReader) option" where
  "CdxBitReaderGetBits sh n br = br_get_loop sh n 0 br"

fun CdxBitReaderSkipBits ::
  "(32 word \<Rightarrow> nat \<Rightarrow> 32 word) \<Rightarrow> nat \<Rightarrow> CdxBitReader \<Rightarrow> CdxBitReader option" where
  "CdxBitReaderSkipBits sh n br =
     (if 32 < n then
        (case CdxBitReaderGetBits sh 32 br of
           None \<Rightarrow> None
         | Some (_, br1) \<Rightarrow> CdxBitReaderSkipBits sh (n - 32) br1)
      else if 0 < n then map_option snd (CdxBitReaderGetBits sh n br)
      else Some br)"

text \<open>The loop of \<open>CdxBitReaderPutBits\<close>. The counter is a \<open>uint32\<close>: subtracting 8 from less wraps
  around. A pointer that would move in front of the array ends the run.\<close>

partial_function (option) br_put_loop :: "nat \<Rightarrow> CdxBitReader \<Rightarrow> CdxBitReader option" where
  "br_put_loop n br =
     (if 32 < (br_mNumBitsLeft br + n) mod 4294967296 then
        (if br_mData br = 0 then None
         else br_put_loop n
           (br\<lparr>br_mNumBitsLeft := (br_mNumBitsLeft br + 4294967296 - 8) mod 4294967296,
               br_mData := br_mData br - 1, br_mSize := br_mSize br + 1\<rparr>))
      else Some br)"

definition CdxBitReaderPutBits ::
  "(32 word \<Rightarrow> nat \<Rightarrow> 32 word) \<Rightarrow> 32 word \<Rightarrow> nat \<Rightarrow> CdxBitReader \<Rightarrow> CdxBitReader option" where
  "CdxBitReaderPutBits sh x n br = map_option (\<lambda>br1.
     br1\<lparr>br_mReservoir := shr32 sh (br_mReservoir br1) n OR shl32 sh x (32 - n),
         br_mNumBitsLeft := (br_mNumBitsLeft br1 + n) mod 4294967296\<rparr>) (br_put_loop n br)"

definition CdxBitReaderNumBitsLeft :: "CdxBitReader \<Rightarrow> nat" where
  "CdxBitReaderNumBitsLeft br = (br_mSize br * 8 + br_mNumBitsLeft br) mod 4294967296"

text \<open>The position in the array of the byte that holds the next bit.\<close>

definition CdxBitReaderData :: "CdxBitReader \<Rightarrow> int" where
  "CdxBitReaderData br = int (br_mData br) - int ((br_mNumBitsLeft br + 7) div 8)"

section \<open>The reader as a cursor\<close>

text \<open>Bit \<open>k\<close> of the array, most significant bit of each byte first, and the number that \<open>n\<close> bits
  from position \<open>p\<close> on spell.\<close>

definition data_bit :: "8 word list \<Rightarrow> nat \<Rightarrow> bool" where
  "data_bit d k = bit (d ! (k div 8)) (7 - k mod 8)"

fun read_bits :: "8 word list \<Rightarrow> nat \<Rightarrow> nat \<Rightarrow> 32 word" where
  "read_bits d p 0 = 0"
| "read_bits d p (Suc n) = push_bit 1 (read_bits d p n) OR of_bool (data_bit d (p + n))"

text \<open>The reader at bit \<open>p\<close> of \<open>d\<close>: the reservoir holds the bits between the cursor and the next
  byte to load.\<close>

definition br_at :: "CdxBitReader \<Rightarrow> 8 word list \<Rightarrow> nat \<Rightarrow> bool" where
  "br_at br d p \<longleftrightarrow> br_data br = d \<and> br_mData br + br_mSize br = length d \<and>
     br_mNumBitsLeft br \<le> 32 \<and> p + br_mNumBitsLeft br = 8 * br_mData br \<and>
     (\<forall>i < br_mNumBitsLeft br. bit (br_mReservoir br) (31 - i) = data_bit d (p + i))"

lemma br_at_bound: "br_at br d p \<Longrightarrow> p \<le> 8 * length d"
  by (auto simp: br_at_def)

lemma br_at_bit: "br_at br d p \<Longrightarrow> i < br_mNumBitsLeft br \<Longrightarrow> bit (br_mReservoir br) (31 - i) = data_bit d (p + i)"
  by (simp add: br_at_def)

lemma bit_read_bits: "bit (read_bits d p n) j \<longleftrightarrow> j < n \<and> j < 32 \<and> data_bit d (p + n - 1 - j)"
proof (induction n arbitrary: j)
  case (Suc n)
  have "bit (read_bits d p (Suc n)) j \<longleftrightarrow>
      1 \<le> j \<and> j < 32 \<and> bit (read_bits d p n) (j - 1) \<or> data_bit d (p + n) \<and> j = 0"
    unfolding read_bits.simps bit_or_iff bit_push_bit_iff bit_of_bool_iff by (auto simp: possible_bit_def)
  then show ?case using Suc.IH [of "j - 1"] by (cases j) auto
qed simp

text \<open>Filling an empty reservoir.\<close>

lemma br_fill_loop_bits:
  assumes "br_mData br + br_mSize br = length (br_data br)" "i + k \<le> 4"
    "\<forall>j < 8 * i. bit (br_mReservoir br) j = data_bit (br_data br) (8 * br_mData br - 1 - j)"
    "8 * i \<le> 8 * br_mData br"
  shows "\<exists>br'. br_fill_loop k i br = Ok (i + min k (br_mSize br), br') \<and>
    br_data br' = br_data br \<and> br_mData br' = br_mData br + min k (br_mSize br) \<and>
    br_mSize br' = br_mSize br - min k (br_mSize br) \<and>
    (\<forall>j < 8 * (i + min k (br_mSize br)).
       bit (br_mReservoir br') j = data_bit (br_data br) (8 * br_mData br' - 1 - j))"
  using assms
proof (induction k arbitrary: i br)
  case (Suc k)
  show ?case
  proof (cases "br_mSize br = 0")
    case True
    then show ?thesis using Suc.prems(3) by simp
  next
    case False
    let ?b = "br_data br ! br_mData br"
    let ?br = "br\<lparr>br_mReservoir := push_bit 8 (br_mReservoir br) OR ucast ?b,
        br_mData := br_mData br + 1, br_mSize := br_mSize br - 1\<rparr>"
    have "bit (br_mReservoir ?br) j = data_bit (br_data br) (8 * (br_mData br + 1) - 1 - j)" if "j < 8 * Suc i" for j
    proof (cases "j < 8")
      case True
      have e: "8 * (br_mData br + 1) - 1 - j = 8 * br_mData br + (7 - j)" using True by simp
      have "(8 * br_mData br + (7 - j)) div 8 = br_mData br" "(8 * br_mData br + (7 - j)) mod 8 = 7 - j"
        by simp_all
      then show ?thesis unfolding e using True by (simp add: data_bit_def bit_simps)
    next
      case False
      have "j < 32" using that Suc.prems(2) by simp
      moreover have "\<not> bit ?b j" using False bit_imp_le_length [of ?b j] by auto
      ultimately show ?thesis
        using False that Suc.prems(3) [rule_format, of "j - 8"]
        by (auto simp: bit_simps diff_diff_left) 
    qed
    then have bits: "\<forall>j < 8 * Suc i. bit (br_mReservoir ?br) j =
        data_bit (br_data ?br) (8 * br_mData ?br - 1 - j)" by simp
    have pre: "br_mData ?br + br_mSize ?br = length (br_data ?br)" "Suc i + k \<le> 4" "8 * Suc i \<le> 8 * br_mData ?br"
      using Suc.prems False by simp_all
    obtain br' where "br_fill_loop k (Suc i) ?br = Ok (Suc i + min k (br_mSize ?br), br')"
      "br_data br' = br_data br" "br_mData br' = br_mData br + 1 + min k (br_mSize ?br)"
      "br_mSize br' = br_mSize br - 1 - min k (br_mSize ?br)"
      "\<forall>j < 8 * (Suc i + min k (br_mSize ?br)).
         bit (br_mReservoir br') j = data_bit (br_data br) (8 * br_mData br' - 1 - j)"
      using Suc.IH [OF pre(1,2) bits pre(3)] by auto
    moreover have "min (Suc k) (br_mSize br) = Suc (min k (br_mSize br - 1))" using False by simp
    ultimately show ?thesis using False Suc.prems(1) by (simp add: arr_get_def)
  qed
qed simp

lemma onFillReservoir_at:
  assumes "br_at br d p" "br_mNumBitsLeft br = 0" "0 < br_mSize br"
  shows "\<exists>br1. onFillReservoir sh br = Ok br1 \<and> br_at br1 d p \<and> 0 < br_mNumBitsLeft br1"
proof -
  define i where "i = min 4 (br_mSize br)"
  have at: "br_data br = d" "br_mData br + br_mSize br = length d" "p = 8 * br_mData br"
    using assms(1,2) by (auto simp: br_at_def)
  obtain br1 where b: "br_fill_loop 4 0 (br\<lparr>br_mReservoir := 0\<rparr>) = Ok (i, br1)" "br_data br1 = d"
    "br_mData br1 = br_mData br + i" "br_mSize br1 = br_mSize br - i"
    "\<forall>j < 8 * i. bit (br_mReservoir br1) j = data_bit d (8 * br_mData br1 - 1 - j)"
    using br_fill_loop_bits [of "br\<lparr>br_mReservoir := 0\<rparr>" 0 4] at by (auto simp: i_def)
  have i: "0 < i" "i \<le> 4" "i \<le> br_mSize br" using assms(3) by (auto simp: i_def)
  let ?br = "br1\<lparr>br_mNumBitsLeft := 8 * i, br_mReservoir := push_bit (32 - 8 * i) (br_mReservoir br1)\<rparr>"
  have fill: "onFillReservoir sh br = Ok ?br" using b(1) i by (simp add: onFillReservoir_def shl32_def)
  have "bit (br_mReservoir ?br) (31 - t) = data_bit d (p + t)" if "t < 8 * i" for t
  proof -
    have "bit (br_mReservoir ?br) (31 - t) = bit (br_mReservoir br1) (8 * i - 1 - t)"
      using that i by (auto simp: bit_simps)
    also have "\<dots> = data_bit d (8 * br_mData br1 - 1 - (8 * i - 1 - t))" using b(5) that by auto
    also have "8 * br_mData br1 - 1 - (8 * i - 1 - t) = p + t" using that b(3) at(3) i by simp
    finally show ?thesis .
  qed
  then have "br_at ?br d p" using b at i by (simp add: br_at_def)
  then show ?thesis using fill i by auto
qed

text \<open>One turn of the loop takes \<open>m\<close> bits off the reservoir.\<close>

lemma br_shift_at:
  assumes "br_at br d p" "m \<le> br_mNumBitsLeft br"
  shows "br_at (br\<lparr>br_mReservoir := shl32 sh (br_mReservoir br) m, br_mNumBitsLeft := br_mNumBitsLeft br - m\<rparr>) d (p + m)"
proof -
  have "bit (shl32 sh (br_mReservoir br) m) (31 - i) = data_bit d (p + m + i)" if "i < br_mNumBitsLeft br - m" for i
  proof -
    have m: "m < 32" "i + m < br_mNumBitsLeft br" "br_mNumBitsLeft br \<le> 32"
      using that assms by (auto simp: br_at_def)
    then have "bit (shl32 sh (br_mReservoir br) m) (31 - i) = bit (br_mReservoir br) (31 - (i + m))"
      by (auto simp: shl32_def bit_simps)
    also have "\<dots> = data_bit d (p + (i + m))" by (rule br_at_bit [OF assms(1) m(2)])
    finally show ?thesis by (simp add: ac_simps)
  qed
  then show ?thesis using assms by (auto simp: br_at_def)
qed

lemma br_result_bits:
  assumes "br_at br d (p + k)" "0 < m" "m \<le> br_mNumBitsLeft br" "k + m \<le> 32" "sh 0 32 = 0"
  shows "shl32 sh (read_bits d p k) m OR shr32 sh (br_mReservoir br) (32 - m) = read_bits d p (k + m)"
proof -
  have res: "bit (shr32 sh (br_mReservoir br) (32 - m)) j \<longleftrightarrow> j < m \<and> data_bit d (p + (k + m) - 1 - j)" for j
  proof (cases "j < m")
    case True
    have "bit (shr32 sh (br_mReservoir br) (32 - m)) j = bit (br_mReservoir br) (31 - (m - 1 - j))"
      using True assms(2,4) by (auto simp: shr32_def bit_simps)
    also have "\<dots> = data_bit d (p + k + (m - 1 - j))"
      by (rule br_at_bit [OF assms(1)]) (use assms(3) True in simp)
    finally show ?thesis using True by (simp add: ac_simps)
  next
    case False
    have "\<not> bit (br_mReservoir br) (32 - m + j)"
      using bit_imp_le_length [of "br_mReservoir br" "32 - m + j"] False assms(4) by auto
    then show ?thesis using False assms(2) by (simp add: shr32_def bit_simps)
  qed
  have acc: "bit (shl32 sh (read_bits d p k) m) j \<longleftrightarrow> m \<le> j \<and> j < 32 \<and> bit (read_bits d p k) (j - m)" for j
  proof (cases "m = 32")
    case True
    then have "k = 0" using assms(4) by simp
    then show ?thesis using True assms(5) by (simp add: shl32_def)
  next
    case False
    then have "m < 32" using assms(4) by simp
    then show ?thesis by (auto simp: shl32_def bit_push_bit_iff possible_bit_def)
  qed
  show ?thesis
  proof (rule bit_word_eqI)
    fix j assume "j < LENGTH(32)"
    then show "bit (shl32 sh (read_bits d p k) m OR shr32 sh (br_mReservoir br) (32 - m)) j =
        bit (read_bits d p (k + m)) j"
      unfolding bit_or_iff res acc bit_read_bits using assms(4) by (auto simp: add.assoc)
  qed
qed

lemma br_get_loop_at:
  assumes "br_at br d (p + k)" "k + n \<le> 32" "p + k + n \<le> 8 * length d" "sh 0 32 = 0"
  shows "\<exists>br'. br_get_loop sh n (read_bits d p k) br = Some (read_bits d p (k + n), br') \<and> br_at br' d (p + (k + n))"
  using assms
proof (induction n arbitrary: k br rule: less_induct)
  case (less n)
  show ?case
  proof (cases "n = 0")
    case True
    then show ?thesis using less.prems(1) by (subst br_get_loop.simps) simp
  next
    case False
    obtain br1 where b: "(if br_mNumBitsLeft br = 0 then onFillReservoir sh br else Ok br) = Ok br1"
      "br_at br1 d (p + k)" "0 < br_mNumBitsLeft br1"
    proof (cases "br_mNumBitsLeft br = 0")
      case True
      have "0 < br_mSize br" using less.prems(1,3) True False by (auto simp: br_at_def)
      then show ?thesis using that onFillReservoir_at [OF less.prems(1) True, of sh] True by auto
    qed (use less.prems(1) that in auto)
    define m where "m = min n (br_mNumBitsLeft br1)"
    have m: "0 < m" "m \<le> n" "m \<le> br_mNumBitsLeft br1" using False b(3) by (auto simp: m_def)
    let ?br = "br1\<lparr>br_mReservoir := shl32 sh (br_mReservoir br1) m, br_mNumBitsLeft := br_mNumBitsLeft br1 - m\<rparr>"
    have step: "br_get_loop sh n (read_bits d p k) br = br_get_loop sh (n - m) (read_bits d p (k + m)) ?br"
      using False b(1) br_result_bits [of br1 d p k m sh] b(2) m less.prems(2,4)
      by (subst br_get_loop.simps) (simp add: m_def [symmetric] Let_def)
    have "br_at ?br d (p + (k + m))" using br_shift_at [OF b(2) m(3)] by (simp add: add.assoc)
    then show ?thesis
      unfolding step using less.IH [of "n - m" ?br "k + m"] less.prems(2-4) m by (simp add: add.assoc)
  qed
qed

text \<open>Putting bits back: the loop gives whole bytes of the reservoir back to the array until there
  is room.\<close>

lemma br_put_loop_at:
  assumes "br_at br d p" "n \<le> 25"
  shows "\<exists>br1. br_put_loop n br = Some br1 \<and> br_at br1 d p \<and> br_mNumBitsLeft br1 + n \<le> 32"
  using assms
proof (induction "br_mNumBitsLeft br" arbitrary: br rule: less_induct)
  case less
  have left: "br_mNumBitsLeft br \<le> 32" using less.prems(1) by (simp add: br_at_def)
  show ?case
  proof (cases "br_mNumBitsLeft br + n \<le> 32")
    case True
    then show ?thesis using less.prems(1) by (subst br_put_loop.simps) simp
  next
    case False
    then have big: "8 \<le> br_mNumBitsLeft br" using less.prems(2) by simp
    then have pos: "0 < br_mData br" using less.prems(1) by (auto simp: br_at_def)
    let ?br = "br\<lparr>br_mNumBitsLeft := br_mNumBitsLeft br - 8, br_mData := br_mData br - 1, br_mSize := br_mSize br + 1\<rparr>"
    have w: "(br_mNumBitsLeft br + 4294967296 - 8) mod 4294967296 = br_mNumBitsLeft br - 8"
    proof -
      have "br_mNumBitsLeft br + 4294967296 - 8 = (br_mNumBitsLeft br - 8) + 4294967296" using big by simp
      moreover have "(br_mNumBitsLeft br - 8) mod 4294967296 = br_mNumBitsLeft br - 8" using left by simp
      ultimately show ?thesis by (simp only: mod_add_self2)
    qed
    have "br_at ?br d p" using less.prems(1) big pos by (auto simp: br_at_def)
    moreover have "br_put_loop n br = br_put_loop n ?br"
      using False left less.prems(2) pos w by (subst br_put_loop.simps) simp
    ultimately show ?thesis using less.hyps [of ?br] less.prems(2) big by simp
  qed
qed

lemma CdxBitReaderPutBits_at:
  assumes "br_at br d p" "n \<le> 25" "n \<le> p" "x = read_bits d (p - n) n" "sh 0 32 = 0"
  shows "\<exists>br'. CdxBitReaderPutBits sh x n br = Some br' \<and> br_at br' d (p - n)"
proof -
  obtain br1 where b: "br_put_loop n br = Some br1" "br_at br1 d p" "br_mNumBitsLeft br1 + n \<le> 32"
    using br_put_loop_at [OF assms(1,2)] by blast
  let ?R = "shr32 sh (br_mReservoir br1) n OR shl32 sh x (32 - n)"
  have hi: "bit (shl32 sh x (32 - n)) (31 - i) \<longleftrightarrow> i < n \<and> data_bit d (p - n + i)" if "i < 32" for i
  proof (cases "n = 0")
    case True
    then show ?thesis using assms(4,5) by (simp add: shl32_def)
  next
    case False
    then show ?thesis
      using that assms(2) by (auto simp: shl32_def bit_push_bit_iff possible_bit_def assms(4) bit_read_bits)
  qed
  have "bit ?R (31 - i) = data_bit d (p - n + i)" if i: "i < br_mNumBitsLeft br1 + n" for i
  proof (cases "i < n")
    case True
    have "\<not> bit (br_mReservoir br1) (n + (31 - i))"
      using bit_imp_le_length [of "br_mReservoir br1" "n + (31 - i)"] True assms(2) by auto
    then show ?thesis using hi [of i] True assms(2) by (simp add: bit_or_iff shr32_def bit_drop_bit_eq)
  next
    case False
    have "bit (shr32 sh (br_mReservoir br1) n) (31 - i) = bit (br_mReservoir br1) (31 - (i - n))"
      using False i b(3) assms(2) by (simp add: shr32_def bit_drop_bit_eq add.commute)
    also have "\<dots> = data_bit d (p + (i - n))" by (rule br_at_bit [OF b(2)]) (use i False in simp)
    finally show ?thesis using hi [of i] i b(3) False assms(3) by (simp add: bit_or_iff)
  qed
  then have "br_at (br1\<lparr>br_mReservoir := ?R, br_mNumBitsLeft := br_mNumBitsLeft br1 + n\<rparr>) d (p - n)"
    using b(2,3) assms(3) by (auto simp: br_at_def)
  then show ?thesis using b(1,3) by (simp add: CdxBitReaderPutBits_def)
qed

section \<open>Properties\<close>

text \<open>C7: The bit reader is a cursor. At bit \<open>p\<close> of the array, \<open>CdxBitReaderGetBits\<close> returns for
  any \<open>n \<le> 32\<close> bits that are left, gives the number they spell and moves the cursor behind them,
  however the reservoir happens to be filled and whatever the machine does for a shift by 32.\<close>

theorem bitreader_get_is_cursor:
  assumes "br_at br d p" "n \<le> 32" "p + n \<le> 8 * length d" "sh 0 32 = 0"
  shows "\<exists>br'. CdxBitReaderGetBits sh n br = Some (read_bits d p n, br') \<and> br_at br' d (p + n) \<and>
    (CdxBitReaderNumBitsLeft br' = (8 * length d - (p + n)) mod 4294967296) \<and>
    CdxBitReaderData br' = int ((p + n) div 8)"
proof -
  obtain br' where g: "CdxBitReaderGetBits sh n br = Some (read_bits d p n, br')" "br_at br' d (p + n)"
    using br_get_loop_at [of br d p 0 n sh] assms by (auto simp: CdxBitReaderGetBits_def)
  have at: "br_mData br' + br_mSize br' = length d" "p + n + br_mNumBitsLeft br' = 8 * br_mData br'"
    using g(2) by (auto simp: br_at_def)
  then have "br_mSize br' * 8 + br_mNumBitsLeft br' = 8 * length d - (p + n)" by simp
  moreover have "(p + n) div 8 + (br_mNumBitsLeft br' + 7) div 8 = br_mData br'" using at(2) by linarith
  ultimately show ?thesis using g by (auto simp: CdxBitReaderNumBitsLeft_def CdxBitReaderData_def)
qed

lemma br_at_created: "br_at (CdxBitReaderCreate d) d 0"
  by (simp add: br_at_def CdxBitReaderCreate_def)

theorem bitreader_get_is_cursor_witness:
  "\<exists>br'. CdxBitReaderGetBits (\<lambda>x k. x) 12 (CdxBitReaderCreate [0x12, 0x34, 0x56, 0x78, 0x9A]) = Some (0x123, br')"
proof -
  have "read_bits [0x12, 0x34, 0x56, 0x78, 0x9A] 0 12 = 0x123" by code_simp
  then show ?thesis
    using bitreader_get_is_cursor [OF br_at_created, of 12 "[0x12, 0x34, 0x56, 0x78, 0x9A]" "\<lambda>x k. x"] by auto
qed

text \<open>C30: Reading and putting back. For at most 25 bits, \<open>CdxBitReaderPutBits\<close> with the value
  just read returns and puts the cursor back where it was, so that the same read gives the same
  value again.\<close>

theorem bitreader_get_put_round_trip:
  assumes "br_at br d p" "n \<le> 25" "p + n \<le> 8 * length d" "sh 0 32 = 0"
    "CdxBitReaderGetBits sh n br = Some (x, br1)"
  shows "\<exists>br2 br3. CdxBitReaderPutBits sh x n br1 = Some br2 \<and> br_at br2 d p \<and>
    CdxBitReaderGetBits sh n br2 = Some (x, br3)"
proof -
  have r: "x = read_bits d p n" "br_at br1 d (p + n)"
    using br_get_loop_at [of br d p 0 n sh] assms by (auto simp: CdxBitReaderGetBits_def)
  obtain br2 where br2: "CdxBitReaderPutBits sh x n br1 = Some br2" "br_at br2 d p"
    using CdxBitReaderPutBits_at [OF r(2) assms(2), of x sh] r(1) assms(4) by auto
  then show ?thesis
    using br_get_loop_at [of br2 d p 0 n sh] assms(2-4) r(1) by (auto simp: CdxBitReaderGetBits_def)
qed

theorem bitreader_get_put_round_trip_witness:
  "\<exists>x br1 br2. CdxBitReaderGetBits (\<lambda>x k. x) 20 (CdxBitReaderCreate [0x12, 0x34, 0x56]) = Some (x, br1) \<and>
     CdxBitReaderPutBits (\<lambda>x k. x) x 20 br1 = Some br2 \<and> br_at br2 [0x12, 0x34, 0x56] 0"
proof -
  obtain x br1 where "CdxBitReaderGetBits (\<lambda>x k. x) 20 (CdxBitReaderCreate [0x12, 0x34, 0x56]) = Some (x, br1)"
    using br_get_loop_at [of "CdxBitReaderCreate [0x12, 0x34, 0x56]" "[0x12, 0x34, 0x56]" 0 0 20 "\<lambda>x k. x"]
      br_at_created by (auto simp: CdxBitReaderGetBits_def)
  then show ?thesis
    using bitreader_get_put_round_trip [OF br_at_created, of 20 "[0x12, 0x34, 0x56]" "\<lambda>x k. x" x br1] by auto
qed

text \<open>The bits a loop that returns has taken were there.\<close>

lemma onFillReservoir_count:
  assumes "onFillReservoir sh br = Ok br1" "br_mData br + br_mSize br = length (br_data br)"
  shows "8 * br_mSize br1 + br_mNumBitsLeft br1 = 8 * br_mSize br \<and>
    br_mData br1 + br_mSize br1 = length (br_data br1)"
proof -
  obtain br' where "br_fill_loop 4 0 (br\<lparr>br_mReservoir := 0\<rparr>) = Ok (min 4 (br_mSize br), br')"
    "br_data br' = br_data br" "br_mData br' = br_mData br + min 4 (br_mSize br)"
    "br_mSize br' = br_mSize br - min 4 (br_mSize br)"
    using br_fill_loop_bits [of "br\<lparr>br_mReservoir := 0\<rparr>" 0 4] assms(2) by auto
  then show ?thesis using assms by (auto simp: onFillReservoir_def min_def split: if_splits)
qed

lemma br_get_loop_enough:
  assumes "br_get_loop sh n r br = Some y" "br_mData br + br_mSize br = length (br_data br)"
  shows "n \<le> 8 * br_mSize br + br_mNumBitsLeft br"
  using assms
proof (induction rule: br_get_loop.raw_induct [rotated 1, consumes 1, case_names loop])
  case (loop f sh n r br y)
  show ?case
  proof (cases "n = 0")
    case False
    then obtain br1 where b: "(if br_mNumBitsLeft br = 0 then onFillReservoir sh br else Ok br) = Ok br1"
      using loop(2) by (auto split: exec.splits)
    let ?m = "min n (br_mNumBitsLeft br1)"
    have cnt: "8 * br_mSize br1 + br_mNumBitsLeft br1 = 8 * br_mSize br + br_mNumBitsLeft br"
      "br_mData br1 + br_mSize br1 = length (br_data br1)"
      using b loop(3) onFillReservoir_count [of sh br br1] by (auto split: if_splits)
    have "f sh (n - ?m) (shl32 sh r ?m OR shr32 sh (br_mReservoir br1) (32 - ?m))
        (br1\<lparr>br_mReservoir := shl32 sh (br_mReservoir br1) ?m, br_mNumBitsLeft := br_mNumBitsLeft br1 - ?m\<rparr>) = Some y"
      using loop(2) False b by (simp add: Let_def)
    from loop(1) [OF this] cnt show ?thesis by simp
  qed simp
qed

text \<open>C35: Reading past the end never returns. When fewer than \<open>n\<close> bits are left,
  \<open>CdxBitReaderGetBits\<close> empties the reservoir and then loops for ever: the test that would stop
  it is a \<open>CDX_CHECK\<close>, which normal builds leave out.\<close>

theorem bitreader_past_end_hangs:
  assumes "br_at br d p" "8 * length d < p + n"
  shows "CdxBitReaderGetBits sh n br = None"
proof (cases "CdxBitReaderGetBits sh n br")
  case (Some y)
  then have "n \<le> 8 * br_mSize br + br_mNumBitsLeft br"
    using br_get_loop_enough [of sh n 0 br y] assms(1) by (simp add: CdxBitReaderGetBits_def br_at_def)
  then show ?thesis using assms by (auto simp: br_at_def)
qed

theorem bitreader_past_end_hangs_witness:
  "CdxBitReaderGetBits (\<lambda>x k. x) 9 (CdxBitReaderCreate [0xFF]) = None"
  using bitreader_past_end_hangs [OF br_at_created, of "[0xFF]" 9 "\<lambda>x k. x"] by simp

text \<open>\<open>CdxBitReaderSkipBits\<close> moves the cursor by any number of bits that are left.\<close>

theorem bitreader_skip_moves_cursor:
  assumes "br_at br d p" "p + n \<le> 8 * length d" "sh 0 32 = 0"
  shows "\<exists>br'. CdxBitReaderSkipBits sh n br = Some br' \<and> br_at br' d (p + n)"
  using assms
proof (induction n arbitrary: p br rule: less_induct)
  case (less n)
  show ?case
  proof (cases "32 < n")
    case True
    obtain br1 where "CdxBitReaderGetBits sh 32 br = Some (read_bits d p 32, br1)" "br_at br1 d (p + 32)"
      using br_get_loop_at [of br d p 0 32 sh] less.prems True by (auto simp: CdxBitReaderGetBits_def)
    then show ?thesis using less.IH [of "n - 32" br1 "p + 32"] less.prems(2,3) True by simp
  next
    case False
    then show ?thesis
      using br_get_loop_at [of br d p 0 n sh] less.prems by (auto simp: CdxBitReaderGetBits_def)
  qed
qed

theorem bitreader_skip_moves_cursor_witness:
  "\<exists>br'. CdxBitReaderSkipBits (\<lambda>x k. x) 50 (CdxBitReaderCreate (replicate 7 0)) = Some br' \<and>
     br_at br' (replicate 7 0) 50"
  using bitreader_skip_moves_cursor [OF br_at_created, of 50 "replicate 7 0" "\<lambda>x k. x"] by simp

end
