(* ===== verification/Key_Frames.thy ===== *)
theory Key_Frames
  imports Cedar_Prelude
begin

text \<open>
  The key frame detectors of the stream cache (\<open>xplayer/cache.c\<close>): a scan of the frame for the
  start codes of MPEG-1/2, WMV3, H.264 and H.265 with a 32-bit window of the last four bytes.
  Shown is that the window scan finds exactly the start codes that are there, and that it reads
  only bytes of the frame.
\<close>

unbundle bit_operations_syntax

section \<open>The scans\<close>

text \<open>The common loop: shift the next byte into \<open>code\<close>, then \<open>test\<close> the code with the position of the
  next byte; the test may decide the result. \<open>k\<close> counts the iterations left.\<close>

fun code_scan ::
  "(32 word \<Rightarrow> nat \<Rightarrow> bool option exec) \<Rightarrow> 8 word list \<Rightarrow> nat \<Rightarrow> nat \<Rightarrow> 32 word \<Rightarrow> bool exec" where
  "code_scan test d i 0 code = Ok False"
| "code_scan test d i (Suc k) code = ebind (arr_get d (int i)) (\<lambda>b.
     let code' = push_bit 8 code OR ucast b in
     ebind (test code' (Suc i)) (\<lambda>r. case r of
         Some v \<Rightarrow> Ok v
       | None \<Rightarrow> code_scan test d (Suc i) k code'))"

definition mpeg12_test :: "8 word list \<Rightarrow> 32 word \<Rightarrow> nat \<Rightarrow> bool option exec" where
  "mpeg12_test d code i =
     (if code = 0x01b3 \<or> code = 0x01b8 then Ok (Some True)
      else if code = 0x0100 then ebind (arr_get d (int (i + 1))) (\<lambda>b.
        Ok (Some (drop_bit 3 b AND 0x7 = 1)))
      else Ok None)"

definition StreamCacheIsMpeg12KeyFrame :: "8 word list \<Rightarrow> int \<Rightarrow> bool exec" where
  "StreamCacheIsMpeg12KeyFrame d nLength =
     (if nLength < 6 then Ok False
      else code_scan (mpeg12_test d) d 0 (nat (nLength - 5)) 0xffffffff)"

definition StreamCacheIsWMV3KeyFrame :: "8 word list \<Rightarrow> int \<Rightarrow> bool exec" where
  "StreamCacheIsWMV3KeyFrame d nLength =
     (if nLength < 16 then Ok False
      else code_scan (\<lambda>code i. Ok (if code = 0x010f then Some True else None)) d 0
             (nat (nLength - 15)) 0xffffffff)"

definition StreamCacheIsH264KeyFrame :: "8 word list \<Rightarrow> int \<Rightarrow> bool exec" where
  "StreamCacheIsH264KeyFrame d nLength =
     (if nLength < 16 then Ok False
      else code_scan (\<lambda>code i.
               let tmp = code AND 0xffffff1f in
               Ok (if tmp = 0x0107 \<or> tmp = 0x0108 \<or> tmp = 0x0105 then Some True else None)) d 0
             (nat (nLength - 15)) 0xffffffff)"

definition h265_test :: "8 word list \<Rightarrow> 32 word \<Rightarrow> nat \<Rightarrow> bool option exec" where
  "h265_test d code i =
     (if code \<in> {0x0140, 0x0142, 0x0144, 0x0126, 0x0128, 0x012a}
      then ebind (arr_get d (int i)) (\<lambda>b. Ok (if b = 0x01 then Some True else None))
      else Ok None)"

definition StreamCacheIsH265KeyFrame :: "8 word list \<Rightarrow> int \<Rightarrow> bool exec" where
  "StreamCacheIsH265KeyFrame d nLength =
     (if nLength < 16 then Ok False
      else code_scan (h265_test d) d 0 (nat (nLength - 15)) 0xffffffff)"

section \<open>The window\<close>

text \<open>The window after the byte at position \<open>j\<close>; before the fourth byte it still holds ones.\<close>

fun code_at :: "8 word list \<Rightarrow> nat \<Rightarrow> 32 word" where
  "code_at d 0 = 0xffffffff"
| "code_at d (Suc j) = push_bit 8 (code_at d j) OR ucast (d ! j)"

text \<open>A start code that ends with the byte at position \<open>j\<close>: the bytes 0, 0, 1 and \<open>d ! j\<close>.\<close>

definition start_code :: "8 word list \<Rightarrow> nat \<Rightarrow> bool" where
  "start_code d j \<longleftrightarrow> 3 \<le> j \<and> d ! (j - 3) = 0 \<and> d ! (j - 2) = 0 \<and> d ! (j - 1) = 1"

lemma uint_shift_in:
  fixes c :: "32 word" and b :: "8 word"
  shows "uint (push_bit 8 c OR ucast b :: 32 word) = (uint c * 256 + uint b) mod 4294967296"
proof -
  have "push_bit 8 c AND (ucast b :: 32 word) = 0"
    by (rule bit_word_eqI) (auto simp: bit_simps dest: bit_imp_le_length)
  then have "push_bit 8 c OR (ucast b :: 32 word) = push_bit 8 c + ucast b"
    by (simp add: disjunctive_add_eq_or)
  then show ?thesis
    by (simp add: uint_word_ariths unsigned_push_bit_eq take_bit_eq_mod push_bit_eq_mult
        unsigned_ucast_eq mod_simps)
qed

lemma uint_byte: "0 \<le> uint (b :: 8 word)" "uint (b :: 8 word) < 256"
  using unsigned_less [of b] by simp_all

lemma mod_shift_in:
  assumes "0 \<le> b" "b < 256" "0 < m"
  shows "(u * 256 + b) mod (256 * m) = (u mod m) * 256 + (b :: int)"
proof -
  have "(u * 256 + b) mod (256 * m) = 256 * ((u * 256 + b) div 256 mod m) + (u * 256 + b) mod 256"
    using assms(3) by (intro zmod_zmult2_eq) simp
  moreover have "(u * 256 + b) div 256 = u" "(u * 256 + b) mod 256 = b" using assms by auto
  ultimately show ?thesis by simp
qed

text \<open>The low bytes of the window, read one at a time.\<close>

lemma code_at_mod:
  assumes "0 < m" "256 * m dvd 4294967296"
  shows "uint (code_at d (Suc j)) mod (256 * m) = (uint (code_at d j) mod m) * 256 + uint (d ! j)"
proof -
  have "uint (code_at d (Suc j)) mod (256 * m) = (uint (code_at d j) * 256 + uint (d ! j)) mod (256 * m)"
    using assms(2) by (simp add: uint_shift_in mod_mod_cancel)
  then show ?thesis using mod_shift_in [OF uint_byte assms(1)] by simp
qed

lemma shift_in_unique:
  "0 \<le> r \<Longrightarrow> r < 256 \<Longrightarrow> 0 \<le> v \<Longrightarrow> v < 256 \<Longrightarrow>
    q * 256 + r = x * 256 + v \<longleftrightarrow> q = x \<and> r = (v :: int)"
  by (cases q x rule: linorder_cases) auto

lemma code_at_mod_eq:
  assumes "0 < m" "256 * m dvd 4294967296" "0 \<le> v" "v < 256"
  shows "uint (code_at d (Suc j)) mod (256 * m) = x * 256 + v \<longleftrightarrow>
    uint (code_at d j) mod m = x \<and> uint (d ! j) = v"
  unfolding code_at_mod [OF assms(1,2)] by (rule shift_in_unique [OF uint_byte assms(3,4)])

declare code_at.simps [simp del]

lemma code_at_start:
  "uint (code_at d j) mod 16777216 = 1 \<longleftrightarrow> 3 \<le> j \<and> d ! (j - 3) = 0 \<and> d ! (j - 2) = 0 \<and> d ! (j - 1) = 1"
proof (cases "3 \<le> j")
  case True
  then obtain i where j: "j = Suc (Suc (Suc i))" by (metis Suc_le_D numeral_3_eq_3 Suc_le_mono)
  have b: "uint b = 0 \<longleftrightarrow> b = 0" "uint b = 1 \<longleftrightarrow> b = 1" for b :: "8 word"
    by (auto simp: word_uint_eq_iff)
  have "uint (code_at d (Suc i)) mod 256 = 0 \<longleftrightarrow> uint (d ! i) = 0"
    using code_at_mod_eq [of 1 0 d i 0] by simp
  moreover have "uint (code_at d (Suc (Suc i))) mod 65536 = 0 \<longleftrightarrow>
      uint (code_at d (Suc i)) mod 256 = 0 \<and> uint (d ! Suc i) = 0"
    using code_at_mod_eq [of 256 0 d "Suc i" 0] by simp
  moreover have "uint (code_at d (Suc (Suc (Suc i)))) mod 16777216 = 1 \<longleftrightarrow>
      uint (code_at d (Suc (Suc i))) mod 65536 = 0 \<and> uint (d ! Suc (Suc i)) = 1"
    using code_at_mod_eq [of 65536 1 d "Suc (Suc i)" 0] by simp
  ultimately show ?thesis using j b by simp
next
  case False
  then consider "j = 0" | "j = Suc 0" | "j = Suc (Suc 0)" by force
  then have "uint (code_at d j) mod 16777216 \<noteq> 1"
  proof cases
    case 1
    then show ?thesis by (simp add: code_at.simps(1))
  next
    case 2
    then show ?thesis using code_at_mod_eq [of 65536 1 d 0 0] by (simp add: code_at.simps(1))
  next
    case 3
    then show ?thesis using code_at_mod_eq [of 65536 1 d "Suc 0" 0] code_at_mod_eq [of 256 0 d 0 0]
      by (simp add: code_at.simps(1))
  qed
  then show ?thesis using False by simp
qed

text \<open>The window equals the code \<open>0x01xx\<close> exactly after a start code with the byte \<open>xx\<close>.\<close>

lemma shift_in_eq:
  fixes c w :: "32 word"
  assumes "uint w = 256 + v" "0 \<le> v" "v < 256"
  shows "push_bit 8 c OR ucast b = w \<longleftrightarrow> uint c mod 16777216 = 1 \<and> uint (b :: 8 word) = v"
proof -
  have "push_bit 8 c OR ucast b = w \<longleftrightarrow> (uint c * 256 + uint b) mod (256 * 16777216) = 1 * 256 + v"
    using assms(1) by (simp add: word_uint_eq_iff uint_shift_in)
  also have "\<dots> \<longleftrightarrow> uint c mod 16777216 * 256 + uint b = 1 * 256 + v"
    by (subst mod_shift_in) (simp_all add: uint_byte)
  finally show ?thesis using shift_in_unique [OF uint_byte assms(2,3)] by blast
qed

lemma code_at_iff:
  assumes "uint w = 256 + v" "0 \<le> v" "v < 256"
  shows "code_at d (Suc j) = w \<longleftrightarrow> start_code d j \<and> uint (d ! j) = v"
  using shift_in_eq [OF assms] by (simp add: code_at.simps code_at_start start_code_def)

lemma mask_shift_in:
  "(push_bit 8 c OR ucast b) AND NOT (ucast e) = (push_bit 8 c OR ucast (b AND NOT e) :: 32 word)"
  for b e :: "8 word"
  by (rule bit_word_eqI) (auto simp: bit_simps dest: bit_imp_le_length)

lemma code_at_masked:
  assumes "uint w = 256 + v" "0 \<le> v" "v < 256"
  shows "code_at d (Suc j) AND 0xffffff1f = w \<longleftrightarrow> start_code d j \<and> uint (d ! j AND 0x1f) = v"
proof -
  have "(0xffffff1f :: 32 word) = NOT (ucast (0xe0 :: 8 word))" "(0x1f :: 8 word) = NOT 0xe0" by simp_all
  then have "code_at d (Suc j) AND 0xffffff1f = push_bit 8 (code_at d j) OR ucast (d ! j AND 0x1f)"
    by (simp only: code_at.simps mask_shift_in)
  then show ?thesis using shift_in_eq [OF assms] by (simp add: code_at_start start_code_def)
qed

section \<open>The scans find exactly the start codes\<close>

text \<open>The first decision of \<open>t\<close> among the \<open>k\<close> positions from \<open>i\<close> on.\<close>

fun first_hit :: "(nat \<Rightarrow> bool option) \<Rightarrow> nat \<Rightarrow> nat \<Rightarrow> bool option" where
  "first_hit t i 0 = None"
| "first_hit t i (Suc k) = (case t i of Some v \<Rightarrow> Some v | None \<Rightarrow> first_hit t (Suc i) k)"

lemma code_scan_first_hit:
  assumes "i + k \<le> length d"
    "\<And>j. i \<le> j \<Longrightarrow> j < i + k \<Longrightarrow> test (code_at d (Suc j)) (Suc j) = Ok (t j)"
  shows "code_scan test d i k (code_at d i) = Ok (first_hit t i k = Some True)"
  using assms
proof (induction k arbitrary: i)
  case (Suc k)
  have "code_scan test d i (Suc k) (code_at d i) =
      (case t i of Some v \<Rightarrow> Ok v | None \<Rightarrow> code_scan test d (Suc i) k (code_at d (Suc i)))"
    using Suc.prems by (simp add: code_at.simps(2) [symmetric] arr_get_in Let_def del: arr_get_Ok)
  moreover have "code_scan test d (Suc i) k (code_at d (Suc i)) = Ok (first_hit t (Suc i) k = Some True)"
    by (rule Suc.IH) (use Suc.prems in auto)
  ultimately show ?case by (auto split: option.splits)
qed simp

lemma ex_from_Suc:
  "(\<exists>j. i \<le> j \<and> j < i + Suc k \<and> P j) \<longleftrightarrow> P i \<or> (\<exists>j. Suc i \<le> j \<and> j < Suc i + k \<and> P j)"
proof -
  have "i \<le> j \<longleftrightarrow> j = i \<or> Suc i \<le> j" for j by auto
  then show ?thesis by auto
qed

lemma all_from_Suc: "Suc i \<le> j \<Longrightarrow> (\<forall>m. i \<le> m \<and> m < j \<longrightarrow> P m) \<longleftrightarrow> P i \<and> (\<forall>m. Suc i \<le> m \<and> m < j \<longrightarrow> P m)"
proof -
  assume "Suc i \<le> j"
  moreover have "i \<le> m \<longleftrightarrow> m = i \<or> Suc i \<le> m" for m by auto
  ultimately show ?thesis by auto
qed

lemma first_hit_True:
  "first_hit t i k = Some True \<longleftrightarrow>
    (\<exists>j. i \<le> j \<and> j < i + k \<and> t j = Some True \<and> (\<forall>m. i \<le> m \<and> m < j \<longrightarrow> t m = None))"
proof (induction k arbitrary: i)
  case (Suc k)
  have "(\<exists>j. Suc i \<le> j \<and> j < Suc i + k \<and> t j = Some True \<and> (\<forall>m. i \<le> m \<and> m < j \<longrightarrow> t m = None)) \<longleftrightarrow>
      t i = None \<and> first_hit t (Suc i) k = Some True"
    unfolding Suc.IH by (auto simp: all_from_Suc cong: conj_cong)
  then show ?case by (subst ex_from_Suc) (auto split: option.splits)
qed simp

text \<open>A test that only ever says yes.\<close>

lemma first_hit_yes:
  assumes "\<And>j. t j \<noteq> Some False"
  shows "first_hit t i k = Some True \<longleftrightarrow> (\<exists>j. i \<le> j \<and> j < i + k \<and> t j = Some True)"
proof (induction k arbitrary: i)
  case (Suc k)
  have "t i = None \<or> t i = Some True" using assms [of i] by (cases "t i") auto
  then show ?case by (subst ex_from_Suc) (auto simp: Suc.IH)
qed simp

lemma code_scan_from_start:
  assumes "k \<le> length d" "\<And>j. j < k \<Longrightarrow> test (code_at d (Suc j)) (Suc j) = Ok (t j)"
  shows "code_scan test d 0 k 0xffffffff = Ok (first_hit t 0 k = Some True)"
  using code_scan_first_hit [of 0 k d test t] assms by (simp add: code_at.simps(1))

lemma byte_iff: "uint (b :: 8 word) = uint c \<longleftrightarrow> b = c"
  by (simp add: word_uint_eq_iff)

lemma code_at_byte:
  "uint w = 256 + uint c \<Longrightarrow> code_at d (Suc j) = w \<longleftrightarrow> start_code d j \<and> d ! j = c"
  using code_at_iff [of w "uint c" d j] uint_byte [of c] by (simp add: byte_iff)

lemma code_at_masked_byte:
  "uint w = 256 + uint c \<Longrightarrow> code_at d (Suc j) AND 0xffffff1f = w \<longleftrightarrow> start_code d j \<and> d ! j AND 0x1f = c"
  using code_at_masked [of w "uint c" d j] uint_byte [of c] by (simp add: byte_iff)

text \<open>The scan with a test that says yes exactly after the codes \<open>P\<close>.\<close>

lemma code_scan_yes:
  assumes "n \<le> length d"
    "\<And>j. j + Suc m \<le> n \<Longrightarrow> test (code_at d (Suc j)) (Suc j) = Ok (if P j then Some True else None)"
  shows "code_scan test d 0 (n - m) 0xffffffff = Ok (\<exists>j. j + Suc m \<le> n \<and> P j)"
proof -
  let ?t = "\<lambda>j. if P j then Some True else None"
  have "code_scan test d 0 (n - m) 0xffffffff = Ok (first_hit ?t 0 (n - m) = Some True)"
    by (rule code_scan_from_start) (use assms in auto)
  also have "first_hit ?t 0 (n - m) = Some True \<longleftrightarrow> (\<exists>j. 0 \<le> j \<and> j < 0 + (n - m) \<and> ?t j = Some True)"
    by (rule first_hit_yes) simp
  also have "\<dots> \<longleftrightarrow> (\<exists>j. j + Suc m \<le> n \<and> P j)"
    by (simp add: less_diff_conv Suc_le_eq cong: conj_cong) (meson option.distinct(1))
  finally show ?thesis .
qed

lemma wmv3_scan:
  assumes "n \<le> length d"
  shows "StreamCacheIsWMV3KeyFrame d (int n) = Ok (\<exists>j. j + 16 \<le> n \<and> start_code d j \<and> d ! j = 0x0f)"
  using code_scan_yes [OF assms, of 15 "\<lambda>code i. Ok (if code = 0x010f then Some True else None)"
      "\<lambda>j. start_code d j \<and> d ! j = 0x0f"]
  by (auto simp: StreamCacheIsWMV3KeyFrame_def code_at_byte [of "0x010f" "0x0f"] nat_diff_distrib)

lemma h264_scan:
  assumes "n \<le> length d"
  shows "StreamCacheIsH264KeyFrame d (int n) =
    Ok (\<exists>j. j + 16 \<le> n \<and> start_code d j \<and> d ! j AND 0x1f \<in> {5, 7, 8})"
proof -
  let ?test = "\<lambda>code i. let tmp = code AND 0xffffff1f in
    Ok (if tmp = 0x0107 \<or> tmp = 0x0108 \<or> tmp = 0x0105 then Some True else None)"
  have "?test (code_at d (Suc j)) (Suc j) =
      Ok (if start_code d j \<and> d ! j AND 0x1f \<in> {5, 7, 8} then Some True else None)" for j
    unfolding Let_def code_at_masked_byte [of "0x0107" 7, simplified]
      code_at_masked_byte [of "0x0108" 8, simplified] code_at_masked_byte [of "0x0105" 5, simplified]
    by auto
  then show ?thesis
    using code_scan_yes [OF assms, of 15 ?test "\<lambda>j. start_code d j \<and> d ! j AND 0x1f \<in> {5, 7, 8}"]
    by (auto simp: StreamCacheIsH264KeyFrame_def nat_diff_distrib)
qed

lemma h265_scan:
  assumes "n \<le> length d"
  shows "StreamCacheIsH265KeyFrame d (int n) =
    Ok (\<exists>j. j + 16 \<le> n \<and> start_code d j \<and> d ! j \<in> {0x40, 0x42, 0x44, 0x26, 0x28, 0x2a} \<and> d ! (j + 1) = 1)"
proof -
  have c: "code_at d (Suc j) \<in> {0x0140, 0x0142, 0x0144, 0x0126, 0x0128, 0x012a} \<longleftrightarrow>
      start_code d j \<and> d ! j \<in> {0x40, 0x42, 0x44, 0x26, 0x28, 0x2a}" for j
    unfolding insert_iff code_at_byte [of "0x0140" "0x40", simplified] code_at_byte [of "0x0142" "0x42", simplified]
      code_at_byte [of "0x0144" "0x44", simplified] code_at_byte [of "0x0126" "0x26", simplified]
      code_at_byte [of "0x0128" "0x28", simplified] code_at_byte [of "0x012a" "0x2a", simplified]
    by auto
  have "h265_test d (code_at d (Suc j)) (Suc j) =
      Ok (if start_code d j \<and> d ! j \<in> {0x40, 0x42, 0x44, 0x26, 0x28, 0x2a} \<and> d ! (j + 1) = 1
          then Some True else None)" if "j + 16 \<le> n" for j
    unfolding h265_test_def c using that assms by (auto simp: arr_get_def nat_add_distrib)
  then show ?thesis
    using code_scan_yes [OF assms, of 15 "h265_test d"
        "\<lambda>j. start_code d j \<and> d ! j \<in> {0x40, 0x42, 0x44, 0x26, 0x28, 0x2a} \<and> d ! (j + 1) = 1"]
    by (auto simp: StreamCacheIsH265KeyFrame_def nat_diff_distrib)
qed

text \<open>The codes at which the MPEG scan decides.\<close>

definition mpeg12_code :: "8 word list \<Rightarrow> nat \<Rightarrow> bool" where
  "mpeg12_code d j \<longleftrightarrow> start_code d j \<and> d ! j \<in> {0xb3, 0xb8, 0x00}"

lemma mpeg12_scan:
  assumes "n \<le> length d"
  shows "StreamCacheIsMpeg12KeyFrame d (int n) =
    Ok (\<exists>j. j + 6 \<le> n \<and> mpeg12_code d j \<and> (\<forall>i < j. \<not> mpeg12_code d i) \<and>
         (d ! j = 0 \<longrightarrow> drop_bit 3 (d ! (j + 2)) AND 7 = 1))"
proof -
  define t where "t j = (if mpeg12_code d j then Some (d ! j = 0 \<longrightarrow> drop_bit 3 (d ! (j + 2)) AND 7 = 1) else None)" for j
  have b: "start_code d j \<and> d ! j = 0xb3 \<longrightarrow> d ! j \<noteq> 0" "start_code d j \<and> d ! j = 0xb8 \<longrightarrow> d ! j \<noteq> 0" for j
    by auto
  have "mpeg12_test d (code_at d (Suc j)) (Suc j) = Ok (t j)" if "j < n - 5" for j
    unfolding mpeg12_test_def code_at_byte [of "0x01b3" "0xb3", simplified]
      code_at_byte [of "0x01b8" "0xb8", simplified] code_at_byte [of "0x0100" 0, simplified]
    using that assms by (auto simp: t_def mpeg12_code_def arr_get_def nat_add_distrib)
  then have "code_scan (mpeg12_test d) d 0 (n - 5) 0xffffffff = Ok (first_hit t 0 (n - 5) = Some True)"
    by (intro code_scan_from_start) (use assms in auto)
  moreover have "0 \<le> j \<and> j < 0 + (n - 5) \<and> t j = Some True \<and> (\<forall>m. 0 \<le> m \<and> m < j \<longrightarrow> t m = None) \<longleftrightarrow>
      j + 6 \<le> n \<and> mpeg12_code d j \<and> (\<forall>i < j. \<not> mpeg12_code d i) \<and>
         (d ! j = 0 \<longrightarrow> drop_bit 3 (d ! (j + 2)) AND 7 = 1)" for j
    by (auto simp: t_def split: if_splits)
  ultimately show ?thesis
    unfolding first_hit_True by (auto simp: StreamCacheIsMpeg12KeyFrame_def nat_diff_distrib)
qed

section \<open>Properties\<close>

text \<open>C21: The key frame detectors are exact. For a frame of \<open>n\<close> bytes the scan with the 32-bit
  window answers whether the frame has one of the start codes of its codec, far enough from the end
  (6 bytes for MPEG, 16 for the others), and it reads no byte outside the frame: for H.264 a
  sequence or picture parameter set or an IDR slice, for H.265 a parameter set or a random access
  picture followed by the byte 1, for WMV3 a sequence header. For MPEG-1/2 the first sequence,
  group or picture header decides; a picture header must announce an intra picture.\<close>

theorem key_frame_scans_exact:
  assumes "n \<le> length d"
  shows "StreamCacheIsH264KeyFrame d (int n) =
      Ok (\<exists>j. j + 16 \<le> n \<and> start_code d j \<and> d ! j AND 0x1f \<in> {5, 7, 8}) \<and>
    StreamCacheIsH265KeyFrame d (int n) =
      Ok (\<exists>j. j + 16 \<le> n \<and> start_code d j \<and> d ! j \<in> {0x40, 0x42, 0x44, 0x26, 0x28, 0x2a} \<and> d ! (j + 1) = 1) \<and>
    StreamCacheIsWMV3KeyFrame d (int n) =
      Ok (\<exists>j. j + 16 \<le> n \<and> start_code d j \<and> d ! j = 0x0f) \<and>
    StreamCacheIsMpeg12KeyFrame d (int n) =
      Ok (\<exists>j. j + 6 \<le> n \<and> mpeg12_code d j \<and> (\<forall>i < j. \<not> mpeg12_code d i) \<and>
           (d ! j = 0 \<longrightarrow> drop_bit 3 (d ! (j + 2)) AND 7 = 1))"
  using h264_scan [OF assms] h265_scan [OF assms] wmv3_scan [OF assms] mpeg12_scan [OF assms] by blast

theorem key_frame_scans_exact_witness:
  "StreamCacheIsH264KeyFrame ([9, 0, 0, 1, 0x65] @ replicate 20 0) 25 = Ok True \<and>
   StreamCacheIsWMV3KeyFrame ([9, 0, 0, 1, 0x65] @ replicate 20 0) 25 \<noteq> Ok True"
proof -
  let ?d = "[9, 0, 0, 1, 0x65] @ replicate 20 0 :: 8 word list"
  have "start_code ?d 4 \<and> ?d ! 4 AND 0x1f = 5" by (simp add: start_code_def)
  then have "\<exists>j. j + 16 \<le> 25 \<and> start_code ?d j \<and> ?d ! j AND 0x1f \<in> {5, 7, 8}"
    by (intro exI [of _ 4]) auto
  moreover have "?d ! j \<noteq> 0x0f" if "j + 16 \<le> 25" for j
    using nth_mem [of j ?d] that by auto
  ultimately show ?thesis using key_frame_scans_exact [of 25 ?d] by auto
qed

end
