(* ===== verification/Stream_Cache.thy ===== *)
theory Stream_Cache
  imports Key_Frames Linked_Queue Frame_Fifo Mem_Trace
begin

text \<open>
  The cache between the demuxer and the decoders for network streams, \<open>xplayer/cache.c\<close>: one
  linked list of frames, of which the first part was already played (passed) and is kept so that
  a seek can go back to it. The nodes live in a heap, a map from addresses to nodes; a pointer
  is an address, \<open>None\<close> for \<open>NULL\<close>. \<open>cn_data\<close> are the bytes of the block \<open>pData\<close> points to,
  \<open>cn_info\<close> the address of the extra information with the addresses of its parts. Calls return
  the blocks other than nodes they freed. \<open>getSeekOffset\<close>, which computes with \<open>double\<close> and asks
  the player, is a parameter of \<open>StreamCacheSeekTo\<close>.
\<close>

unbundle bit_operations_syntax

section \<open>Data\<close>

record CacheNode =
  cn_pData :: addr
  cn_data :: "8 word list"
  cn_nLength :: int
  cn_nPts :: int
  cn_nPcr :: int
  cn_eMediaType :: int
  cn_nFlags :: int
  cn_info :: "(addr \<times> addr list) option"
  cn_pNext :: "nat option"

text \<open>\<open>sc_heap\<close> holds the nodes that were allocated and not freed. \<open>sc_nStartFrames\<close> is the static
  variable \<open>START_PLAY_CACHE_VIDEO_FRAME_NUM\<close>.\<close>

record StreamCache =
  sc_nMaxBufferSize :: int
  sc_nStartPlaySize :: int
  sc_nDataSize :: int
  sc_nFrameNum :: int
  sc_nVideoFrameNum :: int
  sc_pHead :: "nat option"
  sc_pTail :: "nat option"
  sc_nPassedDataSize :: int
  sc_nPassedFrameNum :: int
  sc_nPassedVideoFrameNum :: int
  sc_pPassedHead :: "nat option"
  sc_nLastValidPts :: int
  sc_pNodeWithLastValidPts :: "nat option"
  sc_nLastValidPcr :: int
  sc_pNodeWithLastValidPcr :: "nat option"
  sc_nFirstPts :: int
  sc_eContainerFormat :: int
  sc_eVideoCodecFormat :: int
  sc_nBitrate :: int
  sc_heap :: "nat \<rightharpoonup> CacheNode"
  sc_nStartFrames :: int

abbreviation (input) CDX_MEDIA_VIDEO :: int where "CDX_MEDIA_VIDEO \<equiv> 0"
abbreviation (input) CDX_MEDIA_AUDIO :: int where "CDX_MEDIA_AUDIO \<equiv> 1"
abbreviation (input) CDX_PARSER_TS :: int where "CDX_PARSER_TS \<equiv> 3"
abbreviation (input) CDX_PARSER_HLS :: int where "CDX_PARSER_HLS \<equiv> 7"
abbreviation (input) CDX_PARSER_BD :: int where "CDX_PARSER_BD \<equiv> 10"
abbreviation (input) VIDEO_CODEC_FORMAT_UNKNOWN :: int where "VIDEO_CODEC_FORMAT_UNKNOWN \<equiv> 0"
abbreviation (input) KEY_FRAME :: int where "KEY_FRAME \<equiv> 8"

definition StreamCacheCreate :: "bool \<Rightarrow> int \<Rightarrow> StreamCache option" where
  "StreamCacheCreate okMalloc startFrames =
     (if \<not> okMalloc then None
      else Some \<lparr>sc_nMaxBufferSize = 10 * 1024 * 1024, sc_nStartPlaySize = 1024, sc_nDataSize = 0,
        sc_nFrameNum = 0, sc_nVideoFrameNum = 0, sc_pHead = None, sc_pTail = None,
        sc_nPassedDataSize = 0, sc_nPassedFrameNum = 0, sc_nPassedVideoFrameNum = 0,
        sc_pPassedHead = None, sc_nLastValidPts = -1, sc_pNodeWithLastValidPts = None,
        sc_nLastValidPcr = -1, sc_pNodeWithLastValidPcr = None, sc_nFirstPts = -1,
        sc_eContainerFormat = -1, sc_eVideoCodecFormat = VIDEO_CODEC_FORMAT_UNKNOWN,
        sc_nBitrate = 0, sc_heap = Map.empty, sc_nStartFrames = startFrames\<rparr>)"

section \<open>Release of nodes\<close>

definition NodeInfoDestroy :: "CacheNode \<Rightarrow> addr mem_event list" where
  "NodeInfoDestroy n = (case cn_info n of
       None \<Rightarrow> []
     | Some (p, parts) \<Rightarrow>
         (if cn_eMediaType n = CDX_MEDIA_VIDEO \<or> cn_eMediaType n = CDX_MEDIA_AUDIO
          then concat (map c_free parts) else []) @ [Free p])"

definition sc_free_node :: "CacheNode \<Rightarrow> addr mem_event list" where
  "sc_free_node n = c_free (cn_pData n) @ NodeInfoDestroy n"

text \<open>The loop of \<open>StreamCacheDestroy\<close> and \<open>StreamCacheFlushAll\<close>: the whole list is freed. \<open>None\<close>:
  the loop reads a node that is not there.\<close>

partial_function (option) sc_free_all ::
  "StreamCache \<Rightarrow> addr mem_event list \<Rightarrow> (StreamCache \<times> addr mem_event list) option" where
  "sc_free_all c es =
     (case sc_pPassedHead c of
        None \<Rightarrow> Some (c, es)
      | Some a \<Rightarrow> (case sc_heap c a of
          None \<Rightarrow> None
        | Some n \<Rightarrow> sc_free_all
            (c\<lparr>sc_pPassedHead := cn_pNext n, sc_heap := (sc_heap c)(a := None)\<rparr>) (es @ sc_free_node n)))"

definition StreamCacheDestroy :: "StreamCache \<Rightarrow> (StreamCache \<times> addr mem_event list) exec" where
  "StreamCacheDestroy c = (case sc_free_all c [] of None \<Rightarrow> Fault | Some r \<Rightarrow> Ok r)"

definition StreamCacheFlushAll :: "StreamCache \<Rightarrow> (StreamCache \<times> addr mem_event list) exec" where
  "StreamCacheFlushAll c = (case sc_free_all c [] of
       None \<Rightarrow> Fault
     | Some (c1, es) \<Rightarrow>
         Ok (c1\<lparr>sc_nDataSize := 0, sc_nFrameNum := 0, sc_nVideoFrameNum := 0,
                sc_pHead := None, sc_pTail := None, sc_nPassedDataSize := 0,
                sc_nPassedFrameNum := 0, sc_nPassedVideoFrameNum := 0,
                sc_nLastValidPts := -1, sc_pNodeWithLastValidPts := None,
                sc_nLastValidPcr := -1, sc_pNodeWithLastValidPcr := None\<rparr>, es))"

section \<open>Sizes and queries\<close>

text \<open>The macros \<open>MIN_PASSED_DATA_KEPT_RATIO\<close> and \<open>MIN_PASSED_DATA_KEPT_SIZE\<close>.\<close>

definition kept_size :: "int \<Rightarrow> int" where
  "kept_size nMaxBufferSize = c_div (i32 (nMaxBufferSize * 3)) 10"

definition StreamCacheSetSize :: "int \<Rightarrow> StreamCache \<Rightarrow> int \<Rightarrow> int \<Rightarrow> StreamCache" where
  "StreamCacheSetSize config c nStartPlaySize nMaxBufferSize =
     (let n = kept_size nMaxBufferSize;
          eight = c_div (i32 (nMaxBufferSize * 8)) 10
      in if n \<le> 0 then c
         else
           (let start = (if eight < i32 (nStartPlaySize + n) then i32 (eight - n) else nStartPlaySize);
                c1 = c\<lparr>sc_nMaxBufferSize := nMaxBufferSize, sc_nStartPlaySize := start\<rparr>
            in if sc_nStartFrames c < 0 then c1\<lparr>sc_nStartFrames := config\<rparr> else c1))"

definition StreamCacheGetSize :: "StreamCache \<Rightarrow> int" where
  "StreamCacheGetSize c = sc_nDataSize c"

definition StreamCacheUnderflow :: "StreamCache \<Rightarrow> bool" where
  "StreamCacheUnderflow c \<longleftrightarrow> sc_nFrameNum c \<le> 0"

definition StreamCacheOverflow :: "StreamCache \<Rightarrow> bool" where
  "StreamCacheOverflow c \<longleftrightarrow>
     sc_nMaxBufferSize c \<le> i32 (sc_nDataSize c + sc_nPassedDataSize c) \<and>
     sc_nPassedDataSize c \<le> kept_size (sc_nMaxBufferSize c)"

definition StreamCacheDataEnough :: "StreamCache \<Rightarrow> bool" where
  "StreamCacheDataEnough c \<longleftrightarrow>
     (if sc_eVideoCodecFormat c \<noteq> VIDEO_CODEC_FORMAT_UNKNOWN
      then sc_nStartPlaySize c \<le> sc_nDataSize c \<and> sc_nStartFrames c \<le> sc_nVideoFrameNum c
      else sc_nStartPlaySize c \<le> sc_nDataSize c \<and> 0 < sc_nFrameNum c)"

definition StreamCacheNextFrame :: "StreamCache \<Rightarrow> nat option" where
  "StreamCacheNextFrame c = sc_pHead c"

definition StreamCacheGetBufferFullness :: "StreamCache \<Rightarrow> int" where
  "StreamCacheGetBufferFullness c = c_div (sc_nDataSize c * 100) (sc_nMaxBufferSize c)"

definition StreamCacheGetLoadingProgress :: "StreamCache \<Rightarrow> int" where
  "StreamCacheGetLoadingProgress c =
     (if sc_nStartPlaySize c \<le> sc_nDataSize c then 100
      else c_div (sc_nDataSize c * 100) (sc_nStartPlaySize c))"

definition StreamCacheSetMediaFormat :: "StreamCache \<Rightarrow> int \<Rightarrow> int \<Rightarrow> int \<Rightarrow> StreamCache" where
  "StreamCacheSetMediaFormat c eContainerFormat eVideoCodecFormat nBitrate =
     c\<lparr>sc_eContainerFormat := eContainerFormat, sc_eVideoCodecFormat := eVideoCodecFormat,
       sc_nBitrate := nBitrate\<rparr>"

section \<open>The frames\<close>

definition StreamCacheFlushOneFrame :: "StreamCache \<Rightarrow> StreamCache exec" where
  "StreamCacheFlushOneFrame c = (case sc_pHead c of
       None \<Rightarrow> Ok c
     | Some a \<Rightarrow> (case sc_heap c a of
         None \<Rightarrow> Fault
       | Some n \<Rightarrow>
           (let c1 = c\<lparr>sc_pHead := cn_pNext n, sc_nFrameNum := i32 (sc_nFrameNum c - 1),
                       sc_nDataSize := i32 (sc_nDataSize c - cn_nLength n),
                       sc_nPassedDataSize := i32 (sc_nPassedDataSize c + cn_nLength n),
                       sc_nPassedFrameNum := i32 (sc_nPassedFrameNum c + 1)\<rparr>
            in if cn_eMediaType n = CDX_MEDIA_VIDEO
               then Ok (c1\<lparr>sc_nVideoFrameNum := i32 (sc_nVideoFrameNum c - 1),
                           sc_nPassedVideoFrameNum := i32 (sc_nPassedVideoFrameNum c + 1)\<rparr>)
               else Ok c1)))"

definition StreamCacheFlushPassedList :: "StreamCache \<Rightarrow> (StreamCache \<times> addr mem_event list) exec" where
  "StreamCacheFlushPassedList c =
     (let node = sc_pPassedHead c in
      if node = sc_pHead c \<or> node = sc_pTail c \<or> node = None then Ok (c, [])
      else (case sc_heap c (the node) of
          None \<Rightarrow> Fault
        | Some n \<Rightarrow>
            (let c1 = c\<lparr>sc_pPassedHead := cn_pNext n,
                        sc_nPassedFrameNum := i32 (sc_nPassedFrameNum c - 1),
                        sc_nPassedDataSize := i32 (sc_nPassedDataSize c - cn_nLength n)\<rparr>;
                 c2 = (if node = sc_pNodeWithLastValidPts c
                       then c1\<lparr>sc_nLastValidPts := -1, sc_pNodeWithLastValidPts := None\<rparr> else c1);
                 c3 = (if node = sc_pNodeWithLastValidPcr c
                       then c2\<lparr>sc_nLastValidPcr := -1, sc_pNodeWithLastValidPcr := None\<rparr> else c2)
             in Ok (c3\<lparr>sc_heap := (sc_heap c)(the node := None)\<rparr>, sc_free_node n))))"

text \<open>The loop that makes room in \<open>StreamCacheAddOneFrame\<close>. \<open>None\<close>: it does not end.\<close>

partial_function (option) sc_make_room ::
  "StreamCache \<Rightarrow> addr mem_event list \<Rightarrow> (StreamCache \<times> addr mem_event list) exec option" where
  "sc_make_room c es =
     (if sc_nMaxBufferSize c \<le> i32 (sc_nDataSize c + sc_nPassedDataSize c) \<and>
         kept_size (sc_nMaxBufferSize c) < sc_nPassedDataSize c
      then (case StreamCacheFlushPassedList c of
              Ok (c1, fs) \<Rightarrow> sc_make_room c1 (es @ fs)
            | Abort \<Rightarrow> Some Abort
            | Fault \<Rightarrow> Some Fault)
      else Some (Ok (c, es)))"

text \<open>The new node at the end of the list.\<close>

definition sc_link :: "StreamCache \<Rightarrow> nat \<Rightarrow> StreamCache exec" where
  "sc_link c a = (case sc_pTail c of
       Some t \<Rightarrow> (case sc_heap c t of
           None \<Rightarrow> Fault
         | Some n \<Rightarrow>
             Ok (c\<lparr>sc_heap := (sc_heap c)(t \<mapsto> n\<lparr>cn_pNext := Some a\<rparr>), sc_pTail := Some a,
                   sc_pHead := (if sc_pHead c = None then Some a else sc_pHead c)\<rparr>))
     | None \<Rightarrow> Ok (c\<lparr>sc_pPassedHead := Some a, sc_pHead := Some a, sc_pTail := Some a\<rparr>))"

definition sc_store_node :: "StreamCache \<Rightarrow> nat \<Rightarrow> CacheNode \<Rightarrow> StreamCache" where
  "sc_store_node c a node =
     (let c1 = c\<lparr>sc_heap := (sc_heap c)(a \<mapsto> node\<lparr>cn_pNext := None\<rparr>)\<rparr>;
          c2 = (if cn_nPts node \<noteq> -1
                then c1\<lparr>sc_nLastValidPts := cn_nPts node, sc_pNodeWithLastValidPts := Some a,
                        sc_nFirstPts := (if sc_nFirstPts c = -1 then cn_nPts node else sc_nFirstPts c)\<rparr>
                else c1)
      in if cn_nPcr node \<noteq> -1
         then c2\<lparr>sc_nLastValidPcr := cn_nPcr node, sc_pNodeWithLastValidPcr := Some a\<rparr> else c2)"

text \<open>\<open>a\<close> is the result of \<open>malloc\<close>. \<open>None\<close>: the call does not return.\<close>

definition StreamCacheAddOneFrame ::
  "StreamCache \<Rightarrow> CacheNode \<Rightarrow> nat option \<Rightarrow> (int \<times> StreamCache \<times> addr mem_event list) exec option" where
  "StreamCacheAddOneFrame c node a = (case a of
       None \<Rightarrow> Some (Ok (-1, c, []))
     | Some a \<Rightarrow> (case sc_make_room (sc_store_node c a node) [] of
         None \<Rightarrow> None
       | Some r \<Rightarrow> Some (ebind r (\<lambda>(c1, es). ebind (sc_link c1 a) (\<lambda>c2.
           let c3 = c2\<lparr>sc_nDataSize := i32 (sc_nDataSize c2 + cn_nLength node),
                       sc_nFrameNum := i32 (sc_nFrameNum c2 + 1)\<rparr>
           in Ok (0, if cn_eMediaType node = CDX_MEDIA_VIDEO
                     then c3\<lparr>sc_nVideoFrameNum := i32 (sc_nVideoFrameNum c3 + 1)\<rparr> else c3, es))))))"

section \<open>Seeking\<close>

text \<open>The loop \<open>for (pNode = p; pNode != stop; pNode = pNode->pNext)\<close>: the body goes on with a new
  state or leaves the loop with a result. \<open>None\<close>: a node is read that is not there, or the loop
  does not end.\<close>

partial_function (option) node_loop ::
  "(nat \<rightharpoonup> CacheNode) \<Rightarrow> nat option \<Rightarrow> ('s \<Rightarrow> nat \<Rightarrow> CacheNode \<Rightarrow> ('s + 'r) exec) \<Rightarrow> nat option \<Rightarrow> 's
     \<Rightarrow> ('s + 'r) option" where
  "node_loop h stop body p s =
     (if p = stop then Some (Inl s)
      else (case p of
          None \<Rightarrow> None
        | Some a \<Rightarrow> (case h a of
            None \<Rightarrow> None
          | Some n \<Rightarrow> (case body s a n of
              Ok r \<Rightarrow> (case r of Inl s' \<Rightarrow> node_loop h stop body (cn_pNext n) s' | Inr v \<Rightarrow> Some (Inr v))
            | Abort \<Rightarrow> None
            | Fault \<Rightarrow> None))))"

definition loop_exec :: "'a option \<Rightarrow> 'a exec" where
  "loop_exec r = (case r of None \<Rightarrow> Fault | Some v \<Rightarrow> Ok v)"

definition StreamCacheIsKeyFrame :: "StreamCache \<Rightarrow> CacheNode \<Rightarrow> bool exec" where
  "StreamCacheIsKeyFrame c n =
     (if sc_eVideoCodecFormat c = VIDEO_CODEC_FORMAT_UNKNOWN then Ok (cn_eMediaType n = CDX_MEDIA_AUDIO)
      else if sc_eContainerFormat c \<in> {CDX_PARSER_TS, CDX_PARSER_BD, CDX_PARSER_HLS} then
        (if sc_eVideoCodecFormat c = 0x115 then StreamCacheIsH264KeyFrame (cn_data n) (cn_nLength n)
         else if sc_eVideoCodecFormat c = 0x102 \<or> sc_eVideoCodecFormat c = 0x103
           then StreamCacheIsMpeg12KeyFrame (cn_data n) (cn_nLength n)
         else if sc_eVideoCodecFormat c = 0x110 then StreamCacheIsWMV3KeyFrame (cn_data n) (cn_nLength n)
         else if sc_eVideoCodecFormat c = 0x116 then StreamCacheIsH265KeyFrame (cn_data n) (cn_nLength n)
         else Ok False)
      else Ok (cn_nFlags n AND KEY_FRAME \<noteq> 0 \<and> cn_eMediaType n = CDX_MEDIA_VIDEO))"

definition adjustList :: "StreamCache \<Rightarrow> nat option \<Rightarrow> StreamCache exec" where
  "adjustList c pNodeFound =
     ebind (loop_exec (node_loop (sc_heap c) pNodeFound
       (\<lambda>(size, num, video) a n. Ok (Inl (i32 (size + cn_nLength n), i32 (num + 1),
          if cn_eMediaType n = CDX_MEDIA_VIDEO then i32 (video + 1) else video) :: (int \<times> int \<times> int) + unit))
       (sc_pPassedHead c) (0, 0, 0))) (\<lambda>r. case r of
         Inr _ \<Rightarrow> Fault
       | Inl (nPassedDataSize, nPassedFrameNum, nPassedVideoFrameNum) \<Rightarrow>
           Ok (c\<lparr>sc_pHead := pNodeFound,
                 sc_nDataSize := i32 (sc_nPassedDataSize c + sc_nDataSize c - nPassedDataSize),
                 sc_nFrameNum := i32 (sc_nPassedFrameNum c + sc_nFrameNum c - nPassedFrameNum),
                 sc_nVideoFrameNum :=
                   i32 (sc_nPassedVideoFrameNum c + sc_nVideoFrameNum c - nPassedVideoFrameNum),
                 sc_nPassedDataSize := nPassedDataSize, sc_nPassedFrameNum := nPassedFrameNum,
                 sc_nPassedVideoFrameNum := nPassedVideoFrameNum\<rparr>))"

text \<open>The two loops of \<open>StreamCacheSeekByPts\<close>. The first finds the first key frame with a time
  stamp, unless a frame is later than the target; the second the last key frame before and the first
  after the target.\<close>

definition pts_first ::
  "StreamCache \<Rightarrow> int \<Rightarrow> unit \<Rightarrow> nat \<Rightarrow> CacheNode \<Rightarrow> (unit + nat option) exec" where
  "pts_first c t = (\<lambda>_ a n.
     if cn_nPts n = -1 then Ok (Inl ())
     else if t < cn_nPts n then Ok (Inr None)
     else ebind (StreamCacheIsKeyFrame c n) (\<lambda>k. Ok (if k then Inr (Some a) else Inl ())))"

definition pts_nearest ::
  "StreamCache \<Rightarrow> int \<Rightarrow> int \<times> nat option \<Rightarrow> nat \<Rightarrow> CacheNode
     \<Rightarrow> ((int \<times> nat option) + (int \<times> nat option) \<times> int \<times> nat) exec" where
  "pts_nearest c t = (\<lambda>s a n.
     if cn_nPts n = -1 then Ok (Inl s)
     else ebind (StreamCacheIsKeyFrame c n) (\<lambda>k.
       Ok (if \<not> k then Inl s
           else if cn_nPts n \<le> t \<and> fst s < cn_nPts n then Inl (cn_nPts n, Some a)
           else if t < cn_nPts n then Inr (s, cn_nPts n, a)
           else Inl s)))"

definition StreamCacheSeekByPts :: "StreamCache \<Rightarrow> int \<Rightarrow> (int \<times> StreamCache) exec" where
  "StreamCacheSeekByPts c nSeekTimeUs =
     (if sc_nLastValidPts c < nSeekTimeUs then Ok (-1, c)
      else ebind (loop_exec (node_loop (sc_heap c) None (pts_first c nSeekTimeUs) (sc_pPassedHead c) ()))
        (\<lambda>r. case r of
           Inl _ \<Rightarrow> Ok (-1, c)
         | Inr None \<Rightarrow> Ok (-1, c)
         | Inr (Some a) \<Rightarrow>
             ebind (loop_exec (node_loop (sc_heap c) None (pts_nearest c nSeekTimeUs) (Some a) (-1, None))) (\<lambda>q.
             case (case q of Inl s \<Rightarrow> (s, 0x7fffffffffffffff, None) | Inr (s, after, b) \<Rightarrow> (s, after, Some b)) of
               ((nLastPtsBefore, pLastNodeBefore), nFirstPtsAfter, pFirstNodeAfter) \<Rightarrow>
                 if pFirstNodeAfter = None \<and> 1000000 \<le> nSeekTimeUs - nLastPtsBefore then Ok (-1, c)
                 else ebind (adjustList c
                     (if nSeekTimeUs - nLastPtsBefore \<le> nFirstPtsAfter - nSeekTimeUs
                      then pLastNodeBefore else pFirstNodeAfter)) (\<lambda>c1.
                   case sc_pHead c1 of
                     None \<Rightarrow> Fault
                   | Some b \<Rightarrow> (case sc_heap c1 b of None \<Rightarrow> Fault | Some n \<Rightarrow> Ok (cn_nPts n, c1))))))"

text \<open>The three loops of \<open>StreamCacheSeekByPcr\<close>.\<close>

definition pcr_first :: "int \<Rightarrow> unit \<Rightarrow> nat \<Rightarrow> CacheNode \<Rightarrow> (unit + nat option) exec" where
  "pcr_first t = (\<lambda>_ a n.
     if t < cn_nPcr n then Ok (Inr None)
     else if cn_nPcr n \<noteq> -1 then Ok (Inr (Some a)) else Ok (Inl ()))"

definition pcr_nearest ::
  "int \<Rightarrow> int \<times> nat option \<Rightarrow> nat \<Rightarrow> CacheNode
     \<Rightarrow> ((int \<times> nat option) + (int \<times> nat option) \<times> int \<times> nat) exec" where
  "pcr_nearest t = (\<lambda>s a n.
     Ok (if fst s < cn_nPcr n \<and> cn_nPcr n \<le> t then Inl (cn_nPcr n, Some a)
         else if t < cn_nPcr n then Inr (s, cn_nPcr n, a)
         else Inl s))"

definition pcr_mapped ::
  "StreamCache \<Rightarrow> int \<Rightarrow> int \<Rightarrow> int \<times> nat \<Rightarrow> nat \<Rightarrow> CacheNode
     \<Rightarrow> ((int \<times> nat) + (int \<times> nat) \<times> int \<times> nat) exec" where
  "pcr_mapped c t off = (\<lambda>s a n.
     if cn_nPts n = -1 then Ok (Inl s)
     else ebind (StreamCacheIsKeyFrame c n) (\<lambda>k.
       let m = cn_nPts n + off in
       Ok (if \<not> k then Inl s
           else if m \<le> t \<and> fst s < m then Inl (m, a)
           else if t < m then Inr (s, m, a)
           else Inl s)))"

text \<open>The last part of \<open>StreamCacheSeekByPcr\<close>: among the frames after \<open>b\<close>, the last one with a clock
  reference before the target, choose the key frame whose mapped time is next to the target.\<close>

definition pcr_choose ::
  "StreamCache \<Rightarrow> int \<Rightarrow> nat option \<Rightarrow> int \<Rightarrow> nat option \<Rightarrow> (int \<times> StreamCache) exec" where
  "pcr_choose c t pLastNodeBefore nPcrAfter pNodeAfter = (case pLastNodeBefore of
       None \<Rightarrow> Fault
     | Some b \<Rightarrow> (case sc_heap c b of
         None \<Rightarrow> Fault
       | Some bn \<Rightarrow>
           ebind (loop_exec (node_loop (sc_heap c) pNodeAfter
             (pcr_mapped c t (cn_nPcr bn - cn_nPts bn)) (cn_pNext bn) (cn_nPcr bn, b))) (\<lambda>m.
           case (case m of Inl s \<Rightarrow> (s, nPcrAfter, pNodeAfter) | Inr (s, after, x) \<Rightarrow> (s, after, Some x)) of
             ((nFound, pFound), nFirstPcrAfter, pFirstNodeAfter) \<Rightarrow>
               (case (if nFirstPcrAfter - t < t - nFound
                      then (nFirstPcrAfter, pFirstNodeAfter) else (nFound, Some pFound)) of
                  (found, pNodeFound) \<Rightarrow>
                    if pFirstNodeAfter = None \<and> 3000000 < t - found then Ok (-1, c)
                    else ebind (adjustList c pNodeFound) (\<lambda>c1. Ok (found, c1))))))"

definition StreamCacheSeekByPcr :: "StreamCache \<Rightarrow> int \<Rightarrow> (int \<times> StreamCache) exec" where
  "StreamCacheSeekByPcr c nSeekTimeUs = (case sc_pNodeWithLastValidPcr c of
       None \<Rightarrow> Ok (-1, c)
     | Some l \<Rightarrow> (case sc_heap c l of
         None \<Rightarrow> Fault
       | Some ln \<Rightarrow>
           if sc_nLastValidPts c - cn_nPts ln + sc_nLastValidPcr c < nSeekTimeUs then Ok (-1, c)
           else ebind (loop_exec (node_loop (sc_heap c) None (pcr_first nSeekTimeUs) (sc_pPassedHead c) ()))
             (\<lambda>r. if r = Inr None then Ok (-1, c)
                  else ebind (loop_exec (node_loop (sc_heap c) None (pcr_nearest nSeekTimeUs)
                         (case r of Inr p \<Rightarrow> p | Inl _ \<Rightarrow> None) (-1, None))) (\<lambda>q.
                    case q of
                      Inl s \<Rightarrow> pcr_choose c nSeekTimeUs (snd s) 0x7fffffffffffffff None
                    | Inr (s, after, x) \<Rightarrow> pcr_choose c nSeekTimeUs (snd s) after (Some x)))))"

text \<open>\<open>StreamCacheSeekByOffset\<close>; the loop adds up the lengths in an \<open>int\<close>.\<close>

definition offset_body :: "int \<Rightarrow> int \<Rightarrow> nat \<Rightarrow> CacheNode \<Rightarrow> (int + nat) exec" where
  "offset_body t = (\<lambda>offset a n.
     let o' = i32 (offset + cn_nLength n) in Ok (if t \<le> o' then Inr a else Inl o'))"

definition StreamCacheSeekByOffset :: "StreamCache \<Rightarrow> int \<Rightarrow> (int \<times> StreamCache) exec" where
  "StreamCacheSeekByOffset c nSeekOffset =
     (if nSeekOffset < - sc_nPassedDataSize c \<or> sc_nDataSize c < nSeekOffset then Ok (-1, c)
      else
        (case (if nSeekOffset < 0 then (nSeekOffset + sc_nPassedDataSize c, sc_pPassedHead c)
               else (nSeekOffset, sc_pHead c)) of
           (t, p) \<Rightarrow>
             ebind (loop_exec (node_loop (sc_heap c) None (offset_body t) p 0)) (\<lambda>r.
             ebind (adjustList c (case r of Inl _ \<Rightarrow> None | Inr a \<Rightarrow> Some a)) (\<lambda>c1. Ok (0, c1)))))"

definition StreamCacheSeekTo ::
  "(StreamCache \<Rightarrow> int \<Rightarrow> int option) \<Rightarrow> StreamCache \<Rightarrow> int \<Rightarrow> (int \<times> StreamCache) exec" where
  "StreamCacheSeekTo getSeekOffset c nSeekTimeUs =
     (if sc_eContainerFormat c = CDX_PARSER_TS \<or> sc_eContainerFormat c = CDX_PARSER_BD then
        (case getSeekOffset c nSeekTimeUs of
           None \<Rightarrow> Ok (-1, c)
         | Some nByteOffset \<Rightarrow> ebind (StreamCacheSeekByOffset c nByteOffset) (\<lambda>(ret, c1).
             Ok (if ret = 0 then nSeekTimeUs else ret, c1)))
      else if sc_eContainerFormat c = CDX_PARSER_HLS then StreamCacheSeekByPcr c nSeekTimeUs
      else StreamCacheSeekByPts c nSeekTimeUs)"

declare sc_free_all.simps [code] sc_make_room.simps [code] node_loop.simps [code]

section \<open>The invariant\<close>

definition sc_nx :: "StreamCache \<Rightarrow> nat \<Rightarrow> nat option option" where
  "sc_nx c a = map_option cn_pNext (sc_heap c a)"

definition sc_node :: "StreamCache \<Rightarrow> nat \<Rightarrow> CacheNode" where
  "sc_node c a = the (sc_heap c a)"

definition sc_lens :: "StreamCache \<Rightarrow> nat list \<Rightarrow> int" where
  "sc_lens c as = sum_list (map (\<lambda>a. cn_nLength (sc_node c a)) as)"

definition hd_ptr :: "nat list \<Rightarrow> nat option" where
  "hd_ptr as = (case as of [] \<Rightarrow> None | a # _ \<Rightarrow> Some a)"

definition last_ptr :: "nat list \<Rightarrow> nat option" where
  "last_ptr as = (if as = [] then None else Some (last as))"

lemma hd_ptr_simps [simp]: "hd_ptr [] = None" "hd_ptr (a # as) = Some a" "hd_ptr as = None \<longleftrightarrow> as = []"
  by (simp_all add: hd_ptr_def split: list.split)

lemma last_ptr_simps [simp]:
  "last_ptr [] = None" "last_ptr (as @ [a]) = Some a" "last_ptr as = None \<longleftrightarrow> as = []"
  by (simp_all add: last_ptr_def)

lemma sc_lens_simps [simp]:
  "sc_lens c [] = 0" "sc_lens c (a # as) = cn_nLength (sc_node c a) + sc_lens c as"
  "sc_lens c (as @ bs) = sc_lens c as + sc_lens c bs"
  by (simp_all add: sc_lens_def)

text \<open>A frame as the parsers deliver it: the data are there, times are not negative or -1.\<close>

definition node_good :: "CacheNode \<Rightarrow> bool" where
  "node_good n \<longleftrightarrow> 0 \<le> cn_nLength n \<and> cn_nLength n \<le> int (length (cn_data n)) \<and>
     -1 \<le> cn_nPts n \<and> -1 \<le> cn_nPcr n"

text \<open>\<open>last\<close> names the last frame that carries a time.\<close>

definition sc_last_ok :: "StreamCache \<Rightarrow> nat set \<Rightarrow> (CacheNode \<Rightarrow> int) \<Rightarrow> int \<Rightarrow> nat option \<Rightarrow> bool" where
  "sc_last_ok c A sel v p \<longleftrightarrow>
     (case p of None \<Rightarrow> v = -1 | Some a \<Rightarrow> a \<in> A \<and> sel (sc_node c a) = v \<and> v \<noteq> -1)"

text \<open>The list is \<open>ps @ qs\<close>: \<open>ps\<close> are the passed frames, \<open>qs\<close> the pending ones; besides the
  list there are only the nodes \<open>E\<close>. The counters are exact. The video frame counters are left out
  on purpose: they are not kept exact (see below).\<close>

definition sc_list :: "StreamCache \<Rightarrow> nat set \<Rightarrow> nat list \<Rightarrow> nat list \<Rightarrow> bool" where
  "sc_list c E ps qs \<longleftrightarrow>
     chain (sc_nx c) (sc_pPassedHead c) (ps @ qs) \<and>
     sc_pHead c = hd_ptr qs \<and> sc_pTail c = last_ptr (ps @ qs) \<and>
     dom (sc_heap c) = set (ps @ qs) \<union> E \<and> set (ps @ qs) \<inter> E = {} \<and>
     (\<forall>a \<in> set (ps @ qs) \<union> E. node_good (sc_node c a)) \<and>
     sc_last_ok c (set (ps @ qs) \<union> E) cn_nPts (sc_nLastValidPts c) (sc_pNodeWithLastValidPts c) \<and>
     sc_last_ok c (set (ps @ qs) \<union> E) cn_nPcr (sc_nLastValidPcr c) (sc_pNodeWithLastValidPcr c)"

definition sc_counts :: "StreamCache \<Rightarrow> nat list \<Rightarrow> nat list \<Rightarrow> bool" where
  "sc_counts c ps qs \<longleftrightarrow>
     sc_nDataSize c = sc_lens c qs \<and> sc_nPassedDataSize c = sc_lens c ps \<and>
     sc_nFrameNum c = int (length qs) \<and> sc_nPassedFrameNum c = int (length ps) \<and>
     sc_lens c (ps @ qs) \<le> 2147483647 \<and> length (ps @ qs) \<le> 2147483647"

definition sc_at :: "StreamCache \<Rightarrow> nat list \<Rightarrow> nat list \<Rightarrow> bool" where
  "sc_at c ps qs \<longleftrightarrow> sc_list c {} ps qs \<and> sc_counts c ps qs"

lemmas sc_defs = sc_list_def sc_counts_def

lemma sc_list_distinct: "sc_list c E ps qs \<Longrightarrow> distinct (ps @ qs)"
  unfolding sc_list_def by (blast dest: chain_distinct)

lemma sc_list_node:
  assumes "sc_list c E ps qs" "a \<in> set (ps @ qs)"
  shows "sc_heap c a = Some (sc_node c a)" "node_good (sc_node c a)"
proof -
  have "a \<in> dom (sc_heap c)" using assms by (auto simp: sc_list_def)
  then show "sc_heap c a = Some (sc_node c a)" by (auto simp: sc_node_def)
  show "node_good (sc_node c a)" using assms by (auto simp: sc_list_def)
qed

lemma sc_lens_nonneg:
  assumes "sc_list c E ps qs" "set as \<subseteq> set (ps @ qs)"
  shows "0 \<le> sc_lens c as"
  using assms(2) sc_list_node(2) [OF assms(1)]
  by (induction as) (auto simp: node_good_def intro!: add_nonneg_nonneg)

lemma sc_lens_cong: "(\<And>a. a \<in> set as \<Longrightarrow> cn_nLength (sc_node c a) = cn_nLength (sc_node d a)) \<Longrightarrow>
  sc_lens c as = sc_lens d as"
  by (simp add: sc_lens_def cong: map_cong)

lemma sc_node_cong: "sc_heap c = sc_heap d \<Longrightarrow> sc_node c = sc_node d" "sc_heap c = sc_heap d \<Longrightarrow> sc_nx c = sc_nx d"
  "sc_heap c = sc_heap d \<Longrightarrow> sc_lens c = sc_lens d"
  by (auto simp: sc_node_def sc_nx_def sc_lens_def fun_eq_iff)

section \<open>The operations keep the invariant\<close>

text \<open>Taking the oldest pending frame.\<close>

lemma StreamCacheFlushOneFrame_at:
  assumes at: "sc_at c ps (q # qs)"
  shows "\<exists>c'. StreamCacheFlushOneFrame c = Ok c' \<and> sc_at c' (ps @ [q]) qs \<and> sc_heap c' = sc_heap c \<and>
    sc_nMaxBufferSize c' = sc_nMaxBufferSize c"
proof -
  have l: "sc_list c {} ps (q # qs)" and k: "sc_counts c ps (q # qs)" using at by (auto simp: sc_at_def)
  have q: "sc_heap c q = Some (sc_node c q)" "node_good (sc_node c q)" using sc_list_node [OF l] by auto
  have nx: "cn_pNext (sc_node c q) = hd_ptr qs"
  proof -
    have "chain (sc_nx c) (Some q) (q # qs)" using l chain_suffix by (auto simp: sc_list_def)
    then have "chain (sc_nx c) (cn_pNext (sc_node c q)) qs" using q(1) by (simp add: sc_nx_def)
    then show ?thesis by (cases qs) auto
  qed
  obtain c' where c': "StreamCacheFlushOneFrame c = Ok c'"
    using q l by (cases "cn_eMediaType (sc_node c q) = CDX_MEDIA_VIDEO")
      (auto simp: StreamCacheFlushOneFrame_def sc_list_def Let_def)
  have h: "sc_heap c' = sc_heap c" "sc_pHead c' = hd_ptr qs"
    "sc_nMaxBufferSize c' = sc_nMaxBufferSize c" "sc_pPassedHead c' = sc_pPassedHead c" "sc_pTail c' = sc_pTail c"
    "sc_nLastValidPts c' = sc_nLastValidPts c" "sc_pNodeWithLastValidPts c' = sc_pNodeWithLastValidPts c"
    "sc_nLastValidPcr c' = sc_nLastValidPcr c" "sc_pNodeWithLastValidPcr c' = sc_pNodeWithLastValidPcr c"
    "sc_nFrameNum c' = i32 (sc_nFrameNum c - 1)"
    "sc_nDataSize c' = i32 (sc_nDataSize c - cn_nLength (sc_node c q))"
    "sc_nPassedDataSize c' = i32 (sc_nPassedDataSize c + cn_nLength (sc_node c q))"
    "sc_nPassedFrameNum c' = i32 (sc_nPassedFrameNum c + 1)"
    using c' q l nx by (auto simp: StreamCacheFlushOneFrame_def sc_list_def Let_def split: if_splits)
  note e = sc_node_cong [OF h(1)]
  have n: "0 \<le> sc_lens c ps" "0 \<le> sc_lens c qs" "0 \<le> cn_nLength (sc_node c q)"
    using sc_lens_nonneg [OF l] q(2) by (auto simp: node_good_def)
  have "sc_list c' {} (ps @ [q]) qs" using l by (simp add: sc_list_def h e sc_last_ok_def split: option.splits)
  moreover have "sc_counts c' (ps @ [q]) qs"
    using k n by (simp add: sc_counts_def h e i32_id int32_range_def)
  ultimately show ?thesis using c' h by (auto simp: sc_at_def)
qed

text \<open>What dropping passed frames leaves alone.\<close>

definition sc_kept :: "StreamCache \<Rightarrow> StreamCache \<Rightarrow> bool" where
  "sc_kept c' c \<longleftrightarrow>
     sc_nMaxBufferSize c' = sc_nMaxBufferSize c \<and> sc_nStartPlaySize c' = sc_nStartPlaySize c \<and>
     sc_nDataSize c' = sc_nDataSize c \<and> sc_nFrameNum c' = sc_nFrameNum c \<and>
     sc_nVideoFrameNum c' = sc_nVideoFrameNum c \<and> sc_nPassedVideoFrameNum c' = sc_nPassedVideoFrameNum c"

lemma sc_kept_refl [simp]: "sc_kept c c"
  by (simp add: sc_kept_def)

lemma sc_kept_trans: "sc_kept a b \<Longrightarrow> sc_kept b c \<Longrightarrow> sc_kept a c"
  by (simp add: sc_kept_def)

lemma StreamCacheFlushPassedList_list:
  assumes l: "sc_list c E (x # ps) qs" and k: "sc_counts c (x # ps) qs" and ne: "ps @ qs \<noteq> []"
  shows "\<exists>c'. StreamCacheFlushPassedList c = Ok (c', sc_free_node (sc_node c x)) \<and>
    sc_list c' E ps qs \<and> sc_counts c' ps qs \<and> sc_kept c' c \<and> sc_heap c' = (sc_heap c)(x := None)"
proof -
  have x: "sc_heap c x = Some (sc_node c x)" "node_good (sc_node c x)" using sc_list_node [OF l] by auto
  have d: "x \<notin> set (ps @ qs)" "x \<notin> E" using sc_list_distinct [OF l] l by (auto simp: sc_list_def)
  have p: "sc_pPassedHead c = Some x" "sc_pHead c \<noteq> Some x" "sc_pTail c \<noteq> Some x"
    using l d ne by (auto simp: sc_list_def hd_ptr_def last_ptr_def split: list.splits)
  have ch: "chain (sc_nx c) (cn_pNext (sc_node c x)) (ps @ qs)"
    using l x(1) by (simp add: sc_list_def sc_nx_def)
  obtain c' where c': "StreamCacheFlushPassedList c = Ok (c', sc_free_node (sc_node c x))"
    using p x by (auto simp: StreamCacheFlushPassedList_def Let_def)
  have h: "sc_heap c' = (sc_heap c)(x := None)" "sc_pPassedHead c' = cn_pNext (sc_node c x)"
    "sc_pHead c' = sc_pHead c" "sc_pTail c' = sc_pTail c"
    "sc_nPassedFrameNum c' = i32 (sc_nPassedFrameNum c - 1)"
    "sc_nPassedDataSize c' = i32 (sc_nPassedDataSize c - cn_nLength (sc_node c x))"
    "sc_kept c' c"
    "sc_nLastValidPts c' = (if sc_pNodeWithLastValidPts c = Some x then -1 else sc_nLastValidPts c)"
    "sc_pNodeWithLastValidPts c' = (if sc_pNodeWithLastValidPts c = Some x then None else sc_pNodeWithLastValidPts c)"
    "sc_nLastValidPcr c' = (if sc_pNodeWithLastValidPcr c = Some x then -1 else sc_nLastValidPcr c)"
    "sc_pNodeWithLastValidPcr c' = (if sc_pNodeWithLastValidPcr c = Some x then None else sc_pNodeWithLastValidPcr c)"
    using c' p x by (auto simp: StreamCacheFlushPassedList_def Let_def sc_kept_def split: if_splits)
  have e: "sc_node c' a = sc_node c a" if "a \<in> set (ps @ qs) \<union> E" for a
    using that d h(1) by (auto simp: sc_node_def)
  have nx: "sc_nx c' = (sc_nx c)(x := None)" using h(1) by (auto simp: sc_nx_def fun_eq_iff)
  have ln: "sc_lens c' as = sc_lens c as" if "set as \<subseteq> set (ps @ qs)" for as
    using e that by (intro sc_lens_cong) auto
  have "sc_list c' E ps qs"
  proof -
    have "chain (sc_nx c') (sc_pPassedHead c') (ps @ qs)"
      using ch d(1) by (simp add: nx h chain_upd)
    moreover have "sc_pHead c' = hd_ptr qs" "sc_pTail c' = last_ptr (ps @ qs)"
      using l h ne by (auto simp: sc_list_def last_ptr_def)
    moreover have "dom (sc_heap c') = set (ps @ qs) \<union> E" "set (ps @ qs) \<inter> E = {}"
      using l h d by (auto simp: sc_list_def)
    moreover have "\<forall>a \<in> set (ps @ qs) \<union> E. node_good (sc_node c' a)"
      using l e by (simp add: sc_list_def)
    moreover have "sc_last_ok c' (set (ps @ qs) \<union> E) cn_nPts (sc_nLastValidPts c') (sc_pNodeWithLastValidPts c')"
      "sc_last_ok c' (set (ps @ qs) \<union> E) cn_nPcr (sc_nLastValidPcr c') (sc_pNodeWithLastValidPcr c')"
      using l e by (auto simp: sc_list_def sc_last_ok_def h split: option.splits)
    ultimately show ?thesis by (simp add: sc_list_def)
  qed
  moreover have "sc_counts c' ps qs"
  proof -
    have n: "0 \<le> sc_lens c ps" "0 \<le> sc_lens c qs" "0 \<le> cn_nLength (sc_node c x)"
      using sc_lens_nonneg [OF l] x(2) by (auto simp: node_good_def)
    have "sc_lens c' ps = sc_lens c ps" "sc_lens c' qs = sc_lens c qs" using ln by auto
    then show ?thesis
      using k n h(5,6,7) by (simp add: sc_counts_def sc_kept_def i32_id int32_range_def)
  qed
  ultimately show ?thesis using c' h by blast
qed

text \<open>A frame that is as large as the whole buffer and the only one left cannot be dropped; the
  loop that makes room ends in all other cases.\<close>

definition sc_room_ok :: "StreamCache \<Rightarrow> nat list \<Rightarrow> nat list \<Rightarrow> bool" where
  "sc_room_ok c ps qs \<longleftrightarrow> 0 \<le> kept_size (sc_nMaxBufferSize c) \<and>
     (qs = [] \<and> ps \<noteq> [] \<longrightarrow> cn_nLength (sc_node c (last ps)) < sc_nMaxBufferSize c)"

lemma sc_make_room_list:
  assumes "sc_list c E ps qs" "sc_counts c ps qs" "sc_room_ok c ps qs"
  shows "\<exists>k c'. sc_make_room c es = Some (Ok (c', es @ concat (map (\<lambda>a. sc_free_node (sc_node c a)) (take k ps)))) \<and>
    sc_list c' E (drop k ps) qs \<and> sc_counts c' (drop k ps) qs \<and> sc_kept c' c \<and>
    sc_heap c' = (sc_heap c) |` (- set (take k ps)) \<and>
    (sc_nDataSize c' + sc_nPassedDataSize c' < sc_nMaxBufferSize c \<or>
     sc_nPassedDataSize c' \<le> kept_size (sc_nMaxBufferSize c))"
  using assms
proof (induction ps arbitrary: c es)
  case Nil
  then have "sc_nPassedDataSize c = 0" by (simp add: sc_counts_def)
  then have "sc_make_room c es = Some (Ok (c, es))"
    using Nil.prems(3) by (subst sc_make_room.simps) (simp add: sc_room_ok_def)
  then show ?case
    using Nil \<open>sc_nPassedDataSize c = 0\<close> by (intro exI [of _ 0] exI [of _ c]) (simp add: sc_room_ok_def)
next
  case (Cons x ps)
  have t: "i32 (sc_nDataSize c + sc_nPassedDataSize c) = sc_nDataSize c + sc_nPassedDataSize c"
  proof -
    have "0 \<le> sc_lens c (x # ps)" "0 \<le> sc_lens c qs" by (auto intro!: sc_lens_nonneg [OF Cons.prems(1)] simp del: sc_lens_simps)
    then show ?thesis using Cons.prems(2) by (intro i32_id) (simp add: sc_counts_def int32_range_def)
  qed
  let ?full = "sc_nMaxBufferSize c \<le> sc_nDataSize c + sc_nPassedDataSize c \<and>
         kept_size (sc_nMaxBufferSize c) < sc_nPassedDataSize c"
  show ?case
  proof (cases ?full)
    case False
    then have "sc_make_room c es = Some (Ok (c, es))" by (subst sc_make_room.simps) (auto simp: t)
    then show ?thesis using Cons.prems False by (intro exI [of _ 0] exI [of _ c]) auto
  next
    case True
    have ne: "ps @ qs \<noteq> []"
    proof
      assume "ps @ qs = []"
      then show False using Cons.prems True by (auto simp: sc_counts_def sc_room_ok_def)
    qed
    obtain c1 where c1: "StreamCacheFlushPassedList c = Ok (c1, sc_free_node (sc_node c x))"
      "sc_list c1 E ps qs" "sc_counts c1 ps qs" "sc_kept c1 c" "sc_heap c1 = (sc_heap c)(x := None)"
      using StreamCacheFlushPassedList_list [OF Cons.prems(1,2) ne] by blast
    have x: "x \<notin> set (ps @ qs)" using sc_list_distinct [OF Cons.prems(1)] by simp
    have e: "sc_node c1 a = sc_node c a" if "a \<noteq> x" for a using that c1(5) by (simp add: sc_node_def)
    have "last ps \<noteq> x" if "ps \<noteq> []" using x that last_in_set [of ps] by auto
    then have "sc_room_ok c1 ps qs"
      using Cons.prems(3) c1(4) ne by (auto simp: sc_room_ok_def sc_kept_def e)
    from Cons.IH [OF c1(2,3) this, of "es @ sc_free_node (sc_node c x)"]
    obtain k c' where k: "sc_make_room c1 (es @ sc_free_node (sc_node c x)) =
        Some (Ok (c', (es @ sc_free_node (sc_node c x)) @ concat (map (\<lambda>a. sc_free_node (sc_node c1 a)) (take k ps))))"
      "sc_list c' E (drop k ps) qs" "sc_counts c' (drop k ps) qs" "sc_kept c' c1"
      "sc_heap c' = sc_heap c1 |` (- set (take k ps))"
      "sc_nDataSize c' + sc_nPassedDataSize c' < sc_nMaxBufferSize c1 \<or>
        sc_nPassedDataSize c' \<le> kept_size (sc_nMaxBufferSize c1)" by blast
    have "concat (map (\<lambda>a. sc_free_node (sc_node c1 a)) (take k ps)) =
        concat (map (\<lambda>a. sc_free_node (sc_node c a)) (take k ps))"
      using x in_set_takeD [of _ k ps] by (intro arg_cong [where f = concat] map_cong) (auto intro!: e arg_cong [where f = sc_free_node])
    then have "sc_make_room c es =
        Some (Ok (c', es @ concat (map (\<lambda>a. sc_free_node (sc_node c a)) (take (Suc k) (x # ps)))))"
      using True k(1) by (subst sc_make_room.simps) (simp add: t c1(1))
    moreover have "sc_heap c' = sc_heap c |` (- set (take (Suc k) (x # ps)))"
      using k(5) c1(5) by (auto simp: fun_eq_iff restrict_map_def)
    ultimately show ?thesis
      using k c1(4) by (intro exI [of _ "Suc k"] exI [of _ c']) (auto simp: sc_kept_def)
  qed
qed

text \<open>A frame without its link.\<close>

definition cn_frame :: "CacheNode \<Rightarrow> CacheNode" where
  "cn_frame n = n\<lparr>cn_pNext := None\<rparr>"

lemma cn_frame_fields [simp]:
  "cn_pData (cn_frame n) = cn_pData n" "cn_data (cn_frame n) = cn_data n"
  "cn_nLength (cn_frame n) = cn_nLength n" "cn_nPts (cn_frame n) = cn_nPts n"
  "cn_nPcr (cn_frame n) = cn_nPcr n" "cn_eMediaType (cn_frame n) = cn_eMediaType n"
  "cn_nFlags (cn_frame n) = cn_nFlags n" "cn_info (cn_frame n) = cn_info n"
  "node_good (cn_frame n) = node_good n" "sc_free_node (cn_frame n) = sc_free_node n"
  by (simp_all add: cn_frame_def node_good_def sc_free_node_def NodeInfoDestroy_def split: option.splits)

lemma cn_frame_eqD:
  assumes "cn_frame m = cn_frame n"
  shows "cn_nLength m = cn_nLength n" "cn_nPts m = cn_nPts n" "cn_nPcr m = cn_nPcr n"
    "cn_eMediaType m = cn_eMediaType n" "node_good m = node_good n" "sc_free_node m = sc_free_node n"
  by (metis assms cn_frame_fields)+

lemma sc_last_ok_cong:
  assumes "sc_last_ok c A sel v p" "A \<subseteq> B" "\<And>a. a \<in> A \<Longrightarrow> sel (sc_node d a) = sel (sc_node c a)"
  shows "sc_last_ok d B sel v p"
  using assms by (auto simp: sc_last_ok_def split: option.splits)

text \<open>The new node, not linked yet.\<close>

lemma sc_store_node_list:
  assumes at: "sc_at c ps qs" and a: "sc_heap c a = None" and g: "node_good node"
  shows "sc_list (sc_store_node c a node) {a} ps qs" "sc_counts (sc_store_node c a node) ps qs"
    "sc_kept (sc_store_node c a node) c"
    "sc_heap (sc_store_node c a node) = (sc_heap c)(a \<mapsto> node\<lparr>cn_pNext := None\<rparr>)"
    "sc_nPassedDataSize (sc_store_node c a node) = sc_nPassedDataSize c"
proof -
  let ?c = "sc_store_node c a node"
  have l: "sc_list c {} ps qs" and k: "sc_counts c ps qs" using at by (auto simp: sc_at_def)
  have d: "a \<notin> set (ps @ qs)" using l a by (auto simp: sc_list_def)
  show h: "sc_heap ?c = (sc_heap c)(a \<mapsto> node\<lparr>cn_pNext := None\<rparr>)" by (simp add: sc_store_node_def Let_def)
  have f: "sc_pPassedHead ?c = sc_pPassedHead c" "sc_pHead ?c = sc_pHead c" "sc_pTail ?c = sc_pTail c"
    "sc_nPassedFrameNum ?c = sc_nPassedFrameNum c"
    "sc_nLastValidPts ?c = (if cn_nPts node \<noteq> -1 then cn_nPts node else sc_nLastValidPts c)"
    "sc_pNodeWithLastValidPts ?c = (if cn_nPts node \<noteq> -1 then Some a else sc_pNodeWithLastValidPts c)"
    "sc_nLastValidPcr ?c = (if cn_nPcr node \<noteq> -1 then cn_nPcr node else sc_nLastValidPcr c)"
    "sc_pNodeWithLastValidPcr ?c = (if cn_nPcr node \<noteq> -1 then Some a else sc_pNodeWithLastValidPcr c)"
    by (simp_all add: sc_store_node_def Let_def)
  show p: "sc_nPassedDataSize ?c = sc_nPassedDataSize c" and kp: "sc_kept ?c c"
    by (simp_all add: sc_store_node_def Let_def sc_kept_def)
  have e: "sc_node ?c b = sc_node c b" if "b \<in> set (ps @ qs)" for b
    using that d h by (auto simp: sc_node_def)
  have n: "sc_node ?c a = node\<lparr>cn_pNext := None\<rparr>" using h by (simp add: sc_node_def)
  have nx: "sc_nx ?c = (sc_nx c)(a \<mapsto> None)" using h by (auto simp: sc_nx_def fun_eq_iff)
  have "chain (sc_nx ?c) (sc_pPassedHead ?c) (ps @ qs)"
    using l d by (simp add: nx f chain_upd sc_list_def)
  moreover have "sc_pHead ?c = hd_ptr qs" "sc_pTail ?c = last_ptr (ps @ qs)"
    using l f by (auto simp: sc_list_def)
  moreover have "dom (sc_heap ?c) = set (ps @ qs) \<union> {a}" "set (ps @ qs) \<inter> {a} = {}"
    using l h d by (auto simp: sc_list_def)
  moreover have "\<forall>b \<in> set (ps @ qs) \<union> {a}. node_good (sc_node ?c b)"
    using l e n g by (auto simp: sc_list_def node_good_def)
  moreover have "sc_last_ok ?c (set (ps @ qs) \<union> {a}) cn_nPts (sc_nLastValidPts ?c) (sc_pNodeWithLastValidPts ?c)"
  proof (cases "cn_nPts node = -1")
    case True
    have "sc_last_ok c (set (ps @ qs)) cn_nPts (sc_nLastValidPts c) (sc_pNodeWithLastValidPts c)"
      using l by (simp add: sc_list_def)
    then have "sc_last_ok ?c (set (ps @ qs) \<union> {a}) cn_nPts (sc_nLastValidPts c) (sc_pNodeWithLastValidPts c)"
      by (rule sc_last_ok_cong) (use e in auto)
    then show ?thesis using True by (simp add: f)
  qed (simp add: f sc_last_ok_def n)
  moreover have "sc_last_ok ?c (set (ps @ qs) \<union> {a}) cn_nPcr (sc_nLastValidPcr ?c) (sc_pNodeWithLastValidPcr ?c)"
  proof (cases "cn_nPcr node = -1")
    case True
    have "sc_last_ok c (set (ps @ qs)) cn_nPcr (sc_nLastValidPcr c) (sc_pNodeWithLastValidPcr c)"
      using l by (simp add: sc_list_def)
    then have "sc_last_ok ?c (set (ps @ qs) \<union> {a}) cn_nPcr (sc_nLastValidPcr c) (sc_pNodeWithLastValidPcr c)"
      by (rule sc_last_ok_cong) (use e in auto)
    then show ?thesis using True by (simp add: f)
  qed (simp add: f sc_last_ok_def n)
  ultimately show "sc_list ?c {a} ps qs" by (simp add: sc_list_def)
  have "sc_lens ?c as = sc_lens c as" if "set as \<subseteq> set (ps @ qs)" for as
    using e that by (intro sc_lens_cong) auto
  then have "sc_lens ?c ps = sc_lens c ps" "sc_lens ?c qs = sc_lens c qs" by auto
  then show "sc_counts ?c ps qs" using k f p kp by (simp add: sc_counts_def sc_kept_def)
qed

text \<open>The new node becomes the last one.\<close>

lemma sc_link_list:
  assumes l: "sc_list c {a} ps qs" and nx0: "sc_nx c a = Some None"
  shows "\<exists>c'. sc_link c a = Ok c' \<and> sc_list c' {} ps (qs @ [a]) \<and> sc_kept c' c \<and>
    sc_nPassedDataSize c' = sc_nPassedDataSize c \<and> sc_nPassedFrameNum c' = sc_nPassedFrameNum c \<and>
    (\<forall>b. cn_frame (sc_node c' b) = cn_frame (sc_node c b))"
proof (cases "ps @ qs" rule: rev_cases)
  case Nil
  have n: "sc_nx c = (sc_nx c)(a \<mapsto> None)" using nx0 by auto
  then have "chain (sc_nx c) (Some a) [a]" by (metis chain_singleton)
  moreover have "sc_pTail c = None" using l Nil by (simp add: sc_list_def)
  ultimately show ?thesis
    using l Nil by (auto simp: sc_link_def sc_list_def sc_kept_def sc_nx_def sc_node_def sc_last_ok_def
      last_ptr_def split: option.splits)
next
  case (snoc xs t)
  have t: "sc_pTail c = Some t" "t \<in> set (ps @ qs)" using l snoc by (auto simp: sc_list_def)
  have d: "a \<notin> set (ps @ qs)" using l by (auto simp: sc_list_def)
  have ht: "sc_heap c t = Some (sc_node c t)" using sc_list_node [OF l t(2)] by simp
  obtain c' where c': "sc_link c a = Ok c'" using t(1) ht by (simp add: sc_link_def)
  have h: "sc_heap c' = (sc_heap c)(t \<mapsto> (sc_node c t)\<lparr>cn_pNext := Some a\<rparr>)" "sc_pTail c' = Some a"
    "sc_pHead c' = (if sc_pHead c = None then Some a else sc_pHead c)" "sc_pPassedHead c' = sc_pPassedHead c"
    "sc_kept c' c" "sc_nPassedDataSize c' = sc_nPassedDataSize c" "sc_nPassedFrameNum c' = sc_nPassedFrameNum c"
    "sc_nLastValidPts c' = sc_nLastValidPts c" "sc_pNodeWithLastValidPts c' = sc_pNodeWithLastValidPts c"
    "sc_nLastValidPcr c' = sc_nLastValidPcr c" "sc_pNodeWithLastValidPcr c' = sc_pNodeWithLastValidPcr c"
    using c' t(1) ht by (auto simp: sc_link_def sc_kept_def)
  have fr: "cn_frame (sc_node c' b) = cn_frame (sc_node c b)" for b
    by (simp add: sc_node_def h(1) cn_frame_def)
  have "sc_nx c' = (sc_nx c)(t \<mapsto> Some a, a \<mapsto> None)"
    using h(1) nx0 d t(2) by (auto simp: sc_nx_def fun_eq_iff)
  then have "chain (sc_nx c') (sc_pPassedHead c') (xs @ [t, a])"
    using chain_snoc [of "sc_nx c" "sc_pPassedHead c" xs t a] l d snoc h(4) by (auto simp: sc_list_def)
  then have "chain (sc_nx c') (sc_pPassedHead c') ((ps @ qs) @ [a])" by (simp only: snoc append.assoc append_Cons append_Nil)
  then have "chain (sc_nx c') (sc_pPassedHead c') (ps @ qs @ [a])" by (simp only: append.assoc)
  moreover have "sc_pHead c' = hd_ptr (qs @ [a])" using l by (cases qs) (auto simp: h(3) sc_list_def)
  moreover have "sc_pTail c' = last_ptr (ps @ qs @ [a])" using h(2) by (simp add: last_ptr_def)
  moreover have "dom (sc_heap c') = set (ps @ qs @ [a])" using l h(1) t(2) by (auto simp: sc_list_def)
  moreover have "\<forall>b \<in> set (ps @ qs @ [a]). node_good (sc_node c' b)"
    using l cn_frame_eqD(5) [OF fr] by (auto simp: sc_list_def)
  moreover have "sc_last_ok c' (set (ps @ qs @ [a])) cn_nPts (sc_nLastValidPts c') (sc_pNodeWithLastValidPts c')"
    "sc_last_ok c' (set (ps @ qs @ [a])) cn_nPcr (sc_nLastValidPcr c') (sc_pNodeWithLastValidPcr c')"
    unfolding h(8-11) using l cn_frame_eqD(2,3) [OF fr]
    by (auto simp: sc_list_def intro!: sc_last_ok_cong [where c = c and d = c' and A = "set (ps @ qs) \<union> {a}"])
  ultimately have "sc_list c' {} ps (qs @ [a])" by (simp add: sc_list_def)
  then show ?thesis using c' h fr by auto
qed

text \<open>Adding a frame: the oldest passed frames are dropped, the new frame is the last one, the
  frames between stay as they are.\<close>

lemma StreamCacheAddOneFrame_at:
  assumes at: "sc_at c ps qs" and a: "sc_heap c a = None" and g: "node_good node"
    and room: "sc_room_ok c ps qs"
    and fit: "sc_lens c (ps @ qs) + cn_nLength node \<le> 2147483647" "length (ps @ qs) < 2147483647"
  shows "\<exists>k c'. StreamCacheAddOneFrame c node (Some a) =
        Some (Ok (0, c', concat (map (\<lambda>b. sc_free_node (sc_node c b)) (take k ps)))) \<and>
      sc_at c' (drop k ps) (qs @ [a]) \<and> cn_frame (sc_node c' a) = cn_frame node \<and>
      (\<forall>b \<in> set (drop k ps @ qs). cn_frame (sc_node c' b) = cn_frame (sc_node c b)) \<and>
      sc_nMaxBufferSize c' = sc_nMaxBufferSize c"
proof -
  let ?c = "sc_store_node c a node"
  note st = sc_store_node_list [OF at a g]
  have l0: "sc_list c {} ps qs" using at by (simp add: sc_at_def)
  have d: "a \<notin> set (ps @ qs)" using l0 a by (auto simp: sc_list_def)
  have e: "sc_node ?c b = sc_node c b" if "b \<noteq> a" for b using that st(4) by (simp add: sc_node_def)
  have "last ps \<noteq> a" if "ps \<noteq> []" using d that last_in_set [of ps] by auto
  then have "sc_room_ok ?c ps qs" using room st(3) e by (auto simp: sc_room_ok_def sc_kept_def)
  from sc_make_room_list [OF st(1,2) this, of "[]"] obtain k c1 where k:
    "sc_make_room ?c [] = Some (Ok (c1, concat (map (\<lambda>b. sc_free_node (sc_node ?c b)) (take k ps))))"
    "sc_list c1 {a} (drop k ps) qs" "sc_counts c1 (drop k ps) qs" "sc_kept c1 ?c"
    "sc_heap c1 = sc_heap ?c |` (- set (take k ps))" by auto
  have tk: "a \<notin> set (take k ps)" using d in_set_takeD [of a k ps] by auto
  have h1: "sc_heap c1 a = Some (node\<lparr>cn_pNext := None\<rparr>)" using k(5) st(4) tk by simp
  obtain c2 where c2: "sc_link c1 a = Ok c2" "sc_list c2 {} (drop k ps) (qs @ [a])" "sc_kept c2 c1"
    "sc_nPassedDataSize c2 = sc_nPassedDataSize c1" "sc_nPassedFrameNum c2 = sc_nPassedFrameNum c1"
    "\<And>b. cn_frame (sc_node c2 b) = cn_frame (sc_node c1 b)"
    using sc_link_list [OF k(2)] h1 by (auto simp: sc_nx_def)
  define c3 where "c3 = c2\<lparr>sc_nDataSize := i32 (sc_nDataSize c2 + cn_nLength node),
    sc_nFrameNum := i32 (sc_nFrameNum c2 + 1)\<rparr>"
  define c' where "c' = (if cn_eMediaType node = CDX_MEDIA_VIDEO
    then c3\<lparr>sc_nVideoFrameNum := i32 (sc_nVideoFrameNum c3 + 1)\<rparr> else c3)"
  have same: "sc_heap c' = sc_heap c2" "sc_pHead c' = sc_pHead c2" "sc_pTail c' = sc_pTail c2"
    "sc_pPassedHead c' = sc_pPassedHead c2" "sc_nLastValidPts c' = sc_nLastValidPts c2"
    "sc_pNodeWithLastValidPts c' = sc_pNodeWithLastValidPts c2" "sc_nLastValidPcr c' = sc_nLastValidPcr c2"
    "sc_pNodeWithLastValidPcr c' = sc_pNodeWithLastValidPcr c2" "sc_nPassedDataSize c' = sc_nPassedDataSize c2"
    "sc_nPassedFrameNum c' = sc_nPassedFrameNum c2" "sc_nDataSize c' = i32 (sc_nDataSize c2 + cn_nLength node)"
    "sc_nFrameNum c' = i32 (sc_nFrameNum c2 + 1)" "sc_nMaxBufferSize c' = sc_nMaxBufferSize c2"
    by (simp_all add: c'_def c3_def)
  note e' = sc_node_cong [OF same(1)]
  have old: "cn_frame (sc_node c2 b) = cn_frame (sc_node c b)" if "b \<in> set (drop k ps @ qs)" for b
  proof -
    have "b \<notin> set (take k ps)" "b \<in> set (ps @ qs)"
      using that sc_list_distinct [OF l0] set_take_disj_set_drop_if_distinct [of ps k k] in_set_takeD [of b k ps]
        in_set_dropD [of b k ps] by auto
    moreover have "b \<noteq> a" using calculation(2) d by auto
    ultimately show ?thesis using d k(5) e [of b] c2(6) [of b] by (simp add: sc_node_def)
  qed
  have new: "cn_frame (sc_node c2 a) = cn_frame node" using c2(6) [of a] h1 by (simp add: sc_node_def cn_frame_def)
  have ln: "sc_lens c2 as = sc_lens c as" "sc_lens c1 as = sc_lens c as" if "set as \<subseteq> set (drop k ps @ qs)" for as
    using cn_frame_eqD(1) [OF old] cn_frame_eqD(1) [OF c2(6)] that by (auto intro!: sc_lens_cong)
  have n0: "0 \<le> sc_lens c qs" "0 \<le> sc_lens c (take k ps)" "0 \<le> sc_lens c (drop k ps)" "0 \<le> cn_nLength node"
    using g sc_lens_nonneg [OF l0] set_take_subset [of k ps] set_drop_subset [of k ps]
    by (auto simp: node_good_def le_supI1)
  have split: "sc_lens c ps = sc_lens c (take k ps) + sc_lens c (drop k ps)"
    by (metis append_take_drop_id sc_lens_simps(3))
  have "sc_list c' {} (drop k ps) (qs @ [a])"
    using c2(2) by (simp add: sc_list_def same(1-8) e' sc_last_ok_def split: option.splits)
  moreover have "sc_counts c' (drop k ps) (qs @ [a])"
    using k(3) c2(3-5) fit n0 split ln [of qs] ln [of "drop k ps"] cn_frame_eqD(1) [OF new]
    by (simp add: sc_counts_def sc_kept_def same e' i32_id int32_range_def)
  moreover have "map (\<lambda>b. sc_free_node (sc_node ?c b)) (take k ps) = map (\<lambda>b. sc_free_node (sc_node c b)) (take k ps)"
    using tk by (auto intro!: map_cong arg_cong [where f = sc_free_node] e)
  then have "StreamCacheAddOneFrame c node (Some a) =
      Some (Ok (0, c', concat (map (\<lambda>b. sc_free_node (sc_node c b)) (take k ps))))"
    using k(1) c2(1) by (simp add: StreamCacheAddOneFrame_def c'_def c3_def Let_def del: map_eq_conv)
  moreover have "sc_nMaxBufferSize c' = sc_nMaxBufferSize c"
    using same(13) c2(3) k(4) st(3) by (simp add: sc_kept_def)
  ultimately show ?thesis using old new e' by (auto simp: sc_at_def)
qed

text \<open>The loop of \<open>StreamCacheDestroy\<close> and \<open>StreamCacheFlushAll\<close> reaches and frees every node.\<close>

lemma sc_free_all_chain:
  assumes "chain (sc_nx c) (sc_pPassedHead c) xs" "dom (sc_heap c) = set xs"
  shows "sc_free_all c es = Some (c\<lparr>sc_pPassedHead := None, sc_heap := Map.empty\<rparr>,
    es @ concat (map (\<lambda>a. sc_free_node (sc_node c a)) xs))"
  using assms
proof (induction xs arbitrary: c es)
  case Nil
  then have "sc_heap c = Map.empty" "sc_pPassedHead c = None" by auto
  then have "c\<lparr>sc_pPassedHead := None, sc_heap := Map.empty\<rparr> = c" by (cases c) simp
  then show ?case using Nil by (subst sc_free_all.simps) simp
next
  case (Cons x xs)
  have x: "sc_pPassedHead c = Some x" "sc_heap c x = Some (sc_node c x)"
    using Cons.prems by (auto simp: sc_node_def sc_nx_def split: option.splits)
  have d: "x \<notin> set xs" using chain_distinct [OF Cons.prems(1)] by simp
  let ?c = "c\<lparr>sc_pPassedHead := cn_pNext (sc_node c x), sc_heap := (sc_heap c)(x := None)\<rparr>"
  have "sc_nx ?c = (sc_nx c)(x := None)" by (auto simp: sc_nx_def)
  then have ch: "chain (sc_nx ?c) (sc_pPassedHead ?c) xs"
    using Cons.prems(1) x d by (simp add: chain_upd sc_nx_def [of c x])
  have dm: "dom (sc_heap ?c) = set xs" using Cons.prems(2) d by auto
  have "map (\<lambda>a. sc_free_node (sc_node ?c a)) xs = map (\<lambda>a. sc_free_node (sc_node c a)) xs"
    using d by (auto simp: sc_node_def)
  then show ?case using Cons.IH [OF ch dm, of "es @ sc_free_node (sc_node c x)"] x
    by (subst sc_free_all.simps) (simp del: map_eq_conv)
qed

section \<open>The loops over the list\<close>

fun loop_list ::
  "(nat \<Rightarrow> CacheNode) \<Rightarrow> ('s \<Rightarrow> nat \<Rightarrow> CacheNode \<Rightarrow> ('s + 'r) exec) \<Rightarrow> 's \<Rightarrow> nat list \<Rightarrow> ('s + 'r) exec" where
  "loop_list nd body s [] = Ok (Inl s)"
| "loop_list nd body s (a # as) =
     ebind (body s a (nd a)) (\<lambda>r. case r of Inl s' \<Rightarrow> loop_list nd body s' as | Inr v \<Rightarrow> Ok (Inr v))"

lemma node_loop_list:
  assumes "chain (sc_nx c) p (xs @ ys)" "loop_list (sc_node c) body s xs = Ok r"
  shows "node_loop (sc_heap c) (hd_ptr ys) body p s = Some r"
  using assms
proof (induction xs arbitrary: p s)
  case Nil
  then show ?case by (cases ys) (auto simp: node_loop.simps)
next
  case (Cons x xs)
  have d: "distinct (x # xs @ ys)" using chain_distinct [OF Cons.prems(1)] by simp
  have x: "p = Some x" "sc_heap c x = Some (sc_node c x)" "chain (sc_nx c) (cn_pNext (sc_node c x)) (xs @ ys)"
    using Cons.prems(1) by (auto simp: sc_nx_def [of c x] sc_node_def split: option.splits)
  have "Some x \<noteq> hd_ptr ys" using d by (cases ys) auto
  moreover obtain v where "body s x (sc_node c x) = Ok v" using Cons.prems(2) by auto
  ultimately show ?case using Cons.prems(2) Cons.IH [OF x(3)] x(1,2)
    by (subst node_loop.simps) (auto split: sum.splits)
qed

definition sc_video :: "StreamCache \<Rightarrow> nat list \<Rightarrow> int" where
  "sc_video c as = int (length (filter (\<lambda>a. cn_eMediaType (sc_node c a) = CDX_MEDIA_VIDEO) as))"

lemma sc_video_simps [simp]:
  "sc_video c [] = 0"
  "sc_video c (a # as) = (if cn_eMediaType (sc_node c a) = CDX_MEDIA_VIDEO then 1 else 0) + sc_video c as"
  by (simp_all add: sc_video_def)

lemma sc_video_bounds: "0 \<le> sc_video c as" "sc_video c as \<le> int (length as)"
  by (simp_all add: sc_video_def)

lemma adjust_sums:
  assumes "\<forall>a \<in> set as. 0 \<le> cn_nLength (sc_node c a)" "0 \<le> s" "0 \<le> n" "0 \<le> v"
    "s + sc_lens c as \<le> 2147483647" "n + int (length as) \<le> 2147483647" "v + int (length as) \<le> 2147483647"
  shows "loop_list (sc_node c) (\<lambda>(size, num, video) a n. Ok (Inl (i32 (size + cn_nLength n), i32 (num + 1),
          if cn_eMediaType n = CDX_MEDIA_VIDEO then i32 (video + 1) else video) :: (int \<times> int \<times> int) + unit))
       (s, n, v) as = Ok (Inl (s + sc_lens c as, n + int (length as), v + sc_video c as))"
  using assms
proof (induction as arbitrary: s n v)
  case (Cons a as)
  have l: "0 \<le> sc_lens c as" using Cons.prems(1) by (auto simp: sc_lens_def intro!: sum_list_nonneg)
  have "i32 (s + cn_nLength (sc_node c a)) = s + cn_nLength (sc_node c a)" "i32 (n + 1) = n + 1" "i32 (v + 1) = v + 1"
    using Cons.prems l by (auto intro!: i32_id simp: int32_range_def)
  then show ?case using Cons.prems l Cons.IH [of "s + cn_nLength (sc_node c a)" "n + 1"] by (simp add: algebra_simps)
qed simp

text \<open>\<open>adjustList\<close> moves the border between passed and pending frames.\<close>

lemma adjustList_at:
  assumes at: "sc_at c ps qs" and eq: "ps @ qs = xs @ ys" and p: "p = hd_ptr ys"
  shows "\<exists>c'. adjustList c p = Ok c' \<and> sc_at c' xs ys \<and> sc_heap c' = sc_heap c \<and>
    sc_pHead c' = p \<and> sc_nMaxBufferSize c' = sc_nMaxBufferSize c \<and> sc_nPassedVideoFrameNum c' = sc_video c xs \<and>
    sc_nVideoFrameNum c' = i32 (sc_nPassedVideoFrameNum c + sc_nVideoFrameNum c - sc_video c xs)"
proof -
  have l: "sc_list c {} ps qs" and k: "sc_counts c ps qs" using at by (auto simp: sc_at_def)
  have ch: "chain (sc_nx c) (sc_pPassedHead c) (xs @ ys)" using l eq by (simp add: sc_list_def)
  have sub: "set xs \<subseteq> set (ps @ qs)" "set ys \<subseteq> set (ps @ qs)" using eq by auto
  have n: "0 \<le> sc_lens c xs" "0 \<le> sc_lens c ys" "\<forall>a \<in> set xs. 0 \<le> cn_nLength (sc_node c a)"
    using sc_lens_nonneg [OF l] sub sc_list_node(2) [OF l] by (auto simp: node_good_def)
  have tot: "sc_lens c ps + sc_lens c qs = sc_lens c xs + sc_lens c ys"
    "int (length ps) + int (length qs) = int (length xs) + int (length ys)"
    using arg_cong [OF eq, of "sc_lens c"] arg_cong [OF eq, of length] by auto
  have lp: "node_loop (sc_heap c) p (\<lambda>(size, num, video) a n. Ok (Inl (i32 (size + cn_nLength n), i32 (num + 1),
          if cn_eMediaType n = CDX_MEDIA_VIDEO then i32 (video + 1) else video) :: (int \<times> int \<times> int) + unit))
       (sc_pPassedHead c) (0, 0, 0) = Some (Inl (sc_lens c xs, int (length xs), sc_video c xs))"
    unfolding p using k n tot
    by (intro node_loop_list [OF ch]) (simp add: adjust_sums sc_counts_def)
  obtain c' where c': "adjustList c p = Ok c'" unfolding adjustList_def lp by (simp add: loop_exec_def)
  have h: "sc_heap c' = sc_heap c" "sc_pHead c' = p" "sc_pTail c' = sc_pTail c" "sc_pPassedHead c' = sc_pPassedHead c"
    "sc_nLastValidPts c' = sc_nLastValidPts c" "sc_pNodeWithLastValidPts c' = sc_pNodeWithLastValidPts c"
    "sc_nLastValidPcr c' = sc_nLastValidPcr c" "sc_pNodeWithLastValidPcr c' = sc_pNodeWithLastValidPcr c"
    "sc_nMaxBufferSize c' = sc_nMaxBufferSize c"
    "sc_nDataSize c' = i32 (sc_nPassedDataSize c + sc_nDataSize c - sc_lens c xs)"
    "sc_nFrameNum c' = i32 (sc_nPassedFrameNum c + sc_nFrameNum c - int (length xs))"
    "sc_nVideoFrameNum c' = i32 (sc_nPassedVideoFrameNum c + sc_nVideoFrameNum c - sc_video c xs)"
    "sc_nPassedDataSize c' = sc_lens c xs" "sc_nPassedFrameNum c' = int (length xs)"
    "sc_nPassedVideoFrameNum c' = sc_video c xs"
    using c' unfolding adjustList_def lp by (auto simp: loop_exec_def)
  note e = sc_node_cong [OF h(1)]
  have "sc_list c' {} xs ys"
    using l p eq [symmetric] by (simp add: sc_list_def h e sc_last_ok_def split: option.splits)
  moreover have "sc_counts c' xs ys"
    using k n tot by (simp add: sc_counts_def h e i32_id int32_range_def)
  ultimately show ?thesis using c' h by (simp add: sc_at_def)
qed

text \<open>Every frame with its data can be examined.\<close>

lemma StreamCacheIsKeyFrame_total:
  assumes "node_good n"
  shows "\<exists>k. StreamCacheIsKeyFrame c n = Ok k"
proof -
  obtain m where "cn_nLength n = int m" "m \<le> length (cn_data n)"
    using assms by (auto simp: node_good_def intro: that [of "nat (cn_nLength n)"])
  then show ?thesis
    by (auto simp: StreamCacheIsKeyFrame_def h264_scan mpeg12_scan wmv3_scan h265_scan)
qed

definition sc_key :: "StreamCache \<Rightarrow> nat \<Rightarrow> bool" where
  "sc_key c a \<longleftrightarrow> cn_nPts (sc_node c a) \<noteq> -1 \<and> StreamCacheIsKeyFrame c (sc_node c a) = Ok True"

lemma sc_key_False:
  "node_good (sc_node c a) \<Longrightarrow> cn_nPts (sc_node c a) \<noteq> -1 \<Longrightarrow> \<not> sc_key c a \<Longrightarrow>
     StreamCacheIsKeyFrame c (sc_node c a) = Ok False"
  using StreamCacheIsKeyFrame_total [of "sc_node c a" c] by (auto simp: sc_key_def)

lemma pts_first_list:
  assumes "\<forall>a \<in> set as. node_good (sc_node c a)" "0 \<le> t"
  shows "\<exists>r. loop_list (sc_node c) (pts_first c t) () as = Ok r \<and>
    (\<forall>a. r = Inr (Some a) \<longrightarrow> (\<exists>us vs. as = us @ a # vs \<and> sc_key c a \<and> cn_nPts (sc_node c a) \<le> t \<and>
       (\<forall>u \<in> set us. \<not> sc_key c u))) \<and>
    ((\<nexists>a. r = Inr (Some a)) \<longrightarrow> (\<forall>k \<in> set (takeWhile (\<lambda>a. cn_nPts (sc_node c a) \<le> t) as). \<not> sc_key c k))"
  using assms
proof (induction as)
  case (Cons x as)
  then obtain r where r: "loop_list (sc_node c) (pts_first c t) () as = Ok r"
    "\<And>a. r = Inr (Some a) \<Longrightarrow> (\<exists>us vs. as = us @ a # vs \<and> sc_key c a \<and> cn_nPts (sc_node c a) \<le> t \<and>
       (\<forall>u \<in> set us. \<not> sc_key c u))"
    "(\<nexists>a. r = Inr (Some a)) \<Longrightarrow> \<forall>k \<in> set (takeWhile (\<lambda>a. cn_nPts (sc_node c a) \<le> t) as). \<not> sc_key c k" by auto
  have go: "\<exists>us vs. x # as = us @ a # vs \<and> sc_key c a \<and> cn_nPts (sc_node c a) \<le> t \<and> (\<forall>u \<in> set us. \<not> sc_key c u)"
    if "\<not> sc_key c x" "r = Inr (Some a)" for a
    using r(2) [OF that(2)] that(1) by (metis append_Cons set_ConsD)
  consider "cn_nPts (sc_node c x) = -1" | "cn_nPts (sc_node c x) \<noteq> -1" "t < cn_nPts (sc_node c x)"
    | "cn_nPts (sc_node c x) \<le> t" "sc_key c x"
    | "cn_nPts (sc_node c x) \<noteq> -1" "cn_nPts (sc_node c x) \<le> t" "\<not> sc_key c x"
    by (meson not_le)
  then show ?case
  proof cases
    case 1
    then show ?thesis using r(1,3) go \<open>0 \<le> t\<close> by (simp add: pts_first_def sc_key_def)
  next
    case 2
    then show ?thesis by (simp add: pts_first_def)
  next
    case 3
    then have "x # as = [] @ x # as" by simp
    then show ?thesis using 3 by (fastforce simp: pts_first_def sc_key_def)
  next
    case 4
    then have "StreamCacheIsKeyFrame c (sc_node c x) = Ok False" using Cons.prems sc_key_False by auto
    then show ?thesis using r(1,3) go 4 by (simp add: pts_first_def)
  qed
qed simp

text \<open>The second loop splits the key frames into those up to the target and the others.\<close>

definition key_split :: "StreamCache \<Rightarrow> int \<Rightarrow> nat list \<Rightarrow> nat list \<times> nat list" where
  "key_split c t as = (let K = filter (sc_key c) as
     in (takeWhile (\<lambda>a. cn_nPts (sc_node c a) \<le> t) K, dropWhile (\<lambda>a. cn_nPts (sc_node c a) \<le> t) K))"

lemma pts_nearest_list:
  assumes "\<forall>a \<in> set as. node_good (sc_node c a)"
  shows "\<exists>s'. loop_list (sc_node c) (pts_nearest c t) s as =
      Ok (case snd (key_split c t as) of [] \<Rightarrow> Inl s' | b # _ \<Rightarrow> Inr (s', cn_nPts (sc_node c b), b)) \<and>
    fst s \<le> fst s' \<and> (\<forall>k \<in> set (fst (key_split c t as)). cn_nPts (sc_node c k) \<le> fst s') \<and>
    (s' = s \<or> (\<exists>k \<in> set (fst (key_split c t as)). s' = (cn_nPts (sc_node c k), Some k)))"
  using assms
proof (induction as arbitrary: s)
  case Nil
  then show ?case by (simp add: key_split_def)
next
  case (Cons x as)
  have g: "\<forall>a \<in> set as. node_good (sc_node c a)" using Cons.prems by simp
  show ?case
  proof (cases "sc_key c x")
    case False
    then have "loop_list (sc_node c) (pts_nearest c t) s (x # as) = loop_list (sc_node c) (pts_nearest c t) s as"
      using Cons.prems sc_key_False [of c x] by (simp add: pts_nearest_def)
    then show ?thesis using Cons.IH [OF g, of s] False by (simp add: key_split_def)
  next
    case key: True
    then have k: "cn_nPts (sc_node c x) \<noteq> -1" "StreamCacheIsKeyFrame c (sc_node c x) = Ok True"
      by (auto simp: sc_key_def)
    show ?thesis
    proof (cases "cn_nPts (sc_node c x) \<le> t")
      case False
      then show ?thesis using key k by (simp add: key_split_def pts_nearest_def)
    next
      case True
      let ?s = "if fst s < cn_nPts (sc_node c x) then (cn_nPts (sc_node c x), Some x) else s"
      have "loop_list (sc_node c) (pts_nearest c t) s (x # as) = loop_list (sc_node c) (pts_nearest c t) ?s as"
        using k True by (simp add: pts_nearest_def)
      moreover have "key_split c t (x # as) = (x # fst (key_split c t as), snd (key_split c t as))"
        using key True by (simp add: key_split_def Let_def)
      ultimately show ?thesis using Cons.IH [OF g, of ?s] by (fastforce split: if_splits)
    qed
  qed
qed

text \<open>The nearest one of sorted times.\<close>

lemma nearest_time:
  fixes f :: "nat \<Rightarrow> int"
  assumes s: "sorted (map f K)" and b: "m \<le> t" "\<forall>k \<in> set (takeWhile (\<lambda>a. f a \<le> t) K). f k \<le> m"
    and a: "\<forall>k \<in> set K. \<forall>x zs. dropWhile (\<lambda>a. f a \<le> t) K = x # zs \<longrightarrow> n = f x"
    and k: "k \<in> set K"
  shows "f k \<le> t \<Longrightarrow> t - m \<le> t - f k" "t < f k \<Longrightarrow> t < n \<and> n - t \<le> f k - t"
proof -
  let ?T = "takeWhile (\<lambda>a. f a \<le> t) K" and ?D = "dropWhile (\<lambda>a. f a \<le> t) K"
  have K: "K = ?T @ ?D" by simp
  have sD: "sorted (map f ?D)" using s K by (metis map_append sorted_append)
  { assume "f k \<le> t"
    have "k \<in> set ?T"
    proof (rule ccontr)
      assume "k \<notin> set ?T"
      then have "k \<in> set ?D" using k K by (metis Un_iff set_append)
      then obtain x zs where x: "?D = x # zs" by (cases ?D) auto
      then have "t < f x" using hd_dropWhile [of "\<lambda>a. f a \<le> t" K] by auto
      moreover have "f x \<le> f k" using sD x \<open>k \<in> set ?D\<close> by auto
      ultimately show False using \<open>f k \<le> t\<close> by simp
    qed
    then show "t - m \<le> t - f k" using b by simp }
  { assume t: "t < f k"
    then have "k \<notin> set ?T" using set_takeWhileD [of k "\<lambda>a. f a \<le> t" K] by auto
    then have "k \<in> set ?D" using k K by (metis Un_iff set_append)
    then obtain x zs where x: "?D = x # zs" by (cases ?D) auto
    then have "t < f x" using hd_dropWhile [of "\<lambda>a. f a \<le> t" K] by auto
    moreover have "f x \<le> f k" using sD x \<open>k \<in> set ?D\<close> by auto
    moreover have "n = f x" using a k x by blast
    ultimately show "t < n \<and> n - t \<le> f k - t" by simp }
qed

section \<open>The seeks\<close>

text \<open>The suffix of the list that starts at a node.\<close>

lemma sc_suffix:
  assumes "sc_list c E ps qs" "ps @ qs = us @ a # vs"
  shows "chain (sc_nx c) (Some a) (a # vs)" "sc_heap c a = Some (sc_node c a)" "node_good (sc_node c a)"
    "chain (sc_nx c) (cn_pNext (sc_node c a)) vs"
proof -
  have "chain (sc_nx c) (sc_pPassedHead c) (us @ a # vs)" using assms by (simp add: sc_list_def)
  then show ch: "chain (sc_nx c) (Some a) (a # vs)" by (rule chain_suffix)
  show h: "sc_heap c a = Some (sc_node c a)" "node_good (sc_node c a)"
    using sc_list_node [OF assms(1), of a] assms(2) by auto
  show "chain (sc_nx c) (cn_pNext (sc_node c a)) vs" using ch h(1) by (simp add: sc_nx_def [of c a])
qed

lemma node_loop_all:
  assumes "chain (sc_nx c) p xs" "loop_list (sc_node c) body s xs = Ok r"
  shows "node_loop (sc_heap c) None body p s = Some r"
  using node_loop_list [of c p xs "[]" body s r] assms by simp

text \<open>A seek moves the border in front of a key frame whose time is nearest to the target, or
  changes nothing.\<close>

lemma pts_nearest_pick:
  fixes pts :: "nat \<Rightarrow> int"
  assumes g: "\<forall>b \<in> set (a # vs). node_good (sc_node c b)" and a: "sc_key c a" "cn_nPts (sc_node c a) \<le> t"
    and t: "0 \<le> t" "t \<le> 4611686018427387903" and pts: "\<And>b. pts b = cn_nPts (sc_node c b)"
  shows "\<exists>m k A. loop_list (sc_node c) (pts_nearest c t) (-1, None) (a # vs) =
        Ok (case A of [] \<Rightarrow> Inl (m, Some k) | b # _ \<Rightarrow> Inr ((m, Some k), pts b, b)) \<and>
      (let n = (case A of [] \<Rightarrow> 0x7fffffffffffffff | b # _ \<Rightarrow> pts b);
           f = (if t - m \<le> n - t then k else hd A)
       in f \<in> set (a # vs) \<and> sc_key c f \<and>
          (A = [] \<longrightarrow> t - m \<le> n - t \<and> (\<forall>j \<in> set (a # vs). sc_key c j \<longrightarrow> pts j \<le> m)) \<and>
          (sorted (map pts (filter (sc_key c) (a # vs))) \<longrightarrow>
             (\<forall>j \<in> set (a # vs). sc_key c j \<longrightarrow> \<bar>pts f - t\<bar> \<le> \<bar>pts j - t\<bar>)))"
proof -
  define K where "K = filter (sc_key c) (a # vs)"
  define B where "B = fst (key_split c t (a # vs))"
  define A where "A = snd (key_split c t (a # vs))"
  obtain m p where q: "loop_list (sc_node c) (pts_nearest c t) (-1, None) (a # vs) =
      Ok (case A of [] \<Rightarrow> Inl (m, p) | b # _ \<Rightarrow> Inr ((m, p), pts b, b))"
    "\<forall>k \<in> set B. pts k \<le> m" "(m, p) = (-1, None) \<or> (\<exists>k \<in> set B. (m, p) = (pts k, Some k))"
    using pts_nearest_list [OF g, of t "(-1, None)"] unfolding A_def B_def pts by fastforce
  have B: "B = takeWhile (\<lambda>b. pts b \<le> t) K" and A: "A = dropWhile (\<lambda>b. pts b \<le> t) K"
    unfolding A_def B_def K_def pts by (simp_all add: key_split_def Let_def)
  have aB: "a \<in> set B" using a by (simp add: B K_def pts)
  have "-1 < pts a" using g a(1) by (auto simp: node_good_def sc_key_def pts)
  then have m: "-1 < m" using q(2) aB by force
  then obtain k where k: "k \<in> set B" "m = pts k" "p = Some k" using q(3) by auto
  have mt: "m \<le> t" "k \<in> set K" using k(1,2) set_takeWhileD [of k "\<lambda>b. pts b \<le> t" K] by (auto simp: B)
  define n where "n = (case A of [] \<Rightarrow> 0x7fffffffffffffff | b # _ \<Rightarrow> pts b)"
  have nA: "\<forall>k \<in> set K. \<forall>x zs. dropWhile (\<lambda>a. pts a \<le> t) K = x # zs \<longrightarrow> n = pts x"
    by (auto simp: n_def A)
  have near: "pts j \<le> t \<Longrightarrow> t - m \<le> t - pts j" "t < pts j \<Longrightarrow> t < n \<and> n - t \<le> pts j - t"
    if "sorted (map pts K)" "j \<in> set K" for j
    using nearest_time [OF that(1) mt(1) q(2) [unfolded B] nA that(2)] by auto
  define f where "f = (if t - m \<le> n - t then k else hd A)"
  have f: "f \<in> set K \<and> \<bar>pts f - t\<bar> = min (t - m) (n - t) \<and> (A = [] \<longrightarrow> t - m \<le> n - t)"
  proof (cases A)
    case Nil
    then show ?thesis using mt k(2) t m by (simp add: f_def n_def)
  next
    case (Cons b zs)
    then have "b \<in> set K \<and> \<not> pts b \<le> t"
      using hd_dropWhile [of "\<lambda>b. pts b \<le> t" K] set_dropWhileD [of b "\<lambda>b. pts b \<le> t" K] by (auto simp: A)
    then show ?thesis using mt k(2) Cons by (auto simp: f_def n_def)
  qed
  have "\<bar>pts f - t\<bar> \<le> \<bar>pts j - t\<bar>" if "sorted (map pts K)" "j \<in> set K" for j
    using near [OF that] f by (cases "pts j \<le> t") auto
  then have "sorted (map pts (filter (sc_key c) (a # vs))) \<longrightarrow>
      (\<forall>j \<in> set (a # vs). sc_key c j \<longrightarrow> \<bar>pts f - t\<bar> \<le> \<bar>pts j - t\<bar>)"
    by (auto simp: K_def simp del: filter.simps)
  moreover have "A = [] \<longrightarrow> B = K" using takeWhile_dropWhile_id [of "\<lambda>b. pts b \<le> t" K] by (simp add: A B)
  then have "A = [] \<longrightarrow> (\<forall>j \<in> set (a # vs). sc_key c j \<longrightarrow> pts j \<le> m)"
    using q(2) by (auto simp: K_def simp del: filter.simps)
  then have "f \<in> set (a # vs) \<and> sc_key c f \<and>
      (A = [] \<longrightarrow> t - m \<le> n - t \<and> (\<forall>j \<in> set (a # vs). sc_key c j \<longrightarrow> pts j \<le> m))"
    using f by (simp add: K_def del: filter.simps)
  ultimately show ?thesis using q(1) unfolding k(3)
    by (intro exI [of _ m] exI [of _ k] exI [of _ A])
      (simp only: Let_def n_def [symmetric] f_def [symmetric] simp_thms, blast)
qed

text \<open>When a seek by time is refused: the target is behind the last time known, or no key frame stands
  before the first frame that is later than the target, or all key frames are a second or more
  before it.\<close>

definition seek_pts_refused :: "StreamCache \<Rightarrow> int \<Rightarrow> nat list \<Rightarrow> bool" where
  "seek_pts_refused c t as \<longleftrightarrow> sc_nLastValidPts c < t \<or>
     (\<forall>k \<in> set (takeWhile (\<lambda>a. cn_nPts (sc_node c a) \<le> t) as). \<not> sc_key c k) \<or>
     (\<forall>k \<in> set as. sc_key c k \<longrightarrow> cn_nPts (sc_node c k) + 1000000 \<le> t)"

lemma StreamCacheSeekByPts_at:
  assumes at: "sc_at c ps qs" and t: "0 \<le> t" "t \<le> 4611686018427387903"
  shows "StreamCacheSeekByPts c t = Ok (-1, c) \<and> seek_pts_refused c t (ps @ qs) \<or>
    (\<exists>c' us a vs. StreamCacheSeekByPts c t = Ok (cn_nPts (sc_node c a), c') \<and> ps @ qs = us @ a # vs \<and>
       sc_at c' us (a # vs) \<and> sc_heap c' = sc_heap c \<and> sc_nMaxBufferSize c' = sc_nMaxBufferSize c \<and> sc_key c a \<and>
       (sorted (map (\<lambda>a. cn_nPts (sc_node c a)) (filter (sc_key c) (ps @ qs))) \<longrightarrow>
          (\<forall>k \<in> set (ps @ qs). sc_key c k \<longrightarrow>
             \<bar>cn_nPts (sc_node c a) - t\<bar> \<le> \<bar>cn_nPts (sc_node c k) - t\<bar>)))"
proof -
  let ?pts = "\<lambda>a. cn_nPts (sc_node c a)"
  have l: "sc_list c {} ps qs" using at by (simp add: sc_at_def)
  have g: "\<forall>a \<in> set (ps @ qs). node_good (sc_node c a)" using sc_list_node(2) [OF l] by blast
  obtain r where r: "loop_list (sc_node c) (pts_first c t) () (ps @ qs) = Ok r"
    "\<And>a. r = Inr (Some a) \<Longrightarrow> (\<exists>us vs. ps @ qs = us @ a # vs \<and> sc_key c a \<and> ?pts a \<le> t \<and>
       (\<forall>u \<in> set us. \<not> sc_key c u))"
    "(\<nexists>a. r = Inr (Some a)) \<Longrightarrow> \<forall>k \<in> set (takeWhile (\<lambda>a. ?pts a \<le> t) (ps @ qs)). \<not> sc_key c k"
    using pts_first_list [OF g t(1)] by blast
  have lr: "node_loop (sc_heap c) None (pts_first c t) (sc_pPassedHead c) () = Some r"
    using l by (intro node_loop_all [OF _ r(1)]) (simp add: sc_list_def)
  show ?thesis
  proof (cases "sc_nLastValidPts c < t \<or> (\<nexists>a. r = Inr (Some a))")
    case True
    then have "StreamCacheSeekByPts c t = Ok (-1, c)" using lr
      by (cases r) (auto simp: StreamCacheSeekByPts_def loop_exec_def split: option.splits)
    moreover have "seek_pts_refused c t (ps @ qs)" unfolding seek_pts_refused_def using True r(3) by blast
    ultimately show ?thesis by blast
  next
    case False
    then obtain a us vs where a: "r = Inr (Some a)" "ps @ qs = us @ a # vs" "sc_key c a" "?pts a \<le> t"
      "\<forall>u \<in> set us. \<not> sc_key c u" and v: "\<not> sc_nLastValidPts c < t" using r(2) by blast
    have K: "filter (sc_key c) (ps @ qs) = filter (sc_key c) (a # vs)" using a(2,5) by simp
    have g2: "\<forall>b \<in> set (a # vs). node_good (sc_node c b)" using g a(2) by auto
    obtain m k A where q: "loop_list (sc_node c) (pts_nearest c t) (-1, None) (a # vs) =
        Ok (case A of [] \<Rightarrow> Inl (m, Some k) | b # _ \<Rightarrow> Inr ((m, Some k), ?pts b, b))"
      and pick: "let n = (case A of [] \<Rightarrow> 0x7fffffffffffffff | b # _ \<Rightarrow> ?pts b);
           f = (if t - m \<le> n - t then k else hd A)
       in f \<in> set (a # vs) \<and> sc_key c f \<and>
          (A = [] \<longrightarrow> t - m \<le> n - t \<and> (\<forall>j \<in> set (a # vs). sc_key c j \<longrightarrow> ?pts j \<le> m)) \<and>
          (sorted (map ?pts (filter (sc_key c) (a # vs))) \<longrightarrow>
             (\<forall>j \<in> set (a # vs). sc_key c j \<longrightarrow> \<bar>?pts f - t\<bar> \<le> \<bar>?pts j - t\<bar>))"
      using pts_nearest_pick [OF g2 a(3,4) t refl] by blast
    have lq: "node_loop (sc_heap c) None (pts_nearest c t) (Some a) (-1, None) =
        Some (case A of [] \<Rightarrow> Inl (m, Some k) | b # _ \<Rightarrow> Inr ((m, Some k), ?pts b, b))"
      by (rule node_loop_all [OF sc_suffix(1) [OF l a(2)] q])
    define n where "n = (case A of [] \<Rightarrow> 0x7fffffffffffffff | b # _ \<Rightarrow> ?pts b)"
    define f where "f = (if t - m \<le> n - t then k else hd A)"
    have f: "f \<in> set (a # vs)" "sc_key c f"
      "A = [] \<longrightarrow> t - m \<le> n - t \<and> (\<forall>j \<in> set (a # vs). sc_key c j \<longrightarrow> ?pts j \<le> m)"
      "sorted (map ?pts (filter (sc_key c) (ps @ qs))) \<longrightarrow>
         (\<forall>j \<in> set (a # vs). sc_key c j \<longrightarrow> \<bar>?pts f - t\<bar> \<le> \<bar>?pts j - t\<bar>)"
      using pick unfolding Let_def n_def [symmetric] f_def [symmetric] K by blast+
    have "f \<in> set (ps @ qs)" using f(1) a(2) by auto
    then obtain us' vs' where f': "ps @ qs = us' @ f # vs'" by (meson split_list)
    obtain c' where c': "adjustList c (Some f) = Ok c'" "sc_at c' us' (f # vs')" "sc_heap c' = sc_heap c"
      "sc_pHead c' = Some f" "sc_nMaxBufferSize c' = sc_nMaxBufferSize c"
      using adjustList_at [OF at f', of "Some f"] by auto
    have goal: "\<bar>?pts f - t\<bar> \<le> \<bar>?pts j - t\<bar>"
      if "sorted (map ?pts (filter (sc_key c) (ps @ qs)))" "j \<in> set (ps @ qs)" "sc_key c j" for j
      using that f(4) a(2,5) by auto
    have "StreamCacheSeekByPts c t = (if A = [] \<and> 1000000 \<le> t - m then Ok (-1, c) else Ok (?pts f, c'))"
      using v lr lq a(1) c' sc_suffix(2) [OF l f'] f(3)
      by (cases A) (auto simp: StreamCacheSeekByPts_def loop_exec_def f_def n_def simp del: ebind_eq_Ok)
    moreover have "sc_key c f \<and> (sorted (map ?pts (filter (sc_key c) (ps @ qs))) \<longrightarrow>
        (\<forall>k \<in> set (ps @ qs). sc_key c k \<longrightarrow> \<bar>?pts f - t\<bar> \<le> \<bar>?pts k - t\<bar>))"
      using f(2) goal by blast
    moreover have "seek_pts_refused c t (ps @ qs)" if "A = []" "1000000 \<le> t - m"
      unfolding seek_pts_refused_def using f(3) that a(2,5) by fastforce
    ultimately show ?thesis using f' c'(2,3,5) by (metis (no_types, lifting))
  qed
qed

lemma offset_list:
  assumes "\<forall>a \<in> set as. 0 \<le> cn_nLength (sc_node c a)" "0 \<le> s" "s + sc_lens c as \<le> 2147483647"
    "as \<noteq> []" "t \<le> s + sc_lens c as"
  shows "\<exists>us a vs. loop_list (sc_node c) (offset_body t) s as = Ok (Inr a) \<and> as = us @ a # vs \<and>
    (us = [] \<or> s + sc_lens c us < t) \<and> t \<le> s + sc_lens c (us @ [a])"
  using assms
proof (induction as arbitrary: s)
  case (Cons x as)
  have n: "0 \<le> sc_lens c as" using Cons.prems(1) by (auto simp: sc_lens_def intro!: sum_list_nonneg)
  have i: "i32 (s + cn_nLength (sc_node c x)) = s + cn_nLength (sc_node c x)"
    using Cons.prems n by (auto intro!: i32_id simp: int32_range_def)
  show ?case
  proof (cases "t \<le> s + cn_nLength (sc_node c x)")
    case True
    then show ?thesis by (intro exI [of _ "[]"] exI [of _ x] exI [of _ as]) (simp add: offset_body_def i)
  next
    case False
    then have ne: "as \<noteq> []" using Cons.prems(5) by auto
    obtain us a vs where u: "loop_list (sc_node c) (offset_body t) (s + cn_nLength (sc_node c x)) as = Ok (Inr a)"
      "as = us @ a # vs" "us = [] \<or> s + cn_nLength (sc_node c x) + sc_lens c us < t"
      "t \<le> s + cn_nLength (sc_node c x) + sc_lens c (us @ [a])"
      using Cons.IH [of "s + cn_nLength (sc_node c x)"] Cons.prems ne by (auto simp: algebra_simps)
    show ?thesis using u False
      by (intro exI [of _ "x # us"] exI [of _ a] exI [of _ vs]) (auto simp: offset_body_def i)
  qed
qed simp

text \<open>Where a byte offset splits the frames, relative to the end of the passed ones: the search
  starts at the first passed frame for a negative offset and at the first pending one otherwise;
  all frames before the split end before the offset, and the frame after it reaches the offset.\<close>

definition offset_split :: "StreamCache \<Rightarrow> int \<Rightarrow> nat list \<Rightarrow> nat list \<Rightarrow> nat list \<Rightarrow> nat list \<Rightarrow> bool" where
  "offset_split c off ps qs xs ys \<longleftrightarrow>
     (off < 0 \<or> take (length ps) xs = ps) \<and>
     (xs = (if off < 0 then [] else ps) \<or> sc_lens c xs < sc_lens c ps + off) \<and>
     (if ys = [] then qs = [] \<and> off = 0 else sc_lens c ps + off \<le> sc_lens c (xs @ [hd ys]))"

lemma StreamCacheSeekByOffset_at:
  assumes at: "sc_at c ps qs"
  shows "if off < - sc_lens c ps \<or> sc_lens c qs < off then StreamCacheSeekByOffset c off = Ok (-1, c)
    else (\<exists>c' xs ys. StreamCacheSeekByOffset c off = Ok (0, c') \<and> ps @ qs = xs @ ys \<and> sc_at c' xs ys \<and>
      sc_heap c' = sc_heap c \<and> sc_nMaxBufferSize c' = sc_nMaxBufferSize c \<and>
      offset_split c off ps qs xs ys)"
proof -
  have l: "sc_list c {} ps qs" and k: "sc_counts c ps qs" using at by (auto simp: sc_at_def)
  have k': "sc_nPassedDataSize c = sc_lens c ps" "sc_nDataSize c = sc_lens c qs"
    "sc_lens c ps + sc_lens c qs \<le> 2147483647" using k by (auto simp: sc_counts_def)
  have n: "0 \<le> sc_lens c ps" "0 \<le> sc_lens c qs" using sc_lens_nonneg [OF l] by auto
  have nn: "\<forall>a \<in> set (ps @ qs). 0 \<le> cn_nLength (sc_node c a)"
    using sc_list_node(2) [OF l] by (auto simp: node_good_def)
  have hq: "chain (sc_nx c) (sc_pHead c) qs"
  proof (cases qs)
    case (Cons q qs')
    then show ?thesis using l chain_suffix [of "sc_nx c" "sc_pPassedHead c" ps q qs'] by (simp add: sc_list_def)
  qed (use l in \<open>simp add: sc_list_def\<close>)
  have fin: "\<exists>c' xs ys. StreamCacheSeekByOffset c off = Ok (0, c') \<and> ps @ qs = xs @ ys \<and> sc_at c' xs ys \<and>
      sc_heap c' = sc_heap c \<and> sc_nMaxBufferSize c' = sc_nMaxBufferSize c \<and> offset_split c off ps qs xs ys"
    if run: "StreamCacheSeekByOffset c off = ebind (adjustList c (hd_ptr ys)) (\<lambda>c1. Ok (0, c1))"
      and eq: "ps @ qs = xs @ ys" and pos: "offset_split c off ps qs xs ys" for xs ys
    using adjustList_at [OF at eq refl] run eq pos by auto
  show ?thesis
  proof (cases "off < - sc_lens c ps \<or> sc_lens c qs < off")
    case True
    then show ?thesis by (simp add: StreamCacheSeekByOffset_def k')
  next
    case rng: False
    show ?thesis
    proof (cases "off < 0")
      case True
      have ne: "ps @ qs \<noteq> []" using rng True by auto
      have pre: "0 + sc_lens c (ps @ qs) \<le> 2147483647" "off + sc_lens c ps \<le> 0 + sc_lens c (ps @ qs)"
        using True n k' by auto
      obtain us a vs where u: "loop_list (sc_node c) (offset_body (off + sc_lens c ps)) 0 (ps @ qs) = Ok (Inr a)"
        "ps @ qs = us @ a # vs" "us = [] \<or> sc_lens c us < off + sc_lens c ps" "off + sc_lens c ps \<le> sc_lens c (us @ [a])"
        using offset_list [OF nn order_refl pre(1) ne pre(2)] unfolding add_0 by blast
      have ch: "chain (sc_nx c) (sc_pPassedHead c) (ps @ qs)" using l by (simp add: sc_list_def)
      have "StreamCacheSeekByOffset c off = ebind (adjustList c (hd_ptr (a # vs))) (\<lambda>c1. Ok (0, c1))"
        using rng True k' node_loop_all [OF ch u(1)] by (simp add: StreamCacheSeekByOffset_def loop_exec_def)
      moreover have "offset_split c off ps qs us (a # vs)" using u(3,4) True by (auto simp: offset_split_def)
      ultimately show ?thesis using fin [OF _ u(2)] rng by simp
    next
      case off: False
      show ?thesis
      proof (cases qs)
        case Nil
        then have "StreamCacheSeekByOffset c off = ebind (adjustList c (hd_ptr [])) (\<lambda>c1. Ok (0, c1))"
          using rng off k' node_loop_all [OF hq, of "offset_body off" 0] by (simp add: StreamCacheSeekByOffset_def loop_exec_def)
        moreover have "offset_split c off ps qs ps []" using Nil rng off by (simp add: offset_split_def)
        ultimately show ?thesis using fin [of "[]" ps] Nil rng by simp
      next
        case (Cons q qs')
        have pre: "0 + sc_lens c qs \<le> 2147483647" "off \<le> 0 + sc_lens c qs"
          and nq: "\<forall>a \<in> set qs. 0 \<le> cn_nLength (sc_node c a)" using off rng n k' nn by auto
        obtain us a vs where u: "loop_list (sc_node c) (offset_body off) 0 qs = Ok (Inr a)"
          "qs = us @ a # vs" "us = [] \<or> sc_lens c us < off" "off \<le> sc_lens c (us @ [a])"
          using offset_list [OF nq order_refl pre(1) _ pre(2)] Cons unfolding add_0 by blast
        have "StreamCacheSeekByOffset c off = ebind (adjustList c (hd_ptr (a # vs))) (\<lambda>c1. Ok (0, c1))"
          using rng off k' node_loop_all [OF hq u(1)] by (simp add: StreamCacheSeekByOffset_def loop_exec_def)
        moreover have "offset_split c off ps qs (ps @ us) (a # vs)" using u(3,4) off by (auto simp: offset_split_def)
        ultimately show ?thesis using fin [of "a # vs" "ps @ us"] u(2) rng by simp
      qed
    qed
  qed
qed

text \<open>The loops of the seek by clock references.\<close>

lemma pcr_first_list:
  "\<exists>r. loop_list (sc_node c) (pcr_first t) () as = Ok r \<and>
    (r = Inl () \<longrightarrow> (\<forall>a \<in> set as. cn_nPcr (sc_node c a) = -1)) \<and>
    (\<forall>a. r = Inr (Some a) \<longrightarrow> (\<exists>us vs. as = us @ a # vs) \<and> cn_nPcr (sc_node c a) \<noteq> -1 \<and> cn_nPcr (sc_node c a) \<le> t)"
proof (induction as)
  case (Cons x as)
  then obtain r where r: "loop_list (sc_node c) (pcr_first t) () as = Ok r"
    "r = Inl () \<Longrightarrow> \<forall>a \<in> set as. cn_nPcr (sc_node c a) = -1"
    "\<And>a. r = Inr (Some a) \<Longrightarrow> (\<exists>us vs. as = us @ a # vs) \<and> cn_nPcr (sc_node c a) \<noteq> -1 \<and> cn_nPcr (sc_node c a) \<le> t"
    by blast
  have "\<exists>us vs. x # as = us @ a # vs" if "\<exists>us vs. as = us @ a # vs" for a
    using that by (metis append_Cons)
  moreover have "\<exists>us vs. x # as = us @ x # vs" by (metis append_Nil)
  ultimately show ?case using r by (auto simp: pcr_first_def)
qed simp

lemma pcr_nearest_list:
  "\<exists>r. loop_list (sc_node c) (pcr_nearest t) s as = Ok r \<and>
    (case r of
       Inl s' \<Rightarrow> s' = s \<or> (\<exists>b \<in> set as. snd s' = Some b)
     | Inr (s', v, x) \<Rightarrow> \<exists>us vs. as = us @ x # vs \<and> (s' = s \<or> (\<exists>b \<in> set us. snd s' = Some b)))"
proof (induction as arbitrary: s)
  case (Cons x as)
  show ?case
  proof (cases "\<not> (fst s < cn_nPcr (sc_node c x) \<and> cn_nPcr (sc_node c x) \<le> t) \<and> t < cn_nPcr (sc_node c x)")
    case True
    then show ?thesis by (fastforce simp: pcr_nearest_def)
  next
    case False
    define s1 where "s1 = (if fst s < cn_nPcr (sc_node c x) \<and> cn_nPcr (sc_node c x) \<le> t
      then (cn_nPcr (sc_node c x), Some x) else s)"
    have step: "loop_list (sc_node c) (pcr_nearest t) s (x # as) = loop_list (sc_node c) (pcr_nearest t) s1 as"
      using False by (auto simp: pcr_nearest_def s1_def)
    have s1: "s1 = s \<or> snd s1 = Some x" by (simp add: s1_def)
    obtain r where r: "loop_list (sc_node c) (pcr_nearest t) s1 as = Ok r"
      "case r of Inl s' \<Rightarrow> s' = s1 \<or> (\<exists>b \<in> set as. snd s' = Some b)
       | Inr (s', v, x) \<Rightarrow> \<exists>us vs. as = us @ x # vs \<and> (s' = s1 \<or> (\<exists>b \<in> set us. snd s' = Some b))"
      using Cons.IH [of s1] by blast
    show ?thesis
    proof (cases r)
      case (Inl s')
      then show ?thesis using step r s1 by auto
    next
      case (Inr q)
      obtain s' v y where q: "q = (s', v, y)" by (cases q)
      obtain us vs where u: "as = us @ y # vs" "s' = s1 \<or> (\<exists>b \<in> set us. snd s' = Some b)" using r(2) Inr q by auto
      have "x # as = (x # us) @ y # vs \<and> (s' = s \<or> (\<exists>b \<in> set (x # us). snd s' = Some b))" using u s1 by auto
      then show ?thesis using step r(1) Inr q by (intro exI [of _ r]) (simp only: sum.case prod.case, blast)
    qed
  qed
qed simp

lemma pcr_mapped_list:
  assumes "\<forall>a \<in> set as. node_good (sc_node c a)"
  shows "\<exists>r. loop_list (sc_node c) (pcr_mapped c t off) s as = Ok r \<and>
    (case r of Inl s' \<Rightarrow> snd s' \<in> insert (snd s) (set as)
     | Inr (s', v, x) \<Rightarrow> snd s' \<in> insert (snd s) (set as) \<and> x \<in> set as)"
  using assms
proof (induction as arbitrary: s)
  case (Cons x as)
  obtain k where k: "StreamCacheIsKeyFrame c (sc_node c x) = Ok k"
    using Cons.prems StreamCacheIsKeyFrame_total by fastforce
  define s1 where "s1 = (if cn_nPts (sc_node c x) \<noteq> -1 \<and> k \<and> cn_nPts (sc_node c x) + off \<le> t \<and>
    fst s < cn_nPts (sc_node c x) + off then (cn_nPts (sc_node c x) + off, x) else s)"
  show ?case
  proof (cases "cn_nPts (sc_node c x) \<noteq> -1 \<and> k \<and> t < cn_nPts (sc_node c x) + off")
    case True
    then show ?thesis using k by (simp add: pcr_mapped_def Let_def)
  next
    case False
    have step: "loop_list (sc_node c) (pcr_mapped c t off) s (x # as) = loop_list (sc_node c) (pcr_mapped c t off) s1 as"
      using False k by (auto simp: pcr_mapped_def s1_def Let_def)
    obtain r where r: "loop_list (sc_node c) (pcr_mapped c t off) s1 as = Ok r"
      "case r of Inl s' \<Rightarrow> snd s' \<in> insert (snd s1) (set as)
       | Inr (s', v, x) \<Rightarrow> snd s' \<in> insert (snd s1) (set as) \<and> x \<in> set as"
      using Cons.IH [of s1] Cons.prems by auto
    have "snd s1 \<in> {snd s, x}" by (simp add: s1_def)
    then show ?thesis using step r by (intro exI [of _ r]) (auto split: sum.splits prod.splits)
  qed
qed simp

text \<open>The outcome of a seek: refused with nothing changed, or the border moved.\<close>

definition seek_ok :: "StreamCache \<Rightarrow> nat list \<Rightarrow> (int \<times> StreamCache) exec \<Rightarrow> bool" where
  "seek_ok c L res \<longleftrightarrow> res = Ok (-1, c) \<or>
     (\<exists>v c' xs ys. res = Ok (v, c') \<and> L = xs @ ys \<and> sc_at c' xs ys \<and> sc_heap c' = sc_heap c \<and>
        sc_nMaxBufferSize c' = sc_nMaxBufferSize c)"

lemma adjustList_seek_ok:
  assumes at: "sc_at c ps qs" and p: "case p of None \<Rightarrow> True | Some f \<Rightarrow> f \<in> set (ps @ qs)"
  shows "seek_ok c (ps @ qs) (ebind (adjustList c p) (\<lambda>c1. Ok (v, c1)))"
proof -
  have "\<exists>xs ys. ps @ qs = xs @ ys \<and> p = hd_ptr ys"
  proof (cases p)
    case None
    then show ?thesis by (metis append_Nil2 hd_ptr_simps(1))
  next
    case (Some f)
    then show ?thesis using p by (metis (no_types, lifting) hd_ptr_simps(2) option.case(2) split_list)
  qed
  then obtain xs ys where x: "ps @ qs = xs @ ys" "p = hd_ptr ys" by blast
  show ?thesis using adjustList_at [OF at x] x(1) by (auto simp: seek_ok_def)
qed

lemma pcr_choose_ok:
  assumes at: "sc_at c ps qs" and eq: "ps @ qs = us @ b # mid @ ys" and p: "p = hd_ptr ys"
  shows "seek_ok c (ps @ qs) (pcr_choose c t (Some b) after p)"
proof -
  have l: "sc_list c {} ps qs" using at by (simp add: sc_at_def)
  have g: "\<forall>a \<in> set mid. node_good (sc_node c a)" using sc_list_node(2) [OF l] eq by auto
  note sfx = sc_suffix [OF l eq]
  obtain r where r: "loop_list (sc_node c) (pcr_mapped c t (cn_nPcr (sc_node c b) - cn_nPts (sc_node c b)))
      (cn_nPcr (sc_node c b), b) mid = Ok r"
    "case r of Inl s' \<Rightarrow> snd s' \<in> insert b (set mid)
     | Inr (s', v, x) \<Rightarrow> snd s' \<in> insert b (set mid) \<and> x \<in> set mid"
    using pcr_mapped_list [OF g, of t "cn_nPcr (sc_node c b) - cn_nPts (sc_node c b)" "(cn_nPcr (sc_node c b), b)"]
    unfolding snd_conv by blast
  have lp: "node_loop (sc_heap c) p (pcr_mapped c t (cn_nPcr (sc_node c b) - cn_nPts (sc_node c b)))
      (cn_pNext (sc_node c b)) (cn_nPcr (sc_node c b), b) = Some r"
    unfolding p by (rule node_loop_list [OF sfx(4) r(1)])
  have mem: "set (b # mid) \<subseteq> set (ps @ qs)" "case p of None \<Rightarrow> True | Some f \<Rightarrow> f \<in> set (ps @ qs)"
    unfolding p eq by (auto split: option.split simp: hd_ptr_def split: list.splits)
  obtain found pf q where ch: "pcr_choose c t (Some b) after p =
      (if q then Ok (-1, c) else ebind (adjustList c pf) (\<lambda>c1. Ok (found, c1)))"
    and pf: "case pf of None \<Rightarrow> True | Some f \<Rightarrow> f \<in> set (ps @ qs)"
  proof (cases r)
    case (Inl s)
    then show ?thesis using that [of "p = None \<and> 3000000 < t - (if after - t < t - fst s then after else fst s)"
        "if after - t < t - fst s then p else Some (snd s)" "if after - t < t - fst s then after else fst s"]
      using sfx(2) lp r(2) mem by (cases s) (auto simp: pcr_choose_def loop_exec_def simp del: ebind_eq_Ok)
  next
    case (Inr y)
    obtain s v x where y: "y = (s, v, x)" by (cases y)
    show ?thesis using that [of "False"
        "if v - t < t - fst s then Some x else Some (snd s)" "if v - t < t - fst s then v else fst s"]
      using sfx(2) lp r(2) mem Inr y
      by (cases s; cases "v - t < t - fst s") (auto simp: pcr_choose_def loop_exec_def simp del: ebind_eq_Ok)
  qed
  show ?thesis unfolding ch using adjustList_seek_ok [OF at pf] by (simp add: seek_ok_def)
qed

lemma StreamCacheSeekByPcr_ok:
  assumes at: "sc_at c ps qs"
  shows "seek_ok c (ps @ qs) (StreamCacheSeekByPcr c t)"
proof (cases "sc_pNodeWithLastValidPcr c")
  case None
  then show ?thesis by (simp add: StreamCacheSeekByPcr_def seek_ok_def)
next
  case (Some d)
  have l: "sc_list c {} ps qs" using at by (simp add: sc_at_def)
  have d: "d \<in> set (ps @ qs)" "cn_nPcr (sc_node c d) \<noteq> -1"
    using l Some by (auto simp: sc_list_def sc_last_ok_def)
  have ch: "chain (sc_nx c) (sc_pPassedHead c) (ps @ qs)" using l by (simp add: sc_list_def)
  obtain r where r: "loop_list (sc_node c) (pcr_first t) () (ps @ qs) = Ok r" "r \<noteq> Inl ()"
    "\<And>a. r = Inr (Some a) \<Longrightarrow> (\<exists>us vs. ps @ qs = us @ a # vs) \<and> cn_nPcr (sc_node c a) \<noteq> -1 \<and> cn_nPcr (sc_node c a) \<le> t"
    using pcr_first_list [of c t "ps @ qs"] d by blast
  note lr = node_loop_all [OF ch r(1)]
  show ?thesis
  proof (cases "sc_nLastValidPts c - cn_nPts (sc_node c d) + sc_nLastValidPcr c < t \<or> r = Inr None")
    case True
    then show ?thesis using Some lr sc_list_node(1) [OF l d(1)]
      by (auto simp: StreamCacheSeekByPcr_def loop_exec_def seek_ok_def)
  next
    case False
    then obtain a where a: "r = Inr (Some a)" using r(2) by (cases r) auto
    then obtain us vs where u: "ps @ qs = us @ a # vs" "cn_nPcr (sc_node c a) \<noteq> -1" "cn_nPcr (sc_node c a) \<le> t"
      using r(3) by blast
    have "node_good (sc_node c a)" using sc_suffix(3) [OF l u(1)] .
    then have "loop_list (sc_node c) (pcr_nearest t) (-1, None) (a # vs) =
        loop_list (sc_node c) (pcr_nearest t) (cn_nPcr (sc_node c a), Some a) vs"
      using u(2,3) by (simp add: pcr_nearest_def node_good_def)
    then obtain q where q: "loop_list (sc_node c) (pcr_nearest t) (-1, None) (a # vs) = Ok q"
      "case q of Inl s' \<Rightarrow> s' = (cn_nPcr (sc_node c a), Some a) \<or> (\<exists>b \<in> set vs. snd s' = Some b)
       | Inr (s', v, x) \<Rightarrow> \<exists>ws zs. vs = ws @ x # zs \<and>
           (s' = (cn_nPcr (sc_node c a), Some a) \<or> (\<exists>b \<in> set ws. snd s' = Some b))"
      using pcr_nearest_list [of c t "(cn_nPcr (sc_node c a), Some a)" vs] by auto
    note lq = node_loop_all [OF sc_suffix(1) [OF l u(1)] q(1)]
    have run: "StreamCacheSeekByPcr c t = (case q of
          Inl s \<Rightarrow> pcr_choose c t (snd s) 0x7fffffffffffffff None
        | Inr (s, after, x) \<Rightarrow> pcr_choose c t (snd s) after (Some x))"
      using False Some lr lq a sc_list_node(1) [OF l d(1)]
      by (simp add: StreamCacheSeekByPcr_def loop_exec_def)
    show ?thesis
    proof (cases q)
      case (Inl s)
      then obtain b where b: "snd s = Some b" "b \<in> set (a # vs)" using q(2) by auto
      then obtain ws zs where "a # vs = ws @ b # zs" by (meson split_list)
      then have "ps @ qs = (us @ ws) @ b # zs @ []" using u(1) by simp
      from pcr_choose_ok [OF at this, of None] show ?thesis using run Inl b by simp
    next
      case (Inr y)
      obtain s v x where y: "y = (s, v, x)" by (cases y)
      obtain ws zs where w: "vs = ws @ x # zs"
        "s = (cn_nPcr (sc_node c a), Some a) \<or> (\<exists>b \<in> set ws. snd s = Some b)" using q(2) Inr y by auto
      then obtain b where b: "snd s = Some b" "b \<in> set (a # ws)" by auto
      then obtain w1 w2 where "a # ws = w1 @ b # w2" by (meson split_list)
      then have "ps @ qs = (us @ w1) @ b # w2 @ (x # zs)" using u(1) w(1) by (metis append_assoc append_Cons)
      from pcr_choose_ok [OF at this, of "Some x"] show ?thesis using run Inr y b by simp
    qed
  qed
qed

section \<open>Runs of the cache\<close>

text \<open>The calls of the player. A frame is added with the address \<open>malloc\<close> gave for its node.\<close>

datatype cache_op =
    CacheAdd nat CacheNode
  | CacheTake
  | CacheFlushAll
  | CacheSeek int
  | CacheSetSize int int
  | CacheSetFormat int int int

text \<open>The calls the runs below consist of: the address of a node is fresh, the frame is whole, the
  sizes fit the counters, and when no frame is pending, the frame played last is smaller than the
  buffer. The last condition is not ensured by the player (a size can be set below the length of a
  frame): without it the call may not return. The time to seek to, in microseconds, is not
  negative and below 2^62.\<close>

definition cache_add_ok :: "nat \<Rightarrow> CacheNode \<Rightarrow> StreamCache \<Rightarrow> bool" where
  "cache_add_ok a node c \<longleftrightarrow> sc_heap c a = None \<and> node_good node \<and>
     0 \<le> kept_size (sc_nMaxBufferSize c) \<and>
     (sc_pHead c = None \<longrightarrow> (case sc_pTail c of None \<Rightarrow> True
        | Some t \<Rightarrow> cn_nLength (sc_node c t) < sc_nMaxBufferSize c)) \<and>
     sc_nDataSize c + sc_nPassedDataSize c + cn_nLength node \<le> 2147483647 \<and>
     sc_nFrameNum c + sc_nPassedFrameNum c < 2147483647"

definition cache_op_ok :: "cache_op \<Rightarrow> StreamCache \<Rightarrow> bool" where
  "cache_op_ok op c = (case op of
       CacheAdd a node \<Rightarrow> cache_add_ok a node c
     | CacheSeek t \<Rightarrow> 0 \<le> t \<and> t \<le> 4611686018427387903
     | _ \<Rightarrow> True)"

text \<open>One call: \<open>None\<close> when it does not return; else its outcome, with the blocks it freed.\<close>

definition cache_call ::
  "(StreamCache \<Rightarrow> int \<Rightarrow> int option) \<Rightarrow> int \<Rightarrow> cache_op \<Rightarrow> StreamCache
     \<Rightarrow> (StreamCache \<times> addr mem_event list) exec option" where
  "cache_call getSeekOffset config op c = (case op of
       CacheAdd a node \<Rightarrow> map_option (\<lambda>r. ebind r (\<lambda>(_, c1, es). Ok (c1, es))) (StreamCacheAddOneFrame c node (Some a))
     | CacheTake \<Rightarrow> Some (ebind (StreamCacheFlushOneFrame c) (\<lambda>c1. Ok (c1, [])))
     | CacheFlushAll \<Rightarrow> Some (StreamCacheFlushAll c)
     | CacheSeek t \<Rightarrow> Some (ebind (StreamCacheSeekTo getSeekOffset c t) (\<lambda>(_, c1). Ok (c1, [])))
     | CacheSetSize start n \<Rightarrow> Some (Ok (StreamCacheSetSize config c start n, []))
     | CacheSetFormat f v b \<Rightarrow> Some (Ok (StreamCacheSetMediaFormat c f v b, [])))"

fun cache_run ::
  "(StreamCache \<Rightarrow> int \<Rightarrow> int option) \<Rightarrow> int \<Rightarrow> cache_op list \<Rightarrow> StreamCache
     \<Rightarrow> (StreamCache \<times> addr mem_event list) exec option" where
  "cache_run getSeekOffset config [] c = Some (Ok (c, []))"
| "cache_run getSeekOffset config (op # ops) c =
     (case cache_call getSeekOffset config op c of
        Some (Ok (c1, es)) \<Rightarrow>
          map_option (\<lambda>r. ebind r (\<lambda>(c2, fs). Ok (c2, es @ fs))) (cache_run getSeekOffset config ops c1)
      | r \<Rightarrow> r)"

fun cache_run_ok :: "(StreamCache \<Rightarrow> int \<Rightarrow> int option) \<Rightarrow> int \<Rightarrow> cache_op list \<Rightarrow> StreamCache \<Rightarrow> bool" where
  "cache_run_ok getSeekOffset config [] c = True"
| "cache_run_ok getSeekOffset config (op # ops) c \<longleftrightarrow> cache_op_ok op c \<and>
     (case cache_call getSeekOffset config op c of
        Some (Ok (c1, es)) \<Rightarrow> cache_run_ok getSeekOffset config ops c1
      | _ \<Rightarrow> True)"

definition cache_added :: "cache_op list \<Rightarrow> CacheNode list" where
  "cache_added ops = concat (map (\<lambda>op. case op of CacheAdd _ n \<Rightarrow> [n] | _ \<Rightarrow> []) ops)"

definition sc_blocks :: "StreamCache \<Rightarrow> nat list \<Rightarrow> addr mem_event multiset" where
  "sc_blocks c as = mset (concat (map (\<lambda>a. sc_free_node (sc_node c a)) as))"

lemma sc_blocks_simps [simp]:
  "sc_blocks c [] = {#}" "sc_blocks c (a # as) = mset (sc_free_node (sc_node c a)) + sc_blocks c as"
  "sc_blocks c (as @ bs) = sc_blocks c as + sc_blocks c bs"
  by (simp_all add: sc_blocks_def)

lemma sc_blocks_cong:
  "(\<And>a. a \<in> set as \<Longrightarrow> cn_frame (sc_node c a) = cn_frame (sc_node d a)) \<Longrightarrow> sc_blocks c as = sc_blocks d as"
  by (induction as) (auto intro!: arg_cong [where f = mset] cn_frame_eqD(6))

text \<open>One call on a sound cache: it returns, the cache is sound after it, and no block is lost.\<close>

definition call_ok :: "StreamCache \<Rightarrow> nat list \<Rightarrow> CacheNode list \<Rightarrow> (StreamCache \<times> addr mem_event list) exec option \<Rightarrow> bool" where
  "call_ok c L new res \<longleftrightarrow> (\<exists>c' es ps qs. res = Some (Ok (c', es)) \<and> sc_at c' ps qs \<and>
     mset es + sc_blocks c' (ps @ qs) = sc_blocks c L + mset (concat (map sc_free_node new)))"

lemma call_okI:
  "res = Some (Ok (c', es)) \<Longrightarrow> sc_at c' ps qs \<Longrightarrow>
     mset es + sc_blocks c' (ps @ qs) = sc_blocks c L + mset (concat (map sc_free_node new)) \<Longrightarrow> call_ok c L new res"
  unfolding call_ok_def by blast

lemma cache_add_at:
  assumes at: "sc_at c ps qs" and ok: "cache_add_ok a node c"
  shows "\<exists>n c'. StreamCacheAddOneFrame c node (Some a) =
      Some (Ok (0, c', concat (map (\<lambda>b. sc_free_node (sc_node c b)) (take n ps)))) \<and>
    sc_at c' (drop n ps) (qs @ [a]) \<and> cn_frame (sc_node c' a) = cn_frame node \<and>
    (\<forall>b \<in> set (drop n ps @ qs). cn_frame (sc_node c' b) = cn_frame (sc_node c b))"
proof -
  have l: "sc_list c {} ps qs" and k: "sc_counts c ps qs" using at by (auto simp: sc_at_def)
  have "sc_room_ok c ps qs" using ok l by (auto simp: cache_add_ok_def sc_room_ok_def sc_list_def last_ptr_def)
  moreover have "sc_lens c (ps @ qs) + cn_nLength node \<le> 2147483647" "length (ps @ qs) < 2147483647"
    using ok k by (auto simp: cache_add_ok_def sc_counts_def)
  ultimately show ?thesis
    using StreamCacheAddOneFrame_at [OF at, of a node] ok by (simp add: cache_add_ok_def) blast
qed

lemma cache_add_ok_call:
  assumes at: "sc_at c ps qs" and ok: "cache_add_ok a node c"
  shows "call_ok c (ps @ qs) [node] (cache_call gso config (CacheAdd a node) c)"
proof -
  obtain n c' where n: "StreamCacheAddOneFrame c node (Some a) =
      Some (Ok (0, c', concat (map (\<lambda>b. sc_free_node (sc_node c b)) (take n ps))))"
    "sc_at c' (drop n ps) (qs @ [a])" "cn_frame (sc_node c' a) = cn_frame node"
    "\<forall>b \<in> set (drop n ps @ qs). cn_frame (sc_node c' b) = cn_frame (sc_node c b)"
    using cache_add_at [OF at ok] by blast
  have "sc_blocks c' (drop n ps @ qs) = sc_blocks c (drop n ps @ qs)" using n(4) by (intro sc_blocks_cong) auto
  moreover have "sc_blocks c ps = sc_blocks c (take n ps) + sc_blocks c (drop n ps)"
    by (metis append_take_drop_id sc_blocks_simps(3))
  ultimately have "sc_blocks c (take n ps) + sc_blocks c' (drop n ps @ (qs @ [a])) =
      sc_blocks c (ps @ qs) + mset (sc_free_node node)"
    using cn_frame_eqD(6) [OF n(3)] by (simp add: ac_simps)
  then show ?thesis using n(1) by (intro call_okI [OF _ n(2)]) (simp_all add: cache_call_def sc_blocks_def)
qed

lemma StreamCacheFlushAll_at:
  assumes at: "sc_at c ps qs"
  shows "\<exists>c'. StreamCacheFlushAll c = Ok (c', concat (map (\<lambda>a. sc_free_node (sc_node c a)) (ps @ qs))) \<and> sc_at c' [] []"
    "\<exists>c'. StreamCacheDestroy c = Ok (c', concat (map (\<lambda>a. sc_free_node (sc_node c a)) (ps @ qs))) \<and> sc_heap c' = Map.empty"
proof -
  have "sc_list c {} ps qs" using at by (simp add: sc_at_def)
  then have "chain (sc_nx c) (sc_pPassedHead c) (ps @ qs)" "dom (sc_heap c) = set (ps @ qs)" by (auto simp: sc_list_def)
  from sc_free_all_chain [OF this, of "[]"]
  show "\<exists>c'. StreamCacheFlushAll c = Ok (c', concat (map (\<lambda>a. sc_free_node (sc_node c a)) (ps @ qs))) \<and> sc_at c' [] []"
    "\<exists>c'. StreamCacheDestroy c = Ok (c', concat (map (\<lambda>a. sc_free_node (sc_node c a)) (ps @ qs))) \<and> sc_heap c' = Map.empty"
    by (simp_all add: StreamCacheFlushAll_def StreamCacheDestroy_def sc_at_def sc_list_def sc_counts_def sc_last_ok_def)
qed

text \<open>The invariant only reads the list and its counters.\<close>

lemma sc_at_fields:
  assumes "sc_heap c' = sc_heap c" "sc_pHead c' = sc_pHead c" "sc_pTail c' = sc_pTail c"
    "sc_pPassedHead c' = sc_pPassedHead c" "sc_nDataSize c' = sc_nDataSize c" "sc_nFrameNum c' = sc_nFrameNum c"
    "sc_nPassedDataSize c' = sc_nPassedDataSize c" "sc_nPassedFrameNum c' = sc_nPassedFrameNum c"
    "sc_nLastValidPts c' = sc_nLastValidPts c" "sc_pNodeWithLastValidPts c' = sc_pNodeWithLastValidPts c"
    "sc_nLastValidPcr c' = sc_nLastValidPcr c" "sc_pNodeWithLastValidPcr c' = sc_pNodeWithLastValidPcr c"
  shows "sc_at c' ps qs \<longleftrightarrow> sc_at c ps qs" "sc_blocks c' = sc_blocks c"
proof -
  note e = sc_node_cong [OF assms(1)]
  show "sc_at c' ps qs \<longleftrightarrow> sc_at c ps qs"
    unfolding sc_at_def sc_list_def sc_counts_def sc_last_ok_def assms e by (rule refl)
  show "sc_blocks c' = sc_blocks c" by (simp add: sc_blocks_def fun_eq_iff e)
qed

lemma StreamCacheSeekTo_ok:
  assumes at: "sc_at c ps qs" and t: "0 \<le> t" "t \<le> 4611686018427387903"
  shows "seek_ok c (ps @ qs) (StreamCacheSeekTo gso c t)"
proof -
  have p: "seek_ok c (ps @ qs) (StreamCacheSeekByPts c t)"
    using StreamCacheSeekByPts_at [OF at t] unfolding seek_ok_def by blast
  have o: "seek_ok c (ps @ qs) (ebind (StreamCacheSeekByOffset c off) (\<lambda>(ret, c1).
      Ok (if ret = 0 then t else ret, c1)))" for off
  proof (cases "off < - sc_lens c ps \<or> sc_lens c qs < off")
    case True
    then show ?thesis using StreamCacheSeekByOffset_at [OF at, of off] by (simp add: seek_ok_def)
  next
    case False
    then obtain c' xs ys where "StreamCacheSeekByOffset c off = Ok (0, c')" "ps @ qs = xs @ ys" "sc_at c' xs ys"
      "sc_heap c' = sc_heap c" "sc_nMaxBufferSize c' = sc_nMaxBufferSize c"
      using StreamCacheSeekByOffset_at [OF at, of off] by (simp only: if_False) blast
    then show ?thesis unfolding seek_ok_def by (intro disjI2) auto
  qed
  show ?thesis
  proof (cases "sc_eContainerFormat c = CDX_PARSER_TS \<or> sc_eContainerFormat c = CDX_PARSER_BD")
    case True
    then show ?thesis using o by (cases "gso c t") (simp_all add: StreamCacheSeekTo_def, simp add: seek_ok_def)
  next
    case False
    then show ?thesis using p StreamCacheSeekByPcr_ok [OF at] by (simp add: StreamCacheSeekTo_def)
  qed
qed

lemma seek_ok_call:
  assumes "seek_ok c (ps @ qs) r" "sc_at c ps qs"
  shows "call_ok c (ps @ qs) [] (Some (ebind r (\<lambda>(_, c1). Ok (c1, []))))"
proof -
  consider "r = Ok (-1, c)" | v c' xs ys where "r = Ok (v, c')" "ps @ qs = xs @ ys" "sc_at c' xs ys" "sc_heap c' = sc_heap c"
    using assms(1) by (auto simp: seek_ok_def)
  then show ?thesis
  proof cases
    case 1
    then show ?thesis by (intro call_okI [OF _ assms(2)]) simp_all
  next
    case 2
    have "sc_blocks c' (xs @ ys) = sc_blocks c (ps @ qs)"
      unfolding 2(2) using sc_node_cong(1) [OF 2(4)] by (simp add: sc_blocks_def)
    then show ?thesis using 2(1) by (intro call_okI [OF _ 2(3)]) (simp_all del: sc_blocks_simps)
  qed
qed

lemma cache_call_ok:
  assumes at: "sc_at c ps qs" and ok: "cache_op_ok op c"
  shows "call_ok c (ps @ qs) (cache_added [op]) (cache_call gso config op c)"
proof (cases op)
  case (CacheAdd a node)
  then show ?thesis using cache_add_ok_call [OF at] ok by (simp add: cache_op_ok_def cache_added_def)
next
  case CacheTake
  show ?thesis
  proof (cases qs)
    case Nil
    then have "StreamCacheFlushOneFrame c = Ok c"
      using at by (simp add: StreamCacheFlushOneFrame_def sc_at_def sc_list_def)
    then show ?thesis using CacheTake by (intro call_okI [OF _ at]) (simp_all add: cache_call_def cache_added_def)
  next
    case (Cons q qs')
    then obtain c' where c': "StreamCacheFlushOneFrame c = Ok c'" "sc_at c' (ps @ [q]) qs'" "sc_heap c' = sc_heap c"
      using StreamCacheFlushOneFrame_at [of c ps q qs'] at by auto
    have "sc_blocks c' ((ps @ [q]) @ qs') = sc_blocks c (ps @ qs)"
      using sc_node_cong(1) [OF c'(3)] Cons by (simp add: sc_blocks_def)
    then show ?thesis using c'(1) CacheTake
      by (intro call_okI [OF _ c'(2)]) (simp_all add: cache_call_def cache_added_def del: sc_blocks_simps append_assoc)
  qed
next
  case CacheFlushAll
  obtain c' where c': "StreamCacheFlushAll c = Ok (c', concat (map (\<lambda>a. sc_free_node (sc_node c a)) (ps @ qs)))"
    "sc_at c' [] []"
    using StreamCacheFlushAll_at(1) [OF at] by blast
  then show ?thesis using CacheFlushAll
    by (intro call_okI [OF _ c'(2), of _ "concat (map (\<lambda>a. sc_free_node (sc_node c a)) (ps @ qs))"])
      (simp_all add: cache_call_def cache_added_def sc_blocks_def)
next
  case (CacheSeek t)
  then show ?thesis using seek_ok_call [OF StreamCacheSeekTo_ok [OF at, of t gso] at] ok
    by (simp add: cache_call_def cache_added_def cache_op_ok_def)
next
  case (CacheSetSize m n)
  have "sc_at (StreamCacheSetSize config c m n) ps qs \<longleftrightarrow> sc_at c ps qs"
    "sc_blocks (StreamCacheSetSize config c m n) = sc_blocks c"
    by (rule sc_at_fields; simp add: StreamCacheSetSize_def Let_def)+
  then have "sc_at (StreamCacheSetSize config c m n) ps qs" "sc_blocks (StreamCacheSetSize config c m n) = sc_blocks c" using at by auto
  then show ?thesis using CacheSetSize by (intro call_okI [of _ "StreamCacheSetSize config c m n" "[]"]) (simp_all add: cache_call_def cache_added_def)
next
  case (CacheSetFormat f v b)
  have "sc_at (StreamCacheSetMediaFormat c f v b) ps qs \<longleftrightarrow> sc_at c ps qs"
    "sc_blocks (StreamCacheSetMediaFormat c f v b) = sc_blocks c"
    by (rule sc_at_fields; simp add: StreamCacheSetMediaFormat_def)+
  then have "sc_at (StreamCacheSetMediaFormat c f v b) ps qs" "sc_blocks (StreamCacheSetMediaFormat c f v b) = sc_blocks c" using at by auto
  then show ?thesis using CacheSetFormat by (intro call_okI [of _ "StreamCacheSetMediaFormat c f v b" "[]"]) (simp_all add: cache_call_def cache_added_def)
qed

lemma cache_run_call_ok:
  assumes "sc_at c ps qs" "cache_run_ok gso config ops c"
  shows "call_ok c (ps @ qs) (cache_added ops) (cache_run gso config ops c)"
  using assms
proof (induction ops arbitrary: c ps qs)
  case Nil
  then show ?case by (intro call_okI [OF _ Nil.prems(1)]) (simp_all add: cache_added_def)
next
  case (Cons op ops)
  have "call_ok c (ps @ qs) (cache_added [op]) (cache_call gso config op c)"
    using Cons.prems by (intro cache_call_ok) auto
  then obtain c1 es ps1 qs1 where c1: "cache_call gso config op c = Some (Ok (c1, es))" "sc_at c1 ps1 qs1"
    "mset es + sc_blocks c1 (ps1 @ qs1) = sc_blocks c (ps @ qs) + mset (concat (map sc_free_node (cache_added [op])))"
    unfolding call_ok_def by blast
  have "call_ok c1 (ps1 @ qs1) (cache_added ops) (cache_run gso config ops c1)"
    using Cons.prems(2) c1(1) by (intro Cons.IH [OF c1(2)]) simp
  then obtain c2 fs ps2 qs2 where c2: "cache_run gso config ops c1 = Some (Ok (c2, fs))" "sc_at c2 ps2 qs2"
    "mset fs + sc_blocks c2 (ps2 @ qs2) = sc_blocks c1 (ps1 @ qs1) + mset (concat (map sc_free_node (cache_added ops)))"
    unfolding call_ok_def by blast
  have "cache_added (op # ops) = cache_added [op] @ cache_added ops" by (simp add: cache_added_def)
  moreover have "mset (es @ fs) + sc_blocks c2 (ps2 @ qs2) = sc_blocks c (ps @ qs) +
      (mset (concat (map sc_free_node (cache_added [op]))) + mset (concat (map sc_free_node (cache_added ops))))"
    unfolding mset_append add.assoc c2(3) unfolding add.assoc [symmetric] c1(3) by (rule refl)
  ultimately show ?case using c1(1) c2(1)
    by (intro call_okI [OF _ c2(2), of _ "es @ fs"]) (simp_all del: sc_blocks_simps)
qed

lemma StreamCacheCreate_at:
  assumes "StreamCacheCreate okMalloc n = Some c"
  shows "sc_at c [] []"
  using assms by (auto simp: StreamCacheCreate_def sc_at_def sc_list_def sc_counts_def sc_last_ok_def split: if_splits)

section \<open>Correctness of the cache\<close>


definition demo_frame :: "addr \<Rightarrow> int \<Rightarrow> int \<Rightarrow> CacheNode" where
  "demo_frame p n t = \<lparr>cn_pData = p, cn_data = replicate (nat n) 0, cn_nLength = n, cn_nPts = t, cn_nPcr = -1,
     cn_eMediaType = 0, cn_nFlags = 8, cn_info = None, cn_pNext = None\<rparr>"

definition demo_ops :: "cache_op list" where
  "demo_ops = [CacheSetFormat 1 0x115 0, CacheAdd 1 (demo_frame 100 2 0), CacheAdd 2 (demo_frame 200 3 40000),
     CacheTake, CacheAdd 3 (demo_frame 300 4 80000), CacheSeek 50000, CacheTake]"

lemma demo_ops_ok: "cache_run_ok (\<lambda>_ _. None) 0 demo_ops (the (StreamCacheCreate True 0))"
  by code_simp


text \<open>A cache with one passed and two pending key frames.\<close>

definition demo_cache :: StreamCache where
  "demo_cache = \<lparr>sc_nMaxBufferSize = 10, sc_nStartPlaySize = 4, sc_nDataSize = 7, sc_nFrameNum = 2, sc_nVideoFrameNum = 2,
     sc_pHead = Some 2, sc_pTail = Some 3, sc_nPassedDataSize = 2, sc_nPassedFrameNum = 1, sc_nPassedVideoFrameNum = 1,
     sc_pPassedHead = Some 1, sc_nLastValidPts = 80000, sc_pNodeWithLastValidPts = Some 3, sc_nLastValidPcr = -1,
     sc_pNodeWithLastValidPcr = None, sc_nFirstPts = 0, sc_eContainerFormat = 1, sc_eVideoCodecFormat = 0x115,
     sc_nBitrate = 0, sc_heap = [1 \<mapsto> (demo_frame 100 2 0)\<lparr>cn_pNext := Some 2\<rparr>,
       2 \<mapsto> (demo_frame 200 3 40000)\<lparr>cn_pNext := Some 3\<rparr>, 3 \<mapsto> demo_frame 300 4 80000], sc_nStartFrames = 0\<rparr>"

lemma demo_cache_at: "sc_at demo_cache [1] [2, 3]"
  by (auto simp: sc_at_def sc_list_def sc_counts_def sc_last_ok_def demo_cache_def demo_frame_def sc_nx_def sc_node_def
    node_good_def last_ptr_def)

text \<open>C12. A seek by time either is refused and changes nothing (the target is behind the last time
  known, or no key frame is near it), or makes a key frame the next
  frame to play; when the times of the key frames ascend, no other key frame is nearer to the target.
  No frame is lost: the passed and the pending frames together stay the same list.\<close>

theorem cache_seek_nearest_key:
  assumes "sc_at c ps qs" "0 \<le> t" "t \<le> 4611686018427387903"
    "sorted (map (\<lambda>a. cn_nPts (sc_node c a)) (filter (sc_key c) (ps @ qs)))"
  shows "StreamCacheSeekByPts c t = Ok (-1, c) \<and> seek_pts_refused c t (ps @ qs) \<or>
    (\<exists>c' us a vs. StreamCacheSeekByPts c t = Ok (cn_nPts (sc_node c a), c') \<and> ps @ qs = us @ a # vs \<and>
       sc_at c' us (a # vs) \<and> sc_heap c' = sc_heap c \<and> StreamCacheNextFrame c' = Some a \<and> sc_key c a \<and>
       (\<forall>k \<in> set (ps @ qs). sc_key c k \<longrightarrow>
          \<bar>cn_nPts (sc_node c a) - t\<bar> \<le> \<bar>cn_nPts (sc_node c k) - t\<bar>))"
proof -
  have "StreamCacheNextFrame c' = Some a" if "sc_at c' us (a # vs)" for c' us a vs
    using that by (simp add: StreamCacheNextFrame_def sc_at_def sc_list_def)
  then show ?thesis using StreamCacheSeekByPts_at [OF assms(1-3)] assms(4) by blast
qed

theorem cache_seek_nearest_key_witness:
  "\<exists>c'. StreamCacheSeekByPts demo_cache 50000 = Ok (40000, c') \<and> StreamCacheNextFrame c' = Some 2 \<and>
     sc_at c' [1] [2, 3]"
proof -
  have key: "sc_key demo_cache k" if "k \<in> {1, 2, 3}" for k
    using that by (auto simp: sc_key_def StreamCacheIsKeyFrame_def demo_cache_def sc_node_def demo_frame_def)
  have pts: "cn_nPts (sc_node demo_cache 1) = 0" "cn_nPts (sc_node demo_cache 2) = 40000"
    "cn_nPts (sc_node demo_cache 3) = 80000"
    and last: "sc_nLastValidPts demo_cache = 80000"
    by (simp_all add: demo_cache_def sc_node_def demo_frame_def)
  have "\<not> seek_pts_refused demo_cache 50000 ([1] @ [2, 3])"
    using key [of 1] key [of 2] last by (simp add: seek_pts_refused_def pts del: One_nat_def)
  moreover have "sorted (map (\<lambda>a. cn_nPts (sc_node demo_cache a)) (filter (sc_key demo_cache) ([1] @ [2, 3])))"
    by (simp add: pts del: One_nat_def)
  ultimately obtain c' us a vs where c: "StreamCacheSeekByPts demo_cache 50000 = Ok (cn_nPts (sc_node demo_cache a), c')"
    "[1] @ [2, 3] = us @ a # vs" "sc_at c' us (a # vs)" "StreamCacheNextFrame c' = Some a"
    "\<forall>k \<in> set ([1] @ [2, 3]). sc_key demo_cache k \<longrightarrow>
      \<bar>cn_nPts (sc_node demo_cache a) - 50000\<bar> \<le> \<bar>cn_nPts (sc_node demo_cache k) - 50000\<bar>"
    using cache_seek_nearest_key [OF demo_cache_at, of 50000] by (auto simp del: append_Cons append_Nil One_nat_def set_append)
  have "a \<in> {1, 2, 3}" using c(2) by (auto simp: Cons_eq_append_conv)
  then have a: "a = 2" using c(5) key [of 2] by (auto simp: pts simp del: One_nat_def)
  then have "us = [1] \<and> vs = [3]" using c(2) by (auto simp: Cons_eq_append_conv)
  then show ?thesis using c(1,3,4) a pts by auto
qed

text \<open>C22. A seek by a byte offset, relative to the next frame to play, succeeds exactly when the
  offset lies within the cached data, its end included. It then makes the first frame that reaches
  the offset the next one to play: every frame before it ends before the offset, so that an offset
  at the end of a frame selects that frame and not the one after it. A negative offset is searched
  from the first passed frame, any other from the first pending one, and no frame is lost.\<close>

theorem cache_seek_offset_exact:
  assumes "sc_at c ps qs"
  shows "if off < - sc_lens c ps \<or> sc_lens c qs < off then StreamCacheSeekByOffset c off = Ok (-1, c)
    else (\<exists>c' xs ys. StreamCacheSeekByOffset c off = Ok (0, c') \<and> ps @ qs = xs @ ys \<and> sc_at c' xs ys \<and>
      (off < 0 \<or> take (length ps) xs = ps) \<and>
      (xs = (if off < 0 then [] else ps) \<or> sc_lens c xs < sc_lens c ps + off) \<and>
      (if ys = [] then qs = [] \<and> off = 0
       else StreamCacheNextFrame c' = Some (hd ys) \<and> sc_lens c ps + off \<le> sc_lens c (xs @ [hd ys])))"
proof (cases "off < - sc_lens c ps \<or> sc_lens c qs < off")
  case True
  then show ?thesis using StreamCacheSeekByOffset_at [OF assms, of off] by simp
next
  case False
  then obtain c' xs ys where o: "StreamCacheSeekByOffset c off = Ok (0, c')" "ps @ qs = xs @ ys" "sc_at c' xs ys"
    "offset_split c off ps qs xs ys"
    using StreamCacheSeekByOffset_at [OF assms, of off] by (simp only: if_False) blast
  have "StreamCacheNextFrame c' = Some (hd ys)" if "ys \<noteq> []"
    using o(3) that by (cases ys) (simp_all add: StreamCacheNextFrame_def sc_at_def sc_list_def)
  then show ?thesis
    unfolding if_not_P [OF False] using o
    by (intro exI [of _ c'] exI [of _ xs] exI [of _ ys]) (simp add: offset_split_def split del: if_split cong: if_cong)
qed

text \<open>In the example the second frame, the first pending one, has 3 bytes: offset 3 selects it.\<close>

theorem cache_seek_offset_exact_witness:
  "(\<exists>c'. StreamCacheSeekByOffset demo_cache 3 = Ok (0, c') \<and> sc_at c' [1] [2, 3] \<and>
      StreamCacheNextFrame c' = Some 2) \<and> StreamCacheSeekByOffset demo_cache 8 = Ok (-1, demo_cache)"
proof -
  have len: "cn_nLength (sc_node demo_cache 1) = 2" "cn_nLength (sc_node demo_cache 2) = 3"
    "cn_nLength (sc_node demo_cache 3) = 4"
    by (simp_all add: sc_node_def demo_cache_def demo_frame_def)
  then have l: "sc_lens demo_cache [1] = 2" "sc_lens demo_cache [2, 3] = 7" "sc_lens demo_cache [1, 2] = 5"
    "sc_lens demo_cache [1, 2, 3] = 9"
    by (simp_all add: sc_lens_def del: One_nat_def)
  obtain c' xs ys where c: "StreamCacheSeekByOffset demo_cache 3 = Ok (0, c')" "[1] @ [2, 3] = xs @ ys"
    "sc_at c' xs ys" "take (length [1]) xs = [1]" "xs = [1] \<or> sc_lens demo_cache xs < 5"
    "ys \<noteq> [] \<Longrightarrow> StreamCacheNextFrame c' = Some (hd ys)"
    using cache_seek_offset_exact [OF demo_cache_at, of 3] l
    by (auto simp del: append_Cons append_Nil One_nat_def split: if_splits)
  have "xs = [1] \<and> ys = [2, 3]"
    using c(2,4,5) l by (auto simp: Cons_eq_append_conv append_eq_Cons_conv simp del: One_nat_def)
  then have "\<exists>c'. StreamCacheSeekByOffset demo_cache 3 = Ok (0, c') \<and> sc_at c' [1] [2, 3] \<and>
      StreamCacheNextFrame c' = Some 2"
    using c(1,3,6) by auto
  moreover have "StreamCacheSeekByOffset demo_cache 8 = Ok (-1, demo_cache)"
    using cache_seek_offset_exact [OF demo_cache_at, of 8] l by simp
  ultimately show ?thesis by blast
qed

section \<open>Where the cache falls short\<close>

lemma sc_make_room_stuck:
  assumes "StreamCacheFlushPassedList c = Ok (c, [])"
    "sc_nMaxBufferSize c \<le> i32 (sc_nDataSize c + sc_nPassedDataSize c)"
    "kept_size (sc_nMaxBufferSize c) < sc_nPassedDataSize c"
  shows "sc_make_room c es = None"
proof (rule ccontr)
  assume "sc_make_room c es \<noteq> None"
  then obtain r where r: "sc_make_room c es = Some r" by auto
  have "d = c \<Longrightarrow> False" if "sc_make_room d fs = Some r" for d fs
  proof (rule sc_make_room.raw_induct [of "\<lambda>d fs r. d = c \<longrightarrow> False" d fs r, THEN mp])
    show "sc_make_room d fs = Some r" by (rule that)
  qed (use assms in \<open>(auto split: if_splits)[1], blast\<close>)
  then show False using r by blast
qed

lemma sc_lens_last:
  assumes "sc_list c E ps qs" "ps \<noteq> []"
  shows "cn_nLength (sc_node c (last ps)) \<le> sc_lens c ps"
proof -
  have "0 \<le> sc_lens c (butlast ps)" using in_set_butlastD by (intro sc_lens_nonneg [OF assms(1)]) fastforce
  moreover have "sc_lens c ps = sc_lens c (butlast ps) + cn_nLength (sc_node c (last ps))"
    using append_butlast_last_id [OF assms(2)] sc_lens_simps(3) [of c "butlast ps" "[last ps]"] by simp
  ultimately show ?thesis by simp
qed

text \<open>C36. The loop that makes room may not end: when no frame is pending and the frame that was
  played last is at least as large as the buffer, \<open>StreamCacheFlushPassedList\<close> refuses to drop it, since it
  is the last one, and adding the next frame never returns.\<close>

theorem cache_add_never_returns:
  assumes "sc_at c ps []" "ps \<noteq> []" "sc_nMaxBufferSize c \<le> cn_nLength (sc_node c (last ps))"
    "kept_size (sc_nMaxBufferSize c) < sc_nMaxBufferSize c" "sc_heap c a = None" "node_good node"
  shows "StreamCacheAddOneFrame c node (Some a) = None"
proof -
  have stuck: "sc_make_room d es = None"
    if "sc_list d E ps []" "sc_counts d ps []" "ps \<noteq> []" "sc_nMaxBufferSize d = M" "kept_size M < M"
      "M \<le> cn_nLength (sc_node d (last ps))" for d E ps es M
    using that
  proof (induction ps arbitrary: d es)
    case (Cons x ps)
    have "M \<le> sc_lens d (x # ps)" using sc_lens_last [OF Cons.prems(1)] Cons.prems(6) by (simp del: sc_lens_simps)
    moreover have "0 \<le> sc_lens d (x # ps)" by (rule sc_lens_nonneg [OF Cons.prems(1)]) simp
    moreover have "sc_nPassedDataSize d = sc_lens d (x # ps)" "sc_lens d (x # ps) \<le> 2147483647" "sc_nDataSize d = 0"
      using Cons.prems(2) by (auto simp: sc_counts_def)
    ultimately have big: "M \<le> sc_nPassedDataSize d" "sc_nDataSize d = 0"
      "i32 (sc_nPassedDataSize d) = sc_nPassedDataSize d"
      by (simp_all add: i32_id int32_range_def del: sc_lens_simps)
    show ?case
    proof (cases "ps = []")
      case True
      have "StreamCacheFlushPassedList d = Ok (d, [])"
        using Cons.prems(1) True by (simp add: StreamCacheFlushPassedList_def sc_list_def last_ptr_def Let_def)
      then show ?thesis using big Cons.prems(4,5) by (intro sc_make_room_stuck) auto
    next
      case False
      then obtain d1 where d1: "StreamCacheFlushPassedList d = Ok (d1, sc_free_node (sc_node d x))" "sc_list d1 E ps []"
        "sc_counts d1 ps []" "sc_kept d1 d" "sc_heap d1 = (sc_heap d)(x := None)"
        using StreamCacheFlushPassedList_list [OF Cons.prems(1,2)] by auto
      have "last ps \<noteq> x" using sc_list_distinct [OF Cons.prems(1)] False last_in_set [of ps] by auto
      then have "sc_make_room d1 (es @ sc_free_node (sc_node d x)) = None"
        using Cons.prems(4-6) False d1(4,5) by (intro Cons.IH [OF d1(2,3) False]) (auto simp: sc_kept_def sc_node_def)
      then show ?thesis using big d1(1) Cons.prems(4,5) by (subst sc_make_room.simps) simp
    qed
  qed simp
  let ?c = "sc_store_node c a node"
  note st = sc_store_node_list [OF assms(1,5,6)]
  have "sc_list c {} ps []" using assms(1) by (simp add: sc_at_def)
  then have "last ps \<noteq> a" using assms(2,5) sc_list_node(1) [of c "{}" ps "[]" "last ps"] by auto
  then have "sc_node ?c (last ps) = sc_node c (last ps)" using st(4) by (simp add: sc_node_def)
  then have "sc_make_room ?c [] = None"
    using stuck [OF st(1,2) assms(2) _ assms(4)] st(3) assms(3) by (simp add: sc_kept_def)
  then show ?thesis by (simp add: StreamCacheAddOneFrame_def)
qed

definition stuck_cache :: StreamCache where
  "stuck_cache = \<lparr>sc_nMaxBufferSize = 10, sc_nStartPlaySize = 4, sc_nDataSize = 0, sc_nFrameNum = 0, sc_nVideoFrameNum = 0,
     sc_pHead = None, sc_pTail = Some 1, sc_nPassedDataSize = 12, sc_nPassedFrameNum = 1, sc_nPassedVideoFrameNum = 1,
     sc_pPassedHead = Some 1, sc_nLastValidPts = 0, sc_pNodeWithLastValidPts = Some 1, sc_nLastValidPcr = -1,
     sc_pNodeWithLastValidPcr = None, sc_nFirstPts = 0, sc_eContainerFormat = 1, sc_eVideoCodecFormat = 0x115,
     sc_nBitrate = 0, sc_heap = [1 \<mapsto> demo_frame 100 12 0], sc_nStartFrames = 0\<rparr>"

theorem cache_add_never_returns_witness:
  "StreamCacheAddOneFrame stuck_cache (demo_frame 200 2 40000) (Some 2) = None"
  by (rule cache_add_never_returns [where ps = "[1]"])
    (simp_all add: stuck_cache_def demo_frame_def sc_at_def sc_list_def sc_counts_def sc_last_ok_def sc_nx_def sc_node_def
      node_good_def last_ptr_def kept_size_def c_div_def i32_id int32_range_def)

text \<open>The count of pending video frames drifts: when a passed video frame is dropped, the
  number of passed video frames is not reduced, and the next seek adds the difference to the
  number of pending video frames.\<close>

theorem cache_video_count_drifts:
  assumes "sc_at c (x # ps) qs" "ps @ qs = xs @ ys" "ps @ qs \<noteq> []" "cn_eMediaType (sc_node c x) = CDX_MEDIA_VIDEO"
    "sc_nVideoFrameNum c = sc_video c qs" "sc_nPassedVideoFrameNum c = sc_video c (x # ps)"
    "length qs + length ps < 2147483646"
  shows "\<exists>c1 es c2. StreamCacheFlushPassedList c = Ok (c1, es) \<and> adjustList c1 (hd_ptr ys) = Ok c2 \<and>
    sc_at c2 xs ys \<and> sc_nVideoFrameNum c2 = sc_video c2 ys + 1"
proof -
  have l: "sc_list c {} (x # ps) qs" and k: "sc_counts c (x # ps) qs" using assms(1) by (auto simp: sc_at_def)
  obtain c1 where c1: "StreamCacheFlushPassedList c = Ok (c1, sc_free_node (sc_node c x))"
    "sc_list c1 {} ps qs" "sc_counts c1 ps qs" "sc_kept c1 c" "sc_heap c1 = (sc_heap c)(x := None)"
    using StreamCacheFlushPassedList_list [OF l k assms(3)] by blast
  have at1: "sc_at c1 ps qs" using c1 by (simp add: sc_at_def)
  obtain c2 where c2: "adjustList c1 (hd_ptr ys) = Ok c2" "sc_at c2 xs ys" "sc_heap c2 = sc_heap c1"
    "sc_nVideoFrameNum c2 = i32 (sc_nPassedVideoFrameNum c1 + sc_nVideoFrameNum c1 - sc_video c1 xs)"
    using adjustList_at [OF at1 assms(2) refl] by blast
  have x: "x \<notin> set (ps @ qs)" using sc_list_distinct [OF l] by simp
  have v: "sc_video c1 as = sc_video c as" "sc_video c2 as = sc_video c as" if "set as \<subseteq> set (ps @ qs)" for as
  proof -
    have "sc_node c1 a = sc_node c a" "sc_node c2 a = sc_node c a" if "a \<in> set as" for a
      using that x \<open>set as \<subseteq> set (ps @ qs)\<close> c1(5) c2(3) by (auto simp: sc_node_def)
    then show "sc_video c1 as = sc_video c as" "sc_video c2 as = sc_video c as"
      by (auto simp: sc_video_def intro!: arg_cong [where f = length] filter_cong)
  qed
  have app: "sc_video c (as @ bs) = sc_video c as + sc_video c bs" for as bs by (simp add: sc_video_def)
  have "sc_video c ps + sc_video c qs = sc_video c xs + sc_video c ys" using arg_cong [OF assms(2), of "sc_video c"] by (simp add: app)
  moreover have "set xs \<subseteq> set (ps @ qs)" "set ys \<subseteq> set (ps @ qs)" using assms(2) by auto
  moreover have "length ys \<le> length qs + length ps" using arg_cong [OF assms(2), of length] by simp
  ultimately have "sc_nVideoFrameNum c2 = i32 (sc_video c ys + 1)" "sc_video c2 ys = sc_video c ys"
    "i32 (sc_video c ys + 1) = sc_video c ys + 1"
    using c2(4) c1(4) assms(4-7) v sc_video_bounds [of c ys] by (auto simp: sc_kept_def i32_id int32_range_def)
  then show ?thesis using c1(1) c2(1,2) by auto
qed

theorem cache_video_count_drifts_witness:
  "\<exists>c1 es c2. StreamCacheFlushPassedList demo_cache = Ok (c1, es) \<and> adjustList c1 (hd_ptr [2, 3]) = Ok c2 \<and>
    sc_at c2 [] [2, 3] \<and> sc_nVideoFrameNum c2 = sc_video c2 [2, 3] + 1"
  by (rule cache_video_count_drifts [OF demo_cache_at]) (simp_all add: demo_cache_def sc_node_def demo_frame_def sc_video_def)

text \<open>A full cache lets the player start: with sizes set by \<open>StreamCacheSetSize\<close>, when the cache
  refuses more data, the loading progress is complete, and a stream without video has enough data.\<close>

theorem cache_full_can_start:
  assumes "sc_at c ps qs" "0 < nStart" "nStart \<le> nMax" "10 \<le> nMax" "nMax \<le> 268435455"
    and d: "d = StreamCacheSetSize config c nStart nMax"
    and full: "StreamCacheOverflow d"
  shows "sc_nStartPlaySize d \<le> StreamCacheGetSize d \<and> StreamCacheGetLoadingProgress d = 100 \<and>
    (sc_eVideoCodecFormat d = VIDEO_CODEC_FORMAT_UNKNOWN \<longrightarrow> StreamCacheDataEnough d)"
proof -
  have k: "sc_counts c ps qs" and l: "sc_list c {} ps qs" using assms(1) by (auto simp: sc_at_def)
  have n: "0 \<le> sc_lens c ps" "0 \<le> sc_lens c qs" using sc_lens_nonneg [OF l] by auto
  have z: "kept_size nMax = nMax * 3 div 10" "c_div (i32 (nMax * 8)) 10 = nMax * 8 div 10"
    using assms(4,5) by (simp_all add: kept_size_def i32_id int32_range_def c_div_def)
  have pos: "0 < nMax * 3 div 10" "nMax * 3 div 10 \<le> nMax" "nMax * 8 div 10 \<le> nMax" "nMax * 3 div 10 \<le> nMax * 8 div 10"
    using assms(4) by auto
  have s: "sc_nStartPlaySize d = (if nMax * 8 div 10 < nStart + nMax * 3 div 10
      then nMax * 8 div 10 - nMax * 3 div 10 else nStart)" "sc_nMaxBufferSize d = nMax"
    "sc_nDataSize d = sc_lens c qs" "sc_nPassedDataSize d = sc_lens c ps" "sc_nFrameNum d = int (length qs)"
    "sc_lens c ps + sc_lens c qs \<le> 2147483647"
    using d z pos k assms(2,3,5) by (auto simp: StreamCacheSetSize_def Let_def i32_id int32_range_def sc_counts_def)
  have "nMax \<le> sc_lens c qs + sc_lens c ps" "sc_lens c ps \<le> nMax * 3 div 10"
    using full n s z by (auto simp: StreamCacheOverflow_def i32_id int32_range_def)
  then have "sc_nStartPlaySize d \<le> sc_nDataSize d" "0 < sc_lens c qs" using s pos by auto
  moreover have "qs \<noteq> []" using \<open>0 < sc_lens c qs\<close> by auto
  ultimately show ?thesis
    using s(5) by (simp add: StreamCacheGetSize_def StreamCacheGetLoadingProgress_def StreamCacheDataEnough_def)
qed

definition full_cache :: StreamCache where
  "full_cache = demo_cache\<lparr>sc_nDataSize := 12, sc_nPassedDataSize := 2, sc_eVideoCodecFormat := VIDEO_CODEC_FORMAT_UNKNOWN,
     sc_heap := (sc_heap demo_cache)(3 \<mapsto> demo_frame 300 9 80000)\<rparr>"

theorem cache_full_can_start_witness:
  "sc_nStartPlaySize (StreamCacheSetSize 0 full_cache 9 10) \<le> StreamCacheGetSize (StreamCacheSetSize 0 full_cache 9 10) \<and>
   StreamCacheGetLoadingProgress (StreamCacheSetSize 0 full_cache 9 10) = 100 \<and> StreamCacheDataEnough (StreamCacheSetSize 0 full_cache 9 10)"
proof -
  have "sc_at full_cache [1] [2, 3]"
    by (auto simp: sc_at_def sc_list_def sc_counts_def sc_last_ok_def full_cache_def demo_cache_def demo_frame_def
      sc_nx_def sc_node_def node_good_def last_ptr_def)
  moreover have "StreamCacheOverflow (StreamCacheSetSize 0 full_cache 9 10)"
    by (simp add: StreamCacheOverflow_def StreamCacheSetSize_def full_cache_def demo_cache_def kept_size_def c_div_def
      i32_id int32_range_def Let_def)
  ultimately show ?thesis using cache_full_can_start [OF _ _ _ _ _ refl, of full_cache "[1]" "[2, 3]" 9 10 0]
    by (simp add: StreamCacheSetSize_def full_cache_def Let_def)
qed

section \<open>The cache as a queue\<close>

text \<open>Between two seeks the player uses the cache as a queue: the parser adds, the player takes the next
  frame and flushes it. A frame is given with the address of its node.\<close>

definition cache_put :: "nat \<times> CacheNode \<Rightarrow> StreamCache \<Rightarrow> StreamCache option" where
  "cache_put f c = (if cache_add_ok (fst f) (snd f) c
     then (case StreamCacheAddOneFrame c (snd f) (Some (fst f)) of Some (Ok (_, c', _)) \<Rightarrow> Some c' | _ \<Rightarrow> None)
     else None)"

definition cache_get :: "StreamCache \<Rightarrow> ((nat \<times> CacheNode) \<times> StreamCache) option" where
  "cache_get c = (case StreamCacheNextFrame c of
       None \<Rightarrow> None
     | Some a \<Rightarrow> (case StreamCacheFlushOneFrame c of Ok c' \<Rightarrow> Some ((a, cn_frame (sc_node c a)), c') | _ \<Rightarrow> None))"

definition cache_pending :: "StreamCache \<Rightarrow> (nat \<times> CacheNode) list" where
  "cache_pending c = map (\<lambda>a. (a, cn_frame (sc_node c a))) (chain_list (sc_nx c) (nat (sc_nFrameNum c)) (sc_pHead c))"

lemma cache_pending_at:
  assumes "sc_at c ps qs"
  shows "cache_pending c = map (\<lambda>a. (a, cn_frame (sc_node c a))) qs"
proof -
  have l: "sc_list c {} ps qs" and k: "sc_counts c ps qs" using assms by (auto simp: sc_at_def)
  have "chain (sc_nx c) (sc_pHead c) qs"
  proof (cases qs)
    case (Cons q qs')
    then show ?thesis using l chain_suffix [of "sc_nx c" "sc_pPassedHead c" ps q qs'] by (simp add: sc_list_def)
  qed (use l in \<open>simp add: sc_list_def\<close>)
  then show ?thesis using chain_list_eq [of "sc_nx c" "sc_pHead c" qs] k by (simp add: cache_pending_def sc_counts_def)
qed

lemma cache_put_at:
  assumes at: "sc_at c ps qs" and put: "cache_put f c = Some c'"
  shows "\<exists>ps'. sc_at c' ps' (qs @ [fst f]) \<and> cache_pending c' = cache_pending c @ [(fst f, cn_frame (snd f))]"
proof -
  have ok: "cache_add_ok (fst f) (snd f) c" using put by (simp add: cache_put_def split: if_splits)
  obtain n d where d: "StreamCacheAddOneFrame c (snd f) (Some (fst f)) =
      Some (Ok (0, d, concat (map (\<lambda>b. sc_free_node (sc_node c b)) (take n ps))))"
    "sc_at d (drop n ps) (qs @ [fst f])" "cn_frame (sc_node d (fst f)) = cn_frame (snd f)"
    "\<forall>b \<in> set (drop n ps @ qs). cn_frame (sc_node d b) = cn_frame (sc_node c b)"
    using cache_add_at [OF at ok] by blast
  have "c' = d" using put ok d(1) by (simp add: cache_put_def)
  then show ?thesis using d cache_pending_at [OF at] cache_pending_at [OF d(2)] by auto
qed

interpretation scq: frame_fifo "\<lambda>c. \<exists>ps qs. sc_at c ps qs" cache_pending "\<lambda>_. True" "\<lambda>f. (fst f, cn_frame (snd f))" cache_put cache_get
proof (unfold_locales, goal_cases)
  case (1 c f c')
  then show ?case using cache_put_at by blast
next
  case (2 c)
  then show ?case using cache_pending_at
    by (fastforce simp: cache_get_def StreamCacheNextFrame_def sc_at_def sc_list_def)
next
  case (3 c f fs)
  then obtain ps qs where at: "sc_at c ps qs" by blast
  then obtain q qs' where q: "qs = q # qs'" "f = (q, cn_frame (sc_node c q))"
    "fs = map (\<lambda>a. (a, cn_frame (sc_node c a))) qs'"
    using cache_pending_at [OF at] 3(2) by (cases qs) auto
  obtain c' where c': "StreamCacheFlushOneFrame c = Ok c'" "sc_at c' (ps @ [q]) qs'" "sc_heap c' = sc_heap c"
    using StreamCacheFlushOneFrame_at [of c ps q qs'] at q(1) by auto
  have "sc_pHead c = Some q" using at q(1) by (simp add: sc_at_def sc_list_def)
  then show ?case using c' q cache_pending_at [OF c'(2)] sc_node_cong(1) [OF c'(3)]
    by (auto simp: cache_get_def StreamCacheNextFrame_def)
qed

text \<open>Frames come out in the order in which they were added, whole, whatever room had to be made.\<close>

lemma cache_fifo_order:
  assumes "StreamCacheCreate True n = Some c" "fifo_run cache_put cache_get es c = (ins, outs, c')"
  shows "map (\<lambda>f. (fst f, cn_frame (snd f))) ins = outs @ cache_pending c'"
  using scq.run_fifo [OF _ _ assms(2)] StreamCacheCreate_at [OF assms(1)] cache_pending_at [OF StreamCacheCreate_at [OF assms(1)]]
  by auto

end
