(* ===== verification/Lockfree_Queue.thy ===== *)
theory Lockfree_Queue
  imports Linked_Queue
begin

text \<open>
  The queue without locks of the player library, \<open>libcore/base/CdxQueue.c\<close>: a linked list with a
  dummy node in front, reference counts on the nodes, and compare-and-swap on the front pointer,
  on the rear pointer and on the \<open>next\<close> field of the last node. A call is cut into its accesses to
  shared memory: \<open>CdxQueuePush_go\<close> and \<open>CdxQueuePop_go\<close> make the next access of a call in progress, so
  that the calls of several threads can be interleaved. An access to a node that was freed is a fault.
\<close>

section \<open>Data\<close>

record QueueNode =
  qn_next :: "nat option"
  qn_ref :: int
  qn_data :: addr

record CdxQueue =
  q_front :: nat
  q_rear :: nat
  q_enablePop :: bool
  q_enablePush :: bool
  q_heap :: "nat \<rightharpoonup> QueueNode"

text \<open>How far a call has come: the local variables that are live there. The \<open>Push\<close> states are those of
  \<open>__CdxQueuePush\<close>, the \<open>Pop\<close> states those of \<open>__CdxQueuePop\<close>.\<close>

datatype queue_pc =
    Idle
  | PushRead nat
  | PushTmp nat nat
  | PushLinked nat nat
  | PopLoad
  | PopGot nat
  | PopHeld nat
  | PopNext nat nat
  | PopData nat addr
  | PopRetry nat
  | PopEmpty nat
  | PopWon nat addr
  | PopLast nat addr

text \<open>What a step makes visible: the data became part of the queue, were taken out of it, or the queue
  was found empty.\<close>

datatype queue_event = Quiet | Linked addr | Taken addr | FoundEmpty

section \<open>Operations\<close>

definition CdxQueueCreate :: "nat \<Rightarrow> CdxQueue" where
  "CdxQueueCreate dummy = \<lparr>q_front = dummy, q_rear = dummy, q_enablePop = True, q_enablePush = True,
     q_heap = [dummy \<mapsto> \<lparr>qn_next = None, qn_ref = 1, qn_data = 0\<rparr>]\<rparr>"

definition QueueNodeEntityIncRef :: "CdxQueue \<Rightarrow> nat \<Rightarrow> CdxQueue exec" where
  "QueueNodeEntityIncRef q e = (case q_heap q e of
       None \<Rightarrow> Fault
     | Some n \<Rightarrow> Ok (q\<lparr>q_heap := (q_heap q)(e \<mapsto> n\<lparr>qn_ref := qn_ref n + 1\<rparr>)\<rparr>))"

definition QueueNodeEntityDecRef :: "CdxQueue \<Rightarrow> nat \<Rightarrow> CdxQueue exec" where
  "QueueNodeEntityDecRef q e = (case q_heap q e of
       None \<Rightarrow> Fault
     | Some n \<Rightarrow>
         if qn_ref n - 1 = 0 then Ok (q\<lparr>q_heap := (q_heap q)(e := None)\<rparr>)
         else Ok (q\<lparr>q_heap := (q_heap q)(e \<mapsto> n\<lparr>qn_ref := qn_ref n - 1\<rparr>)\<rparr>))"

text \<open>The start of a push: \<open>entity\<close> is the address the pool gave. The new node is private to the call
  until it is linked.\<close>

definition CdxQueuePush_start :: "CdxQueue \<Rightarrow> nat \<Rightarrow> addr \<Rightarrow> CdxQueue \<times> queue_pc" where
  "CdxQueuePush_start q entity d =
     (if \<not> q_enablePush q then (q, Idle)
      else (q\<lparr>q_heap := (q_heap q)(entity \<mapsto> \<lparr>qn_next = None, qn_ref = 1, qn_data = d\<rparr>)\<rparr>, PushRead entity))"

fun CdxQueuePush_go :: "CdxQueue \<Rightarrow> queue_pc \<Rightarrow> (CdxQueue \<times> queue_pc \<times> queue_event) exec" where
  "CdxQueuePush_go q (PushRead entity) = Ok (q, PushTmp entity (q_rear q), Quiet)"
| "CdxQueuePush_go q (PushTmp entity tmp) = (case q_heap q tmp of
       None \<Rightarrow> Fault
     | Some n \<Rightarrow>
         if qn_next n = None
         then Ok (q\<lparr>q_heap := (q_heap q)(tmp \<mapsto> n\<lparr>qn_next := Some entity\<rparr>)\<rparr>, PushLinked entity tmp,
                  Linked (qn_data (the (q_heap q entity))))
         else Ok (q, PushRead entity, Quiet))"
| "CdxQueuePush_go q (PushLinked entity tmp) =
     Ok (if q_rear q = tmp then q\<lparr>q_rear := entity\<rparr> else q, Idle, Quiet)"
| "CdxQueuePush_go q _ = Ok (q, Idle, Quiet)"

definition CdxQueuePop_start :: "CdxQueue \<Rightarrow> queue_pc" where
  "CdxQueuePop_start q = (if \<not> q_enablePop q then Idle else PopLoad)"

fun CdxQueuePop_go :: "CdxQueue \<Rightarrow> queue_pc \<Rightarrow> (CdxQueue \<times> queue_pc \<times> queue_event) exec" where
  "CdxQueuePop_go q PopLoad = Ok (q, PopGot (q_front q), Quiet)"
| "CdxQueuePop_go q (PopGot entity) = ebind (QueueNodeEntityIncRef q entity) (\<lambda>q1. Ok (q1, PopHeld entity, Quiet))"
| "CdxQueuePop_go q (PopHeld entity) = (case q_heap q entity of
       None \<Rightarrow> Fault
     | Some n \<Rightarrow> (case qn_next n of
         None \<Rightarrow> Ok (q, PopEmpty entity, FoundEmpty)
       | Some x \<Rightarrow> Ok (q, PopNext entity x, Quiet)))"
| "CdxQueuePop_go q (PopNext entity x) = (case q_heap q x of
       None \<Rightarrow> Fault
     | Some m \<Rightarrow> Ok (q, PopData entity (qn_data m), Quiet))"
| "CdxQueuePop_go q (PopEmpty entity) = ebind (QueueNodeEntityDecRef q entity) (\<lambda>q1. Ok (q1, Idle, Quiet))"
| "CdxQueuePop_go q (PopData entity d) = (case q_heap q entity of
       None \<Rightarrow> Fault
     | Some n \<Rightarrow> (case qn_next n of
         None \<Rightarrow> Fault
       | Some x \<Rightarrow>
           if q_front q = entity then Ok (q\<lparr>q_front := x\<rparr>, PopWon entity d, Taken d)
           else Ok (q, PopRetry entity, Quiet)))"
| "CdxQueuePop_go q (PopRetry entity) = ebind (QueueNodeEntityDecRef q entity) (\<lambda>q1. Ok (q1, PopLoad, Quiet))"
| "CdxQueuePop_go q (PopWon entity d) = ebind (QueueNodeEntityDecRef q entity) (\<lambda>q1. Ok (q1, PopLast entity d, Quiet))"
| "CdxQueuePop_go q (PopLast entity d) = ebind (QueueNodeEntityDecRef q entity) (\<lambda>q1. Ok (q1, Idle, Quiet))"
| "CdxQueuePop_go q _ = Ok (q, Idle, Quiet)"

definition CdxQueueEmpty :: "CdxQueue \<Rightarrow> bool" where
  "CdxQueueEmpty q \<longleftrightarrow> q_front q = q_rear q"

text \<open>Nodes behind the front node are not freed.\<close>

definition CdxQueueDestroy :: "CdxQueue \<Rightarrow> CdxQueue exec" where
  "CdxQueueDestroy q = QueueNodeEntityDecRef (q\<lparr>q_enablePush := False, q_enablePop := False\<rparr>) (q_front q)"

section \<open>One producer and one consumer\<close>

text \<open>The state of the two threads, with the data linked so far and the data taken so far.\<close>

record spsc =
  sp_q :: CdxQueue
  sp_push :: queue_pc
  sp_pop :: queue_pc
  sp_ins :: "addr list"
  sp_outs :: "addr list"

definition event_ins :: "queue_event \<Rightarrow> addr list" where
  "event_ins e = (case e of Linked d \<Rightarrow> [d] | _ \<Rightarrow> [])"

definition event_outs :: "queue_event \<Rightarrow> addr list" where
  "event_outs e = (case e of Taken d \<Rightarrow> [d] | _ \<Rightarrow> [])"

inductive spsc_step :: "spsc \<Rightarrow> spsc \<Rightarrow> bool" where
  start_push: "sp_push s = Idle \<Longrightarrow> q_heap (sp_q s) a = None \<Longrightarrow> d \<noteq> 0 \<Longrightarrow>
    CdxQueuePush_start (sp_q s) a d = (q, pc) \<Longrightarrow> spsc_step s (s\<lparr>sp_q := q, sp_push := pc\<rparr>)"
| start_pop: "sp_pop s = Idle \<Longrightarrow> spsc_step s (s\<lparr>sp_pop := CdxQueuePop_start (sp_q s)\<rparr>)"
| push: "sp_push s \<noteq> Idle \<Longrightarrow> CdxQueuePush_go (sp_q s) (sp_push s) = Ok (q, pc, e) \<Longrightarrow>
    spsc_step s (s\<lparr>sp_q := q, sp_push := pc, sp_ins := sp_ins s @ event_ins e\<rparr>)"
| pop: "sp_pop s \<noteq> Idle \<Longrightarrow> CdxQueuePop_go (sp_q s) (sp_pop s) = Ok (q, pc, e) \<Longrightarrow>
    spsc_step s (s\<lparr>sp_q := q, sp_pop := pc, sp_outs := sp_outs s @ event_outs e\<rparr>)"

definition spsc_init :: "nat \<Rightarrow> spsc" where
  "spsc_init dummy = \<lparr>sp_q = CdxQueueCreate dummy, sp_push = Idle, sp_pop = Idle, sp_ins = [], sp_outs = []\<rparr>"

definition spsc_reach :: "nat \<Rightarrow> spsc \<Rightarrow> bool" where
  "spsc_reach dummy s \<longleftrightarrow> spsc_step\<^sup>*\<^sup>* (spsc_init dummy) s"

section \<open>The invariant\<close>

definition q_nx :: "CdxQueue \<Rightarrow> nat \<Rightarrow> nat option option" where
  "q_nx q a = map_option qn_next (q_heap q a)"

definition q_node :: "CdxQueue \<Rightarrow> nat \<Rightarrow> QueueNode" where
  "q_node q a = the (q_heap q a)"

text \<open>The node a push has allocated and not linked, and the node a pop has unlinked and not freed.\<close>

fun push_private :: "queue_pc \<Rightarrow> nat list" where
  "push_private (PushRead e) = [e]"
| "push_private (PushTmp e t) = [e]"
| "push_private _ = []"

fun pop_private :: "queue_pc \<Rightarrow> nat list" where
  "pop_private (PopWon f d) = [f]"
| "pop_private (PopLast f d) = [f]"
| "pop_private _ = []"

text \<open>The reference the pop holds besides the one of the list.\<close>

fun pop_holds :: "queue_pc \<Rightarrow> nat option" where
  "pop_holds (PopHeld f) = Some f"
| "pop_holds (PopNext f x) = Some f"
| "pop_holds (PopData f d) = Some f"
| "pop_holds (PopEmpty f) = Some f"
| "pop_holds (PopWon f d) = Some f"
| "pop_holds _ = None"

fun push_ok :: "CdxQueue \<Rightarrow> nat list \<Rightarrow> queue_pc \<Rightarrow> bool" where
  "push_ok q L Idle \<longleftrightarrow> q_rear q = last L"
| "push_ok q L (PushRead e) \<longleftrightarrow> q_rear q = last L \<and> qn_next (q_node q e) = None"
| "push_ok q L (PushTmp e t) \<longleftrightarrow> q_rear q = last L \<and> t = last L \<and> qn_next (q_node q e) = None"
| "push_ok q L (PushLinked e t) \<longleftrightarrow> q_rear q = t \<and> e = last L"
| "push_ok q L _ \<longleftrightarrow> False"

fun pop_ok :: "CdxQueue \<Rightarrow> nat list \<Rightarrow> queue_pc \<Rightarrow> bool" where
  "pop_ok q L Idle \<longleftrightarrow> True"
| "pop_ok q L PopLoad \<longleftrightarrow> True"
| "pop_ok q L (PopGot f) \<longleftrightarrow> f = hd L"
| "pop_ok q L (PopHeld f) \<longleftrightarrow> f = hd L"
| "pop_ok q L (PopEmpty f) \<longleftrightarrow> f = hd L"
| "pop_ok q L (PopNext f x) \<longleftrightarrow> f = hd L \<and> tl L \<noteq> [] \<and> x = hd (tl L)"
| "pop_ok q L (PopData f d) \<longleftrightarrow> f = hd L \<and> tl L \<noteq> [] \<and> d = qn_data (q_node q (hd (tl L)))"
| "pop_ok q L (PopWon f d) \<longleftrightarrow> True"
| "pop_ok q L (PopLast f d) \<longleftrightarrow> True"
| "pop_ok q L _ \<longleftrightarrow> False"

text \<open>\<open>L\<close> is the list from the front node on. Besides it there are only the private nodes.\<close>

definition spsc_inv :: "spsc \<Rightarrow> nat list \<Rightarrow> bool" where
  "spsc_inv s L \<longleftrightarrow> L \<noteq> [] \<and> chain (q_nx (sp_q s)) (Some (q_front (sp_q s))) L \<and>
     distinct (L @ push_private (sp_push s) @ pop_private (sp_pop s)) \<and>
     dom (q_heap (sp_q s)) = set (L @ push_private (sp_push s) @ pop_private (sp_pop s)) \<and>
     (\<forall>a \<in> dom (q_heap (sp_q s)). qn_ref (q_node (sp_q s) a) = (if pop_holds (sp_pop s) = Some a then 2 else 1)) \<and>
     push_ok (sp_q s) L (sp_push s) \<and> pop_ok (sp_q s) L (sp_pop s) \<and>
     q_enablePush (sp_q s) \<and> q_enablePop (sp_q s) \<and>
     sp_ins s = sp_outs s @ map (\<lambda>a. qn_data (q_node (sp_q s) a)) (tl L)"
lemma spsc_inv_init: "spsc_inv (spsc_init dummy) [dummy]"
  by (auto simp: spsc_inv_def spsc_init_def CdxQueueCreate_def q_nx_def q_node_def)

lemma spsc_inv_nodes:
  assumes "spsc_inv s L"
  shows "q_front (sp_q s) = hd L" "\<And>a. a \<in> set L \<Longrightarrow> q_heap (sp_q s) a = Some (q_node (sp_q s) a)"
    "chain (q_nx (sp_q s)) (Some (hd L)) L"
proof -
  have L: "L \<noteq> []" "chain (q_nx (sp_q s)) (Some (q_front (sp_q s))) L" "set L \<subseteq> dom (q_heap (sp_q s))"
    using assms by (auto simp: spsc_inv_def)
  then show f: "q_front (sp_q s) = hd L" by (cases L) auto
  show "chain (q_nx (sp_q s)) (Some (hd L)) L" using L(2) f by simp
  show "q_heap (sp_q s) a = Some (q_node (sp_q s) a)" if "a \<in> set L" for a
    using that L(3) by (auto simp: q_node_def)
qed

text \<open>The links of the front node.\<close>

lemma spsc_inv_hd:
  assumes "spsc_inv s L"
  shows "qn_next (q_node (sp_q s) (hd L)) = (case tl L of [] \<Rightarrow> None | x # _ \<Rightarrow> Some x)"
proof -
  obtain f M where L: "L = f # M" using assms by (cases L) (auto simp: spsc_inv_def)
  have "chain (q_nx (sp_q s)) (Some f) (f # M)" using spsc_inv_nodes(3) [OF assms] L by simp
  then have "chain (q_nx (sp_q s)) (qn_next (q_node (sp_q s) f)) M"
    using spsc_inv_nodes(2) [OF assms, of f] L by (simp add: q_nx_def [of _ f])
  then show ?thesis using L by (cases M) auto
qed

lemma q_ptr_simps [simp]:
  "q_nx (q\<lparr>q_front := x\<rparr>) = q_nx q" "q_node (q\<lparr>q_front := x\<rparr>) = q_node q"
  "q_nx (q\<lparr>q_rear := x\<rparr>) = q_nx q" "q_node (q\<lparr>q_rear := x\<rparr>) = q_node q"
  by (auto simp: q_nx_def q_node_def)

text \<open>A change of a reference count alone.\<close>

definition q_refs :: "CdxQueue \<Rightarrow> nat \<Rightarrow> int \<Rightarrow> CdxQueue" where
  "q_refs q e r = q\<lparr>q_heap := (q_heap q)(e \<mapsto> (q_node q e)\<lparr>qn_ref := r\<rparr>)\<rparr>"

lemma q_refs_simps:
  assumes "q_heap q e \<noteq> None"
  shows "q_nx (q_refs q e r) = q_nx q" "dom (q_heap (q_refs q e r)) = dom (q_heap q)"
    "qn_next (q_node (q_refs q e r) a) = qn_next (q_node q a)" "qn_data (q_node (q_refs q e r) a) = qn_data (q_node q a)"
    "qn_ref (q_node (q_refs q e r) a) = (if a = e then r else qn_ref (q_node q a))"
    "q_front (q_refs q e r) = q_front q" "q_rear (q_refs q e r) = q_rear q"
    "q_enablePush (q_refs q e r) = q_enablePush q" "q_enablePop (q_refs q e r) = q_enablePop q"
  using assms by (auto simp: q_refs_def q_nx_def q_node_def fun_eq_iff)

lemma q_refs_ok:
  assumes "q_heap q e \<noteq> None"
  shows "push_ok (q_refs q e r) L pc = push_ok q L pc" "pop_ok (q_refs q e r) L pc = pop_ok q L pc"
  by (cases pc; simp add: q_refs_simps [OF assms])+

lemma ref_calls:
  assumes "q_heap q e \<noteq> None"
  shows "QueueNodeEntityIncRef q e = Ok (q_refs q e (qn_ref (q_node q e) + 1))"
    "qn_ref (q_node q e) \<noteq> 1 \<Longrightarrow> QueueNodeEntityDecRef q e = Ok (q_refs q e (qn_ref (q_node q e) - 1))"
    "qn_ref (q_node q e) = 1 \<Longrightarrow> QueueNodeEntityDecRef q e = Ok (q\<lparr>q_heap := (q_heap q)(e := None)\<rparr>)"
  using assms by (auto simp: QueueNodeEntityIncRef_def QueueNodeEntityDecRef_def q_refs_def q_node_def)

lemma spsc_refs:
  assumes inv: "spsc_inv s L" and e: "e \<in> dom (q_heap (sp_q s))"
    and pc: "pop_private pc = pop_private (sp_pop s)" "pop_ok (sp_q s) L pc"
    and r: "\<forall>a \<in> dom (q_heap (sp_q s)). (if a = e then r else qn_ref (q_node (sp_q s) a)) = (if pop_holds pc = Some a then 2 else 1)"
  shows "spsc_inv (s\<lparr>sp_q := q_refs (sp_q s) e r, sp_pop := pc\<rparr>) L"
proof -
  have "q_heap (sp_q s) e \<noteq> None" using e by auto
  note n = q_refs_simps [OF this] q_refs_ok [OF this]
  show ?thesis using inv pc r by (simp add: spsc_inv_def n)
qed

text \<open>The steps of the consumer.\<close>

lemma spsc_pop_step:
  assumes inv: "spsc_inv s L" and pc: "sp_pop s \<noteq> Idle"
  shows "\<exists>q pc e L'. CdxQueuePop_go (sp_q s) (sp_pop s) = Ok (q, pc, e) \<and>
    spsc_inv (s\<lparr>sp_q := q, sp_pop := pc, sp_outs := sp_outs s @ event_outs e\<rparr>) L'"
proof -
  note nodes = spsc_inv_nodes [OF inv]
  have ne: "L \<noteq> []" using inv by (simp add: spsc_inv_def)
  have hd: "q_heap (sp_q s) (hd L) = Some (q_node (sp_q s) (hd L))" "hd L \<in> dom (q_heap (sp_q s))"
    "q_heap (sp_q s) (hd L) \<noteq> None" using nodes(2) [of "hd L"] ne by auto
  have ref: "qn_ref (q_node (sp_q s) a) = (if pop_holds (sp_pop s) = Some a then 2 else 1)" if "a \<in> dom (q_heap (sp_q s))" for a
    using inv that by (simp add: spsc_inv_def)
  have ok: "pop_ok (sp_q s) L (sp_pop s)" using inv by (simp add: spsc_inv_def)
  show ?thesis
  proof (cases "sp_pop s")
    case PopLoad
    then show ?thesis using inv nodes(1) by (auto simp: spsc_inv_def event_outs_def intro!: exI [of _ L])
  next
    case (PopGot f)
    have f: "f = hd L" using ok PopGot by simp
    have "spsc_inv (s\<lparr>sp_q := q_refs (sp_q s) f 2, sp_pop := PopHeld f\<rparr>) L"
      unfolding f using hd ref PopGot by (intro spsc_refs [OF inv]) auto
    then show ?thesis using PopGot f hd ref [of f] by (simp add: ref_calls event_outs_def) blast
  next
    case (PopHeld f)
    have f: "f = hd L" using ok PopHeld by simp
    show ?thesis
    proof (cases "tl L")
      case Nil
      then show ?thesis using inv PopHeld f hd spsc_inv_hd [OF inv]
        by (auto simp: spsc_inv_def event_outs_def intro!: exI [of _ L])
    next
      case (Cons x M)
      then show ?thesis using inv PopHeld f hd spsc_inv_hd [OF inv]
        by (auto simp: spsc_inv_def event_outs_def intro!: exI [of _ L])
    qed
  next
    case (PopNext f x)
    have "x \<in> set L" using ok PopNext ne by (cases L) auto
    then show ?thesis using inv PopNext ok nodes(2) [of x]
      by (auto simp: spsc_inv_def event_outs_def intro!: exI [of _ L])
  next
    case (PopEmpty f)
    have f: "f = hd L" using ok PopEmpty by simp
    have "spsc_inv (s\<lparr>sp_q := q_refs (sp_q s) f 1, sp_pop := Idle\<rparr>) L"
      unfolding f using hd ref PopEmpty f by (intro spsc_refs [OF inv]) auto
    then show ?thesis using PopEmpty f hd ref [of f] by (simp add: ref_calls event_outs_def) blast
  next
    case (PopData f d)
    obtain x M where L: "L = f # x # M" using ok PopData ne by (cases L; cases "tl L") auto
    have x: "x \<in> set L" "chain (q_nx (sp_q s)) (Some x) (x # M)"
      using L chain_suffix [of "q_nx (sp_q s)" "Some f" "[f]" x M] nodes(3) by auto
    have "push_ok (sp_q s) (x # M) (sp_push s)" "d = qn_data (q_node (sp_q s) x)"
      using inv L PopData by (cases "sp_push s"; simp add: spsc_inv_def)+
    then have "spsc_inv (s\<lparr>sp_q := (sp_q s)\<lparr>q_front := x\<rparr>, sp_pop := PopWon f d, sp_outs := sp_outs s @ [d]\<rparr>) (x # M)"
      using inv L PopData x by (cases "sp_push s") (auto simp: spsc_inv_def)
    then show ?thesis using PopData L hd nodes(1) spsc_inv_hd [OF inv] by (auto simp: event_outs_def)
  next
    case (PopWon f d)
    have f: "f \<in> dom (q_heap (sp_q s))" using inv PopWon by (simp add: spsc_inv_def)
    then have f': "q_heap (sp_q s) f \<noteq> None" by auto
    have "spsc_inv (s\<lparr>sp_q := q_refs (sp_q s) f 1, sp_pop := PopLast f d\<rparr>) L"
      using f ref PopWon by (intro spsc_refs [OF inv]) auto
    then show ?thesis using PopWon f' ref [OF f] by (simp add: ref_calls event_outs_def) blast
  next
    case (PopLast f d)
    have f: "f \<in> dom (q_heap (sp_q s))" "f \<notin> set (L @ push_private (sp_push s))" using inv PopLast by (auto simp: spsc_inv_def)
    then have f': "q_heap (sp_q s) f \<noteq> None" by auto
    define q where "q = (sp_q s)\<lparr>q_heap := (q_heap (sp_q s))(f := None)\<rparr>"
    have n: "q_node q a = q_node (sp_q s) a" if "a \<noteq> f" for a using that by (simp add: q_def q_node_def)
    have nx: "q_nx q = (q_nx (sp_q s))(f := None)" by (auto simp: q_def q_nx_def)
    have "push_ok q L (sp_push s)" using inv f(2) n by (cases "sp_push s") (auto simp: spsc_inv_def q_def)
    moreover have "map (\<lambda>a. qn_data (q_node q a)) (tl L) = map (\<lambda>a. qn_data (q_node (sp_q s) a)) (tl L)"
      using f(2) list.set_sel(2) [of L] ne by (intro map_cong) (auto intro!: arg_cong [where f = qn_data] n)
    moreover have "dom (q_heap q) = set (L @ push_private (sp_push s))"
      using inv f PopLast by (auto simp: spsc_inv_def q_def)
    moreover have "\<forall>a \<in> dom (q_heap q). qn_ref (q_node q a) = 1"
      using ref PopLast n by (auto simp: q_def split: if_splits)
    ultimately have "spsc_inv (s\<lparr>sp_q := q, sp_pop := Idle\<rparr>) L"
      using inv f(2) PopLast by (simp add: spsc_inv_def nx chain_upd) (auto simp: q_def)
    then show ?thesis using PopLast f' ref [OF f(1)] q_def by (simp add: ref_calls event_outs_def) blast
  qed (use pc ok in simp_all)
qed

text \<open>The steps of the producer.\<close>

lemma spsc_link:
  assumes inv: "spsc_inv s L" and pc: "sp_push s = PushTmp e t"
  shows "\<exists>q d. CdxQueuePush_go (sp_q s) (PushTmp e t) = Ok (q, PushLinked e t, Linked d) \<and>
    spsc_inv (s\<lparr>sp_q := q, sp_push := PushLinked e t, sp_ins := sp_ins s @ [d]\<rparr>) (L @ [e])"
proof -
  let ?q = "sp_q s"
  have ne: "L \<noteq> []" and t: "t = last L" and rear: "q_rear ?q = t" and e: "qn_next (q_node ?q e) = None"
    using inv pc by (auto simp: spsc_inv_def)
  have d: "e \<notin> set L" "e \<in> dom (q_heap ?q)" "e \<notin> set (pop_private (sp_pop s))"
    "dom (q_heap ?q) = set (L @ [e] @ pop_private (sp_pop s))"
    "distinct (L @ [e] @ pop_private (sp_pop s))"
    using inv pc by (auto simp: spsc_inv_def)
  have tl: "t \<in> set L" "t \<noteq> e" using t ne d(1) by auto
  have ht: "q_heap ?q t = Some (q_node ?q t)" using spsc_inv_nodes(2) [OF inv tl(1)] .
  have L: "L = butlast L @ [t]" using t ne by simp
  have ch: "chain (q_nx ?q) (Some (hd L)) (butlast L @ [t])" using spsc_inv_nodes(3) [OF inv] L by simp
  have nt: "qn_next (q_node ?q t) = None" using chain_last [OF ch] ht by (simp add: q_nx_def)
  define q where "q = ?q\<lparr>q_heap := (q_heap ?q)(t \<mapsto> (q_node ?q t)\<lparr>qn_next := Some e\<rparr>)\<rparr>"
  have go: "CdxQueuePush_go ?q (PushTmp e t) = Ok (q, PushLinked e t, Linked (qn_data (q_node ?q e)))"
    using ht nt by (simp add: q_def q_node_def [of _ e])
  have nd: "qn_data (q_node q a) = qn_data (q_node ?q a)" "qn_ref (q_node q a) = qn_ref (q_node ?q a)" for a
    by (auto simp: q_def q_node_def)
  have "q_nx q = (q_nx ?q)(t \<mapsto> Some e, e \<mapsto> None)"
    using e d(2) tl(2) by (auto simp: q_def q_nx_def q_node_def fun_eq_iff)
  then have "chain (q_nx q) (Some (hd L)) (butlast L @ [t, e])"
    using chain_snoc [OF ch, of e] d(1) L by simp
  moreover have "butlast L @ [t, e] = L @ [e]" by (subst L) simp
  ultimately have c: "chain (q_nx q) (Some (q_front q)) (L @ [e])"
    using spsc_inv_nodes(1) [OF inv] by (simp add: q_def)
  have "pop_ok q (L @ [e]) (sp_pop s)" using inv ne by (cases "sp_pop s"; cases L) (auto simp: spsc_inv_def nd)
  moreover have "dom (q_heap q) = dom (q_heap ?q)" using ht by (auto simp: q_def)
  moreover have "sp_ins s @ [qn_data (q_node ?q e)] = sp_outs s @ map (\<lambda>a. qn_data (q_node q a)) (tl (L @ [e]))"
    using inv ne nd by (cases L) (auto simp: spsc_inv_def)
  ultimately have "spsc_inv (s\<lparr>sp_q := q, sp_push := PushLinked e t, sp_ins := sp_ins s @ [qn_data (q_node ?q e)]\<rparr>) (L @ [e])"
    using inv c d rear nd by (auto simp: spsc_inv_def q_def)
  then show ?thesis using go by blast
qed

lemma spsc_push_step:
  assumes inv: "spsc_inv s L" and pc: "sp_push s \<noteq> Idle"
  shows "\<exists>q pc e L'. CdxQueuePush_go (sp_q s) (sp_push s) = Ok (q, pc, e) \<and>
    spsc_inv (s\<lparr>sp_q := q, sp_push := pc, sp_ins := sp_ins s @ event_ins e\<rparr>) L'"
proof (cases "sp_push s")
  case (PushRead e)
  then show ?thesis using inv by (auto simp: spsc_inv_def event_ins_def intro!: exI [of _ L])
next
  case (PushTmp e t)
  then show ?thesis using spsc_link [OF inv PushTmp] by (fastforce simp: event_ins_def)
next
  case (PushLinked e t)
  have "pop_ok ((sp_q s)\<lparr>q_rear := e\<rparr>) L (sp_pop s)"
    using inv by (cases "sp_pop s") (auto simp: spsc_inv_def)
  then show ?thesis using inv PushLinked by (auto simp: spsc_inv_def event_ins_def intro!: exI [of _ L])
qed (use inv pc in \<open>simp_all add: spsc_inv_def\<close>)

lemma spsc_start_push:
  assumes inv: "spsc_inv s L" and pc: "sp_push s = Idle" and a: "q_heap (sp_q s) a = None"
    and st: "CdxQueuePush_start (sp_q s) a d = (q, pc)"
  shows "spsc_inv (s\<lparr>sp_q := q, sp_push := pc\<rparr>) L"
proof -
  have q: "q = (sp_q s)\<lparr>q_heap := (q_heap (sp_q s))(a \<mapsto> \<lparr>qn_next = None, qn_ref = 1, qn_data = d\<rparr>)\<rparr>" "pc = PushRead a"
    using st inv by (auto simp: CdxQueuePush_start_def spsc_inv_def)
  have ne: "L \<noteq> []" using inv by (simp add: spsc_inv_def)
  have a': "a \<notin> dom (q_heap (sp_q s))" "a \<notin> set L" "a \<notin> set (pop_private (sp_pop s))" "pop_holds (sp_pop s) \<noteq> Some a"
  proof -
    show "a \<notin> dom (q_heap (sp_q s))" using a by auto
    then show "a \<notin> set L" "a \<notin> set (pop_private (sp_pop s))" using inv by (auto simp: spsc_inv_def)
    then show "pop_holds (sp_pop s) \<noteq> Some a" using inv ne by (cases "sp_pop s") (auto simp: spsc_inv_def)
  qed
  have n: "q_node q b = q_node (sp_q s) b" if "b \<noteq> a" for b using that by (simp add: q q_node_def)
  have na: "q_node q a = \<lparr>qn_next = None, qn_ref = 1, qn_data = d\<rparr>" by (simp add: q q_node_def)
  have nx: "q_nx q = (q_nx (sp_q s))(a \<mapsto> None)" by (auto simp: q q_nx_def)
  have "hd (tl L) \<noteq> a" if "tl L \<noteq> []" using that a'(2) by (cases L) auto
  then have "pop_ok q L (sp_pop s)" using inv n [of "hd (tl L)"] by (cases "sp_pop s") (auto simp: spsc_inv_def)
  moreover have "map (\<lambda>b. qn_data (q_node q b)) (tl L) = map (\<lambda>b. qn_data (q_node (sp_q s) b)) (tl L)"
    using a'(2) list.set_sel(2) [of L] ne by (intro map_cong) (auto intro!: arg_cong [where f = qn_data] n)
  moreover have "dom (q_heap q) = insert a (dom (q_heap (sp_q s)))" by (auto simp: q)
  moreover have "\<forall>b \<in> dom (q_heap (sp_q s)). qn_ref (q_node q b) = (if pop_holds (sp_pop s) = Some b then 2 else 1)"
  proof
    fix b assume b: "b \<in> dom (q_heap (sp_q s))"
    then have "b \<noteq> a" using a'(1) by auto
    then show "qn_ref (q_node q b) = (if pop_holds (sp_pop s) = Some b then 2 else 1)"
      using n [of b] inv b by (simp add: spsc_inv_def)
  qed
  ultimately show ?thesis using inv pc a' na
    by (simp add: spsc_inv_def nx chain_upd q(2)) (auto simp: q(1))
qed

lemma spsc_reach_inv:
  assumes "spsc_reach dummy s"
  shows "\<exists>L. spsc_inv s L"
  using assms unfolding spsc_reach_def
proof (induction rule: rtranclp_induct)
  case base
  then show ?case using spsc_inv_init by blast
next
  case (step s s')
  then obtain L where inv: "spsc_inv s L" by blast
  from step.hyps(2) show ?case
  proof cases
    case (start_push a d q pc)
    then show ?thesis using spsc_start_push [OF inv] by blast
  next
    case start_pop
    have "spsc_inv (s\<lparr>sp_pop := CdxQueuePop_start (sp_q s)\<rparr>) L"
      using inv start_pop by (auto simp: spsc_inv_def CdxQueuePop_start_def)
    then show ?thesis using start_pop by blast
  next
    case (push q pc e)
    then show ?thesis using spsc_push_step [OF inv] by auto
  next
    case (pop q pc e)
    then show ?thesis using spsc_pop_step [OF inv] by auto
  qed
qed

text \<open>C9. With one producer and one consumer the queue is safe in every interleaving: no thread reads
  a node that was freed, the data come out in the order in which they were linked, a pop reports an empty queue
  only when all data were taken, no compare-and-swap fails, and an empty queue at rest is destroyed without
  leaving a node behind.\<close>

theorem lockfree_one_producer_one_consumer:
  assumes "spsc_reach dummy s"
  shows "(sp_push s \<noteq> Idle \<longrightarrow> (\<exists>r. CdxQueuePush_go (sp_q s) (sp_push s) = Ok r)) \<and>
    (sp_pop s \<noteq> Idle \<longrightarrow> (\<exists>r. CdxQueuePop_go (sp_q s) (sp_pop s) = Ok r)) \<and>
    (\<exists>rest. sp_ins s = sp_outs s @ rest) \<and>
    (\<forall>q pc. CdxQueuePop_go (sp_q s) (sp_pop s) = Ok (q, pc, FoundEmpty) \<longrightarrow> sp_ins s = sp_outs s) \<and>
    (\<forall>f. sp_pop s \<noteq> PopRetry f) \<and>
    (\<forall>e t q pc v. sp_push s = PushTmp e t \<longrightarrow> CdxQueuePush_go (sp_q s) (sp_push s) = Ok (q, pc, v) \<longrightarrow> pc = PushLinked e t) \<and>
    (sp_push s = Idle \<and> sp_pop s = Idle \<longrightarrow>
      (CdxQueueEmpty (sp_q s) \<longleftrightarrow> sp_ins s = sp_outs s) \<and>
      (sp_ins s = sp_outs s \<longrightarrow> (\<exists>q. CdxQueueDestroy (sp_q s) = Ok q \<and> q_heap q = Map.empty)))"
proof -
  obtain L where inv: "spsc_inv s L" using spsc_reach_inv [OF assms] by blast
  have ne: "L \<noteq> []" and ins: "sp_ins s = sp_outs s @ map (\<lambda>a. qn_data (q_node (sp_q s) a)) (tl L)"
    and ok: "pop_ok (sp_q s) L (sp_pop s)" using inv by (auto simp: spsc_inv_def)
  have empty: "sp_ins s = sp_outs s" if "CdxQueuePop_go (sp_q s) (sp_pop s) = Ok (q, pc, FoundEmpty)" for q pc
  proof -
    have "\<exists>f. sp_pop s = PopHeld f" using that by (cases "sp_pop s") (auto split: option.splits if_splits)
    then have "sp_pop s = PopHeld (hd L)" using ok by auto
    then have "qn_next (q_node (sp_q s) (hd L)) = None"
      using that by (auto simp: q_node_def split: option.splits)
    then show ?thesis using spsc_inv_hd [OF inv] ins by (cases "tl L") auto
  qed
  have rest: "(CdxQueueEmpty (sp_q s) \<longleftrightarrow> sp_ins s = sp_outs s) \<and>
      (sp_ins s = sp_outs s \<longrightarrow> (\<exists>q. CdxQueueDestroy (sp_q s) = Ok q \<and> q_heap q = Map.empty))"
    if idle: "sp_push s = Idle" "sp_pop s = Idle"
  proof -
    have "q_rear (sp_q s) = last L" "distinct L" "dom (q_heap (sp_q s)) = set L"
      using inv idle by (auto simp: spsc_inv_def)
    moreover have "q_front (sp_q s) = hd L" using spsc_inv_nodes(1) [OF inv] .
    ultimately have e: "CdxQueueEmpty (sp_q s) \<longleftrightarrow> tl L = []"
      using ne by (cases L) (auto simp: CdxQueueEmpty_def)
    have "\<exists>q. CdxQueueDestroy (sp_q s) = Ok q \<and> q_heap q = Map.empty" if one: "tl L = []"
    proof -
      obtain f where L: "L = [f]" using ne one by (cases L) auto
      have "q_heap (sp_q s) f = Some (q_node (sp_q s) f)" "qn_ref (q_node (sp_q s) f) = 1"
        "dom (q_heap (sp_q s)) = {f}" "q_front (sp_q s) = f"
        using inv idle L spsc_inv_nodes(1,2) [OF inv] by (auto simp: spsc_inv_def)
      then show ?thesis by (auto simp: CdxQueueDestroy_def QueueNodeEntityDecRef_def fun_eq_iff)
    qed
    then show ?thesis using e ins by auto
  qed
  have "\<forall>f. sp_pop s \<noteq> PopRetry f" using ok by auto
  moreover have "\<forall>e t q pc v. sp_push s = PushTmp e t \<longrightarrow>
      CdxQueuePush_go (sp_q s) (sp_push s) = Ok (q, pc, v) \<longrightarrow> pc = PushLinked e t"
    using spsc_link [OF inv] by fastforce
  moreover have "\<exists>rest. sp_ins s = sp_outs s @ rest" using ins by blast
  moreover have "sp_push s \<noteq> Idle \<longrightarrow> (\<exists>r. CdxQueuePush_go (sp_q s) (sp_push s) = Ok r)"
    using spsc_push_step [OF inv] by blast
  moreover have "sp_pop s \<noteq> Idle \<longrightarrow> (\<exists>r. CdxQueuePop_go (sp_q s) (sp_pop s) = Ok r)"
    using spsc_pop_step [OF inv] by blast
  ultimately show ?thesis using empty rest by blast
qed

lemma spsc_reach_next: "spsc_reach d s \<Longrightarrow> spsc_step s t \<Longrightarrow> spsc_reach d t"
  unfolding spsc_reach_def by (rule rtranclp.rtrancl_into_rtrancl)

text \<open>A queue in which one item was linked while the consumer holds the dummy node.\<close>

definition spsc_demo :: spsc where
  "spsc_demo = (spsc_init 1)\<lparr>sp_q := (CdxQueueCreate 1)\<lparr>q_heap := [1 \<mapsto> \<lparr>qn_next = None, qn_ref = 1, qn_data = 0\<rparr>,
     2 \<mapsto> \<lparr>qn_next = None, qn_ref = 1, qn_data = 7\<rparr>]\<rparr>, sp_push := PushTmp 2 1, sp_pop := PopGot 1\<rparr>"

lemma spsc_demo_reach: "spsc_reach 1 spsc_demo"
proof -
  let ?q = "(CdxQueueCreate 1)\<lparr>q_heap := [1 \<mapsto> \<lparr>qn_next = None, qn_ref = 1, qn_data = 0\<rparr>,
     2 \<mapsto> \<lparr>qn_next = None, qn_ref = 1, qn_data = 7\<rparr>]\<rparr>"
  have "spsc_reach 1 (spsc_init 1)" by (simp add: spsc_reach_def)
  then have "spsc_reach 1 ((spsc_init 1)\<lparr>sp_q := ?q, sp_push := PushRead 2\<rparr>)"
    by (rule spsc_reach_next) (rule spsc_step.start_push [where a = 2 and d = 7],
      simp_all add: spsc_init_def CdxQueueCreate_def CdxQueuePush_start_def)
  then have "spsc_reach 1 ((spsc_init 1)\<lparr>sp_q := ?q, sp_push := PushRead 2, sp_pop := PopLoad\<rparr>)"
    by (rule spsc_reach_next) (insert spsc_step.start_pop [of "(spsc_init 1)\<lparr>sp_q := ?q, sp_push := PushRead 2\<rparr>"],
      simp add: spsc_init_def CdxQueueCreate_def CdxQueuePop_start_def)
  then have "spsc_reach 1 ((spsc_init 1)\<lparr>sp_q := ?q, sp_push := PushTmp 2 1, sp_pop := PopLoad\<rparr>)"
    by (rule spsc_reach_next) (insert spsc_step.push [of "(spsc_init 1)\<lparr>sp_q := ?q, sp_push := PushRead 2, sp_pop := PopLoad\<rparr>"
        ?q "PushTmp 2 1" Quiet], simp add: spsc_init_def CdxQueueCreate_def event_ins_def)
  then have "spsc_reach 1 ((spsc_init 1)\<lparr>sp_q := ?q, sp_push := PushTmp 2 1, sp_pop := PopGot 1\<rparr>)"
    by (rule spsc_reach_next) (insert spsc_step.pop [of "(spsc_init 1)\<lparr>sp_q := ?q, sp_push := PushTmp 2 1, sp_pop := PopLoad\<rparr>"
        ?q "PopGot 1" Quiet], simp add: spsc_init_def CdxQueueCreate_def event_outs_def)
  then show ?thesis by (simp add: spsc_demo_def)
qed

theorem lockfree_one_producer_one_consumer_witness:
  "(\<exists>r. CdxQueuePush_go (sp_q spsc_demo) (sp_push spsc_demo) = Ok r) \<and>
   (\<exists>r. CdxQueuePop_go (sp_q spsc_demo) (sp_pop spsc_demo) = Ok r)"
  using lockfree_one_producer_one_consumer [OF spsc_demo_reach] by (simp add: spsc_demo_def)

section \<open>Two producers\<close>

datatype queue_act = StartPush nat addr | StartPop | GoPush | GoPop

text \<open>Any number of threads: the calls in progress and the thread that makes the next access.\<close>

fun queue_run :: "(nat \<times> queue_act) list \<Rightarrow> CdxQueue \<times> (nat \<Rightarrow> queue_pc) \<Rightarrow> (CdxQueue \<times> (nat \<Rightarrow> queue_pc)) exec" where
  "queue_run [] s = Ok s"
| "queue_run ((t, act) # sched) (q, pcs) = (case act of
       StartPush a d \<Rightarrow> (case CdxQueuePush_start q a d of (q1, pc) \<Rightarrow> queue_run sched (q1, pcs(t := pc)))
     | StartPop \<Rightarrow> queue_run sched (q, pcs(t := CdxQueuePop_start q))
     | GoPush \<Rightarrow> ebind (CdxQueuePush_go q (pcs t)) (\<lambda>(q1, pc, _). queue_run sched (q1, pcs(t := pc)))
     | GoPop \<Rightarrow> ebind (CdxQueuePop_go q (pcs t)) (\<lambda>(q1, pc, _). queue_run sched (q1, pcs(t := pc))))"

text \<open>Thread 1 has read the rear pointer; thread 0 completes a push, thread 2 a pop, which frees the
  node thread 1 has read.\<close>

definition two_producers :: "nat \<Rightarrow> nat \<Rightarrow> addr \<Rightarrow> addr \<Rightarrow> (nat \<times> queue_act) list" where
  "two_producers a b x y = [(1, StartPush b y), (1, GoPush), (0, StartPush a x), (0, GoPush), (0, GoPush), (0, GoPush),
     (2, StartPop), (2, GoPop), (2, GoPop), (2, GoPop), (2, GoPop), (2, GoPop), (2, GoPop), (2, GoPop)]"

text \<open>C37. With a second producer the queue is not safe: a push holds no reference on the node it read
  from the rear pointer, so that the node can be taken out and freed by complete calls of other threads
  before the push writes to its \<open>next\<close> field. Up to there every access is permitted.\<close>

theorem lockfree_two_producers_use_after_free:
  assumes "distinct [dummy, a, b]" "x \<noteq> 0" "y \<noteq> 0"
  shows "\<exists>q pcs. queue_run (two_producers a b x y) (CdxQueueCreate dummy, \<lambda>_. Idle) = Ok (q, pcs) \<and>
    pcs 0 = Idle \<and> pcs 2 = Idle \<and> pcs 1 = PushTmp b dummy \<and> q_heap q dummy = None \<and>
    CdxQueuePush_go q (pcs 1) = Fault"
  using assms by (simp add: two_producers_def CdxQueueCreate_def CdxQueuePush_start_def CdxQueuePop_start_def
    QueueNodeEntityIncRef_def QueueNodeEntityDecRef_def)

theorem lockfree_two_producers_use_after_free_witness:
  "\<exists>q pcs. queue_run (two_producers 2 3 7 8) (CdxQueueCreate 1, \<lambda>_. Idle) = Ok (q, pcs) \<and>
    pcs 0 = Idle \<and> pcs 2 = Idle \<and> pcs 1 = PushTmp 3 1 \<and> q_heap q 1 = None \<and>
    CdxQueuePush_go q (pcs 1) = Fault"
  by (rule lockfree_two_producers_use_after_free) simp_all

end
