(* ===== verification/Cdx_List.thy ===== *)
theory Cdx_List
  imports Cedar_Prelude
begin

text \<open>
  The intrusive doubly linked lists of the player library, \<open>libcore/base/include/CdxList.i\<close>. A list is a
  ring of nodes through its header, whose fields \<open>head\<close> and \<open>tail\<close> the code uses as \<open>next\<close> and \<open>prev\<close> of a
  node. The nodes live in a heap, a map from addresses to nodes; reading or writing another address is a
  fault. \<open>dlist h l xs\<close> says that the header \<open>l\<close> holds the nodes \<open>xs\<close>; every operation is shown to act on
  \<open>xs\<close> as its comment says.
\<close>

section \<open>Data and operations\<close>

record CdxListNode =
  ln_next :: addr
  ln_prev :: addr

type_synonym list_heap = "addr \<rightharpoonup> CdxListNode"

abbreviation (input) CDX_LIST_POISON1 :: addr where "CDX_LIST_POISON1 \<equiv> 0x00100100"
abbreviation (input) CDX_LIST_POISON2 :: addr where "CDX_LIST_POISON2 \<equiv> 0x00200200"

definition get_node :: "list_heap \<Rightarrow> addr \<Rightarrow> CdxListNode exec" where
  "get_node h a = (case h a of None \<Rightarrow> Fault | Some n \<Rightarrow> Ok n)"

definition set_next :: "addr \<Rightarrow> addr \<Rightarrow> list_heap \<Rightarrow> list_heap exec" where
  "set_next a v h = ebind (get_node h a) (\<lambda>n. Ok (h(a \<mapsto> n\<lparr>ln_next := v\<rparr>)))"

definition set_prev :: "addr \<Rightarrow> addr \<Rightarrow> list_heap \<Rightarrow> list_heap exec" where
  "set_prev a v h = ebind (get_node h a) (\<lambda>n. Ok (h(a \<mapsto> n\<lparr>ln_prev := v\<rparr>)))"

definition CdxListInit :: "addr \<Rightarrow> list_heap \<Rightarrow> list_heap" where
  "CdxListInit l h = h(l \<mapsto> \<lparr>ln_next = l, ln_prev = l\<rparr>)"

definition list_add :: "addr \<Rightarrow> addr \<Rightarrow> addr \<Rightarrow> list_heap \<Rightarrow> list_heap exec" where
  "list_add new prv nxt h =
     ebind (set_prev nxt new h) (\<lambda>h. ebind (set_next new nxt h) (\<lambda>h.
     ebind (set_prev new prv h) (\<lambda>h. set_next prv new h)))"

definition CdxListAdd :: "addr \<Rightarrow> addr \<Rightarrow> list_heap \<Rightarrow> list_heap exec" where
  "CdxListAdd new l h = ebind (get_node h l) (\<lambda>n. list_add new l (ln_next n) h)"

definition CdxListAddBefore :: "addr \<Rightarrow> addr \<Rightarrow> list_heap \<Rightarrow> list_heap exec" where
  "CdxListAddBefore new pos h = ebind (get_node h pos) (\<lambda>n. list_add new (ln_prev n) pos h)"

definition CdxListAddAfter :: "addr \<Rightarrow> addr \<Rightarrow> list_heap \<Rightarrow> list_heap exec" where
  "CdxListAddAfter new pos h = ebind (get_node h pos) (\<lambda>n. list_add new pos (ln_next n) h)"

definition CdxListAddTail :: "addr \<Rightarrow> addr \<Rightarrow> list_heap \<Rightarrow> list_heap exec" where
  "CdxListAddTail new l h = ebind (get_node h l) (\<lambda>n. list_add new (ln_prev n) l h)"

definition list_del :: "addr \<Rightarrow> addr \<Rightarrow> list_heap \<Rightarrow> list_heap exec" where
  "list_del prv nxt h = ebind (set_prev nxt prv h) (\<lambda>h. set_next prv nxt h)"

definition CdxListDelEntry :: "addr \<Rightarrow> list_heap \<Rightarrow> list_heap exec" where
  "CdxListDelEntry node h = ebind (get_node h node) (\<lambda>n. list_del (ln_prev n) (ln_next n) h)"

definition CdxListDel :: "addr \<Rightarrow> list_heap \<Rightarrow> list_heap exec" where
  "CdxListDel node h =
     ebind (get_node h node) (\<lambda>n. ebind (list_del (ln_prev n) (ln_next n) h) (\<lambda>h.
     ebind (set_next node CDX_LIST_POISON1 h) (\<lambda>h. set_prev node CDX_LIST_POISON2 h)))"

definition CdxListReplace :: "addr \<Rightarrow> addr \<Rightarrow> list_heap \<Rightarrow> list_heap exec" where
  "CdxListReplace old new h =
     ebind (get_node h old) (\<lambda>m. ebind (set_next new (ln_next m) h) (\<lambda>h.
     ebind (get_node h new) (\<lambda>n. ebind (set_prev (ln_next n) new h) (\<lambda>h.
     ebind (get_node h old) (\<lambda>m. ebind (set_prev new (ln_prev m) h) (\<lambda>h.
     ebind (get_node h new) (\<lambda>n. set_next (ln_prev n) new h)))))))"

definition CdxListReplaceInit :: "addr \<Rightarrow> addr \<Rightarrow> list_heap \<Rightarrow> list_heap exec" where
  "CdxListReplaceInit old new h = ebind (CdxListReplace old new h) (\<lambda>h. Ok (CdxListInit old h))"

definition CdxListDelInit :: "addr \<Rightarrow> list_heap \<Rightarrow> list_heap exec" where
  "CdxListDelInit node h = ebind (CdxListDelEntry node h) (\<lambda>h. Ok (CdxListInit node h))"

definition CdxListMove :: "addr \<Rightarrow> addr \<Rightarrow> list_heap \<Rightarrow> list_heap exec" where
  "CdxListMove node l h = ebind (CdxListDelEntry node h) (CdxListAdd node l)"

definition CdxListMoveTail :: "addr \<Rightarrow> addr \<Rightarrow> list_heap \<Rightarrow> list_heap exec" where
  "CdxListMoveTail node l h = ebind (CdxListDelEntry node h) (CdxListAddTail node l)"

definition CdxListIsLast :: "addr \<Rightarrow> addr \<Rightarrow> list_heap \<Rightarrow> bool exec" where
  "CdxListIsLast node l h = ebind (get_node h node) (\<lambda>n. Ok (ln_next n = l))"

definition CdxListEmpty :: "addr \<Rightarrow> list_heap \<Rightarrow> bool exec" where
  "CdxListEmpty l h = ebind (get_node h l) (\<lambda>n. Ok (ln_next n = l \<and> ln_prev n = l))"

definition CdxListRotateLeft :: "addr \<Rightarrow> list_heap \<Rightarrow> list_heap exec" where
  "CdxListRotateLeft l h = ebind (CdxListEmpty l h) (\<lambda>e.
     if \<not> e then ebind (get_node h l) (\<lambda>n. CdxListMoveTail (ln_next n) l h) else Ok h)"

definition CdxListIsSingular :: "addr \<Rightarrow> list_heap \<Rightarrow> bool exec" where
  "CdxListIsSingular l h = ebind (CdxListEmpty l h) (\<lambda>e. ebind (get_node h l) (\<lambda>n. Ok (\<not> e \<and> ln_next n = ln_prev n)))"

section \<open>The ring\<close>

definition l_nx :: "list_heap \<Rightarrow> addr \<Rightarrow> addr option" where
  "l_nx h a = map_option ln_next (h a)"

definition l_pv :: "list_heap \<Rightarrow> addr \<Rightarrow> addr option" where
  "l_pv h a = map_option ln_prev (h a)"

text \<open>Neighbours point to each other.\<close>

fun links :: "list_heap \<Rightarrow> addr list \<Rightarrow> bool" where
  "links h (a # b # as) \<longleftrightarrow> l_nx h a = Some b \<and> l_pv h b = Some a \<and> links h (b # as)"
| "links h _ \<longleftrightarrow> True"

definition dlist :: "list_heap \<Rightarrow> addr \<Rightarrow> addr list \<Rightarrow> bool" where
  "dlist h l xs \<longleftrightarrow> distinct (l # xs) \<and> links h (l # xs @ [l])"

lemma links_append: "links h (us @ a # vs) \<longleftrightarrow> links h (us @ [a]) \<and> links h (a # vs)"
proof (induction us)
  case (Cons u us)
  then show ?case by (cases us) auto
qed simp

lemma links_cong:
  assumes "\<And>a. a \<in> set (butlast us) \<Longrightarrow> l_nx h' a = l_nx h a" "\<And>b. b \<in> set (tl us) \<Longrightarrow> l_pv h' b = l_pv h b"
  shows "links h' us = links h us"
  using assms
proof (induction us)
  case (Cons a us)
  show ?case
  proof (cases us)
    case (Cons b vs)
    have "links h' us = links h us"
      by (rule Cons.IH) (use Cons.prems \<open>us = b # vs\<close> in simp_all)
    then show ?thesis using Cons.prems \<open>us = b # vs\<close> by simp
  qed simp
qed simp

text \<open>The ring cut open between two neighbours.\<close>

lemma dlist_cut:
  "dlist h l (as @ bs) \<longleftrightarrow> distinct (l # as @ bs) \<and> links h (l # as) \<and> links h (bs @ [l]) \<and>
     l_nx h (last (l # as)) = Some (hd (bs @ [l])) \<and> l_pv h (hd (bs @ [l])) = Some (last (l # as))"
proof -
  define p where "p = last (l # as)"
  define us where "us = butlast (l # as)"
  obtain n ws where n: "bs @ [l] = n # ws" by (cases bs) auto
  have u: "l # as = us @ [p]" by (simp add: us_def p_def)
  have "l # (as @ bs) @ [l] = (l # as) @ (bs @ [l])" by simp
  also have "\<dots> = us @ p # n # ws" unfolding u n by simp
  finally have "links h (l # (as @ bs) @ [l]) \<longleftrightarrow> links h (us @ [p]) \<and> links h (p # n # ws)"
    using links_append [of h us p "n # ws"] by simp
  then show ?thesis unfolding dlist_def p_def [symmetric] n u by (auto simp: u)
qed

lemma dlist_nodes:
  assumes "dlist h l xs" "a \<in> set (l # xs)"
  shows "a \<in> dom h"
proof -
  have "\<forall>a \<in> set (butlast us). a \<in> dom h" if "links h us" for us
    using that by (induction us rule: induct_list012) (auto simp: l_nx_def)
  from this [of "l # xs @ [l]"] show ?thesis using assms by (auto simp: dlist_def butlast_append)
qed
section \<open>Insertion and removal\<close>

text \<open>What one write does to the links.\<close>

lemma set_next_fields:
  assumes "a \<in> dom h"
  shows "\<exists>h'. set_next a v h = Ok h' \<and> l_nx h' = (l_nx h)(a \<mapsto> v) \<and> l_pv h' = l_pv h \<and> dom h' = dom h \<and>
    (\<forall>b. b \<noteq> a \<longrightarrow> h' b = h b)"
proof -
  obtain y where "h a = Some y" using assms by auto
  then show ?thesis by (intro exI [of _ "h(a \<mapsto> y\<lparr>ln_next := v\<rparr>)"])
      (auto simp: set_next_def get_node_def l_nx_def l_pv_def fun_eq_iff)
qed

lemma set_prev_fields:
  assumes "a \<in> dom h"
  shows "\<exists>h'. set_prev a v h = Ok h' \<and> l_pv h' = (l_pv h)(a \<mapsto> v) \<and> l_nx h' = l_nx h \<and> dom h' = dom h \<and>
    (\<forall>b. b \<noteq> a \<longrightarrow> h' b = h b)"
proof -
  obtain y where "h a = Some y" using assms by auto
  then show ?thesis by (intro exI [of _ "h(a \<mapsto> y\<lparr>ln_prev := v\<rparr>)"])
      (auto simp: set_prev_def get_node_def l_nx_def l_pv_def fun_eq_iff)
qed

lemma list_add_fields:
  assumes "new \<in> dom h" "prv \<in> dom h" "nxt \<in> dom h" "new \<noteq> prv" "new \<noteq> nxt"
  shows "\<exists>h'. list_add new prv nxt h = Ok h' \<and> l_nx h' = (l_nx h)(new \<mapsto> nxt, prv \<mapsto> new) \<and>
    l_pv h' = (l_pv h)(new \<mapsto> prv, nxt \<mapsto> new) \<and> dom h' = dom h \<and> (\<forall>b. b \<notin> {new, prv, nxt} \<longrightarrow> h' b = h b)"
proof -
  obtain h1 where 1: "set_prev nxt new h = Ok h1" "l_pv h1 = (l_pv h)(nxt \<mapsto> new)" "l_nx h1 = l_nx h" "dom h1 = dom h"
    "\<forall>b. b \<noteq> nxt \<longrightarrow> h1 b = h b" using set_prev_fields [OF assms(3)] by blast
  have "new \<in> dom h1" using 1(4) assms(1) by simp
  then obtain h2 where 2: "set_next new nxt h1 = Ok h2" "l_nx h2 = (l_nx h1)(new \<mapsto> nxt)" "l_pv h2 = l_pv h1" "dom h2 = dom h1"
    "\<forall>b. b \<noteq> new \<longrightarrow> h2 b = h1 b" using set_next_fields by blast
  have "new \<in> dom h2" using 1(4) 2(4) assms(1) by simp
  then obtain h3 where 3: "set_prev new prv h2 = Ok h3" "l_pv h3 = (l_pv h2)(new \<mapsto> prv)" "l_nx h3 = l_nx h2" "dom h3 = dom h2"
    "\<forall>b. b \<noteq> new \<longrightarrow> h3 b = h2 b" using set_prev_fields by blast
  have "prv \<in> dom h3" using 1(4) 2(4) 3(4) assms(2) by simp
  then obtain h4 where 4: "set_next prv new h3 = Ok h4" "l_nx h4 = (l_nx h3)(prv \<mapsto> new)" "l_pv h4 = l_pv h3" "dom h4 = dom h3"
    "\<forall>b. b \<noteq> prv \<longrightarrow> h4 b = h3 b" using set_next_fields by blast
  have "l_pv h4 = (l_pv h)(new \<mapsto> prv, nxt \<mapsto> new)" using 1 2 3 4 assms(5) by (auto simp: fun_upd_twist)
  moreover have "l_nx h4 = (l_nx h)(new \<mapsto> nxt, prv \<mapsto> new)" using 1 2 3 4 by simp
  ultimately show ?thesis using 1 2 3 4 by (auto simp: list_add_def)
qed

lemma list_del_fields:
  assumes "prv \<in> dom h" "nxt \<in> dom h"
  shows "\<exists>h'. list_del prv nxt h = Ok h' \<and> l_nx h' = (l_nx h)(prv \<mapsto> nxt) \<and> l_pv h' = (l_pv h)(nxt \<mapsto> prv) \<and>
    dom h' = dom h \<and> (\<forall>b. b \<notin> {prv, nxt} \<longrightarrow> h' b = h b)"
proof -
  obtain h1 where 1: "set_prev nxt prv h = Ok h1" "l_pv h1 = (l_pv h)(nxt \<mapsto> prv)" "l_nx h1 = l_nx h" "dom h1 = dom h"
    "\<forall>b. b \<noteq> nxt \<longrightarrow> h1 b = h b" using set_prev_fields [OF assms(2)] by blast
  have "prv \<in> dom h1" using 1(4) assms(1) by simp
  then obtain h2 where 2: "set_next prv nxt h1 = Ok h2" "l_nx h2 = (l_nx h1)(prv \<mapsto> nxt)" "l_pv h2 = l_pv h1" "dom h2 = dom h1"
    "\<forall>b. b \<noteq> prv \<longrightarrow> h2 b = h1 b" using set_next_fields by blast
  show ?thesis using 1 2 by (auto simp: list_del_def)
qed

text \<open>The nodes an operation on the list may change.\<close>

definition same_outside :: "addr set \<Rightarrow> list_heap \<Rightarrow> list_heap \<Rightarrow> bool" where
  "same_outside A h' h \<longleftrightarrow> dom h' = dom h \<and> (\<forall>b. b \<notin> A \<longrightarrow> h' b = h b)"

lemma same_outside_mono: "same_outside A h' h \<Longrightarrow> A \<subseteq> B \<Longrightarrow> same_outside B h' h"
  by (auto simp: same_outside_def)

lemma same_outside_trans: "same_outside A h2 h1 \<Longrightarrow> same_outside A h1 h \<Longrightarrow> same_outside A h2 h"
  by (auto simp: same_outside_def)

lemma same_outside_dlist:
  assumes "same_outside A h' h" "dlist h l xs" "set (l # xs) \<inter> A = {}"
  shows "dlist h' l xs"
proof -
  have "h' a = h a" if "a \<in> set (l # xs)" for a using assms(1,3) that by (auto simp: same_outside_def)
  then have "links h' (l # xs @ [l]) = links h (l # xs @ [l])"
    by (intro links_cong) (auto simp: l_nx_def l_pv_def butlast_append split: if_splits)
  then show ?thesis using assms(2) by (simp add: dlist_def)
qed

lemma hd_app_in: "hd (bs @ [l]) \<in> set (l # bs)" "last (l # as) \<in> set (l # as)"
  by (cases bs) auto

lemma dlist_insert:
  assumes d: "dlist h l (as @ bs)" and new: "new \<in> dom h" "new \<notin> set (l # as @ bs)"
  shows "\<exists>h'. list_add new (last (l # as)) (hd (bs @ [l])) h = Ok h' \<and> dlist h' l (as @ new # bs) \<and>
    same_outside (set (new # l # as @ bs)) h' h"
proof -
  let ?p = "last (l # as)" and ?n = "hd (bs @ [l])"
  have dc: "distinct (l # as @ bs)" "links h (l # as)" "links h (bs @ [l])" using d by (auto simp: dlist_cut)
  have pn: "?p \<in> set (l # as @ bs)" "?n \<in> set (l # as @ bs)" using hd_app_in(1) [of bs l] hd_app_in(2) [of l as] by auto
  have h: "?p \<in> dom h" "?n \<in> dom h" using dlist_nodes [OF d] pn by auto
  obtain h' where h': "list_add new ?p ?n h = Ok h'" "l_nx h' = (l_nx h)(new \<mapsto> ?n, ?p \<mapsto> new)"
    "l_pv h' = (l_pv h)(new \<mapsto> ?p, ?n \<mapsto> new)" "dom h' = dom h" "\<forall>b. b \<notin> {new, ?p, ?n} \<longrightarrow> h' b = h b"
    using list_add_fields [OF new(1) h] new(2) pn by metis
  have nn: "new \<noteq> ?p" "new \<noteq> ?n" using new(2) pn by auto
  have pb: "?p \<notin> set (butlast (l # as))" "?p \<notin> set bs" "?n \<notin> set as" "?n \<notin> set (tl (bs @ [l]))"
  proof -
    have "distinct (butlast (l # as) @ [?p])" using dc(1) append_butlast_last_id [of "l # as"] by (simp del: butlast.simps last.simps)
    then show "?p \<notin> set (butlast (l # as))" by simp
    show "?p \<notin> set bs" using dc(1) hd_app_in(2) [of l as] by auto
    show "?n \<notin> set as" "?n \<notin> set (tl (bs @ [l]))" using dc(1) by (cases bs; auto)+
  qed
  have "links h' (l # as) = links h (l # as)"
    using h'(2,3) pb new(2) nn by (intro links_cong) (auto dest: in_set_butlastD simp del: butlast.simps last.simps)
  moreover have "links h' (bs @ [l]) = links h (bs @ [l])"
    using h'(2,3) pb new(2) nn by (intro links_cong) (auto dest: list.set_sel(2) [rotated] simp: butlast_append simp del: last.simps split: if_splits)
  ultimately have "links h' (l # as)" "links h' (bs @ [l])" using dc by auto
  moreover have "links h' ((new # bs) @ [l])"
  proof -
    obtain n ws where w: "bs @ [l] = n # ws" by (cases bs) auto
    have "l_nx h' new = Some n" "l_pv h' n = Some new" using h'(2,3) nn w by (auto simp del: last.simps)
    then have "links h' (new # n # ws)" using calculation(2) w by simp
    then show ?thesis by (simp add: w)
  qed
  ultimately have "dlist h' l (as @ new # bs)"
    using dc(1) new(2) h'(2,3) nn by (subst dlist_cut) (simp del: last.simps)
  moreover have "same_outside (set (new # l # as @ bs)) h' h" using h'(4,5) pn by (auto simp: same_outside_def)
  ultimately show ?thesis using h'(1) by blast
qed

lemma dlist_remove:
  assumes d: "dlist h l (as @ x # bs)"
  shows "\<exists>h'. list_del (last (l # as)) (hd (bs @ [l])) h = Ok h' \<and> dlist h' l (as @ bs) \<and> h' x = h x \<and>
      same_outside (set (l # as @ bs)) h' h"
    "h x = Some \<lparr>ln_next = hd (bs @ [l]), ln_prev = last (l # as)\<rparr>"
proof -
  let ?p = "last (l # as)" and ?n = "hd (bs @ [l])"
  have dc: "distinct (l # as @ x # bs)" "links h (l # as)" "links h ((x # bs) @ [l])"
    "l_nx h ?p = Some x" "l_pv h x = Some ?p"
    using d dlist_cut [of h l as "x # bs"] by (auto simp del: last.simps)
  obtain n ws where w: "bs @ [l] = n # ws" by (cases bs) auto
  have nx: "l_nx h x = Some ?n" "links h (bs @ [l])" using dc(3) w by auto
  show "h x = Some \<lparr>ln_next = ?n, ln_prev = ?p\<rparr>"
    using nx(1) dc(5) by (auto simp: l_nx_def l_pv_def simp del: last.simps)
  have pn: "?p \<in> set (l # as @ bs)" "?n \<in> set (l # as @ bs)" using hd_app_in(1) [of bs l] hd_app_in(2) [of l as] by auto
  have h: "?p \<in> dom h" "?n \<in> dom h" using dlist_nodes [OF d] pn by auto
  obtain h' where h': "list_del ?p ?n h = Ok h'" "l_nx h' = (l_nx h)(?p \<mapsto> ?n)"
    "l_pv h' = (l_pv h)(?n \<mapsto> ?p)" "dom h' = dom h" "\<forall>b. b \<notin> {?p, ?n} \<longrightarrow> h' b = h b"
    using list_del_fields [OF h] by metis
  have pb: "?p \<notin> set (butlast (l # as))" "?p \<notin> set bs" "?n \<notin> set as" "?n \<notin> set (tl (bs @ [l]))"
  proof -
    have "distinct (butlast (l # as) @ [?p])" using dc(1) append_butlast_last_id [of "l # as"] by (simp del: butlast.simps last.simps)
    then show "?p \<notin> set (butlast (l # as))" by simp
    show "?p \<notin> set bs" using dc(1) hd_app_in(2) [of l as] by auto
    show "?n \<notin> set as" "?n \<notin> set (tl (bs @ [l]))" using dc(1) by (cases bs; auto)+
  qed
  have "links h' (l # as) = links h (l # as)"
    using h'(2,3) pb by (intro links_cong) (auto dest: in_set_butlastD simp del: butlast.simps last.simps)
  moreover have "links h' (bs @ [l]) = links h (bs @ [l])"
    using h'(2,3) pb by (intro links_cong) (auto simp: butlast_append simp del: last.simps split: if_splits)
  ultimately have "dlist h' l (as @ bs)"
    using dc(1,2) nx(2) h'(2,3) by (subst dlist_cut) (simp del: last.simps)
  moreover have so: "same_outside {?p, ?n} h' h" using h'(4,5) by (simp add: same_outside_def del: last.simps)
  have "same_outside (set (l # as @ bs)) h' h" by (rule same_outside_mono [OF so]) (use pn in blast)
  moreover have "x \<noteq> ?p" "x \<noteq> ?n" using dc(1) pn by (auto simp del: last.simps)
  then have "h' x = h x" using h'(5) by simp
  ultimately show "\<exists>h'. list_del ?p ?n h = Ok h' \<and> dlist h' l (as @ bs) \<and> h' x = h x \<and>
      same_outside (set (l # as @ bs)) h' h" using h'(1) by blast
qed

text \<open>The neighbours of the header and of a node.\<close>

lemma dlist_header:
  assumes "dlist h l xs"
  shows "h l = Some \<lparr>ln_next = hd (xs @ [l]), ln_prev = last (l # xs)\<rparr>"
proof -
  have "l_nx h l = Some (hd (xs @ [l]))" using assms dlist_cut [of h l "[]" xs] by simp
  moreover have "l_pv h l = Some (last (l # xs))" using assms dlist_cut [of h l xs "[]"] by simp
  ultimately show ?thesis by (auto simp: l_nx_def l_pv_def simp del: last.simps)
qed

section \<open>Every operation acts on the list of nodes\<close>

lemma CdxListInit_dlist: "dlist (CdxListInit l h) l []"
  by (simp add: CdxListInit_def dlist_def l_nx_def l_pv_def)

lemma CdxListAdd_dlist:
  assumes "dlist h l xs" "new \<in> dom h" "new \<notin> set (l # xs)"
  shows "\<exists>h'. CdxListAdd new l h = Ok h' \<and> dlist h' l (new # xs) \<and> same_outside (set (new # l # xs)) h' h"
  using dlist_insert [of h l "[]" xs new] assms dlist_header [OF assms(1)] by (auto simp: CdxListAdd_def get_node_def)

lemma CdxListAddTail_dlist:
  assumes "dlist h l xs" "new \<in> dom h" "new \<notin> set (l # xs)"
  shows "\<exists>h'. CdxListAddTail new l h = Ok h' \<and> dlist h' l (xs @ [new]) \<and> same_outside (set (new # l # xs)) h' h"
  using dlist_insert [of h l xs "[]" new] assms dlist_header [OF assms(1)]
  by (auto simp: CdxListAddTail_def get_node_def simp del: last.simps)

lemma CdxListAddBefore_dlist:
  assumes "dlist h l (as @ pos # bs)" "new \<in> dom h" "new \<notin> set (l # as @ pos # bs)"
  shows "\<exists>h'. CdxListAddBefore new pos h = Ok h' \<and> dlist h' l (as @ new # pos # bs) \<and>
    same_outside (set (new # l # as @ pos # bs)) h' h"
  using dlist_insert [OF assms] dlist_remove(2) [OF assms(1)] by (simp add: CdxListAddBefore_def get_node_def del: last.simps)

lemma CdxListAddAfter_dlist:
  assumes "dlist h l (as @ pos # bs)" "new \<in> dom h" "new \<notin> set (l # as @ pos # bs)"
  shows "\<exists>h'. CdxListAddAfter new pos h = Ok h' \<and> dlist h' l (as @ pos # new # bs) \<and>
    same_outside (set (new # l # as @ pos # bs)) h' h"
  using dlist_insert [of h l "as @ [pos]" bs new] assms dlist_remove(2) [OF assms(1)]
  by (simp add: CdxListAddAfter_def get_node_def)

lemma CdxListDelEntry_dlist:
  assumes "dlist h l (as @ x # bs)"
  shows "\<exists>h'. CdxListDelEntry x h = Ok h' \<and> dlist h' l (as @ bs) \<and> same_outside (set (l # as @ bs)) h' h"
  using dlist_remove [OF assms] by (auto simp: CdxListDelEntry_def get_node_def simp del: last.simps)

lemma CdxListDel_dlist:
  assumes "dlist h l (as @ x # bs)"
  shows "\<exists>h'. CdxListDel x h = Ok h' \<and> dlist h' l (as @ bs) \<and>
    h' x = Some \<lparr>ln_next = CDX_LIST_POISON1, ln_prev = CDX_LIST_POISON2\<rparr> \<and> same_outside (set (x # l # as @ bs)) h' h"
proof -
  obtain h1 where h1: "list_del (last (l # as)) (hd (bs @ [l])) h = Ok h1" "dlist h1 l (as @ bs)" "h1 x = h x"
    "same_outside (set (l # as @ bs)) h1 h" using dlist_remove(1) [OF assms] by blast
  let ?h = "h1(x \<mapsto> \<lparr>ln_next = CDX_LIST_POISON1, ln_prev = CDX_LIST_POISON2\<rparr>)"
  have x: "h x = Some \<lparr>ln_next = hd (bs @ [l]), ln_prev = last (l # as)\<rparr>" by (rule dlist_remove(2) [OF assms])
  have xn: "x \<notin> set (l # as @ bs)" using assms by (auto simp: dlist_def)
  have "CdxListDel x h = Ok ?h"
    using h1(1,3) x by (simp add: CdxListDel_def get_node_def set_next_def set_prev_def del: last.simps)
  moreover have so: "same_outside {x} ?h h1" using h1(3) x by (auto simp: same_outside_def)
  then have "dlist ?h l (as @ bs)" using xn by (intro same_outside_dlist [OF so h1(2)]) auto
  moreover have "same_outside (set (x # l # as @ bs)) ?h h"
    by (rule same_outside_trans [OF same_outside_mono [OF so] same_outside_mono [OF h1(4)]]) auto
  ultimately show ?thesis by auto
qed

lemma CdxListDelInit_dlist:
  assumes "dlist h l (as @ x # bs)"
  shows "\<exists>h'. CdxListDelInit x h = Ok h' \<and> dlist h' l (as @ bs) \<and> dlist h' x [] \<and>
    same_outside (set (x # l # as @ bs)) h' h"
proof -
  obtain h1 where h1: "CdxListDelEntry x h = Ok h1" "dlist h1 l (as @ bs)" "same_outside (set (l # as @ bs)) h1 h"
    using CdxListDelEntry_dlist [OF assms] by blast
  have xn: "x \<notin> set (l # as @ bs)" "x \<in> dom h" using assms dlist_nodes [OF assms, of x] by (auto simp: dlist_def)
  then have so: "same_outside {x} (CdxListInit x h1) h1" using h1(3) by (auto simp: same_outside_def CdxListInit_def)
  then have "dlist (CdxListInit x h1) l (as @ bs)" using xn by (intro same_outside_dlist [OF so h1(2)]) auto
  moreover have "same_outside (set (x # l # as @ bs)) (CdxListInit x h1) h"
    by (rule same_outside_trans [OF same_outside_mono [OF so] same_outside_mono [OF h1(3)]]) auto
  ultimately show ?thesis using h1(1) CdxListInit_dlist by (auto simp: CdxListDelInit_def)
qed

text \<open>A move within the list or to another one.\<close>

lemma CdxListMove_same_dlist:
  assumes "dlist h l (as @ x # bs)"
  shows "\<exists>h'. CdxListMove x l h = Ok h' \<and> dlist h' l (x # as @ bs) \<and> same_outside (set (x # l # as @ bs)) h' h"
    "\<exists>h'. CdxListMoveTail x l h = Ok h' \<and> dlist h' l (as @ bs @ [x]) \<and> same_outside (set (x # l # as @ bs)) h' h"
proof -
  obtain h1 where h1: "CdxListDelEntry x h = Ok h1" "dlist h1 l (as @ bs)" "same_outside (set (l # as @ bs)) h1 h"
    using CdxListDelEntry_dlist [OF assms] by blast
  have x: "x \<in> dom h1" "x \<notin> set (l # as @ bs)"
    using assms dlist_nodes [OF assms, of x] h1(3) by (auto simp: dlist_def same_outside_def)
  have so: "same_outside (set (x # l # as @ bs)) h' h" if "same_outside (set (x # l # as @ bs)) h' h1" for h'
    by (rule same_outside_trans [OF that same_outside_mono [OF h1(3)]]) auto
  show "\<exists>h'. CdxListMove x l h = Ok h' \<and> dlist h' l (x # as @ bs) \<and> same_outside (set (x # l # as @ bs)) h' h"
    using CdxListAdd_dlist [OF h1(2) x] h1(1) so by (auto simp: CdxListMove_def)
  show "\<exists>h'. CdxListMoveTail x l h = Ok h' \<and> dlist h' l (as @ bs @ [x]) \<and> same_outside (set (x # l # as @ bs)) h' h"
    using CdxListAddTail_dlist [OF h1(2) x] h1(1) so by (auto simp: CdxListMoveTail_def)
qed

lemma CdxListMoveTail_other_dlist:
  assumes "dlist h l (as @ x # bs)" "dlist h m ys" "set (l # as @ x # bs) \<inter> set (m # ys) = {}"
  shows "\<exists>h'. CdxListMoveTail x m h = Ok h' \<and> dlist h' l (as @ bs) \<and> dlist h' m (ys @ [x])"
proof -
  obtain h1 where h1: "CdxListDelEntry x h = Ok h1" "dlist h1 l (as @ bs)" "same_outside (set (l # as @ bs)) h1 h"
    using CdxListDelEntry_dlist [OF assms(1)] by blast
  have m: "dlist h1 m ys" using assms(3) by (intro same_outside_dlist [OF h1(3) assms(2)]) auto
  have x: "x \<in> dom h1" "x \<notin> set (m # ys)"
    using assms dlist_nodes [OF assms(1), of x] h1(3) by (auto simp: same_outside_def)
  obtain h2 where h2: "CdxListAddTail x m h1 = Ok h2" "dlist h2 m (ys @ [x])" "same_outside (set (x # m # ys)) h2 h1"
    using CdxListAddTail_dlist [OF m x] by blast
  have "x \<notin> set (l # as @ bs)" using assms(1) by (auto simp: dlist_def)
  then have "dlist h2 l (as @ bs)" using assms(3) by (intro same_outside_dlist [OF h2(3) h1(2)]) auto
  then show ?thesis using h1(1) h2(1,2) by (auto simp: CdxListMoveTail_def)
qed

lemma CdxListEmpty_dlist: "dlist h l xs \<Longrightarrow> CdxListEmpty l h = Ok (xs = [])"
  using dlist_header [of h l xs] by (cases xs) (auto simp: CdxListEmpty_def get_node_def dlist_def)

lemma CdxListRotateLeft_dlist:
  assumes "dlist h l xs"
  shows "\<exists>h'. CdxListRotateLeft l h = Ok h' \<and> dlist h' l (rotate1 xs) \<and> same_outside (set (l # xs)) h' h"
proof (cases xs)
  case Nil
  then show ?thesis using assms CdxListEmpty_dlist [OF assms] by (simp add: CdxListRotateLeft_def same_outside_def)
next
  case (Cons x ys)
  then have d: "dlist h l ([] @ x # ys)" using assms by simp
  have "set (x # l # [] @ ys) = set (l # xs)" using Cons by auto
  then show ?thesis
    using CdxListMove_same_dlist(2) [OF d] CdxListEmpty_dlist [OF assms] dlist_header [OF assms] Cons
    by (auto simp: CdxListRotateLeft_def get_node_def)
qed

lemma CdxListIsSingular_dlist: "dlist h l xs \<Longrightarrow> CdxListIsSingular l h = Ok (length xs = 1)"
proof -
  assume d: "dlist h l xs"
  have "hd (xs @ [l]) = last (l # xs) \<longleftrightarrow> length xs \<le> 1"
  proof (cases xs)
    case (Cons x ys)
    then show ?thesis using d by (cases ys rule: rev_cases) (auto simp: dlist_def)
  qed simp
  then show ?thesis using CdxListEmpty_dlist [OF d] dlist_header [OF d]
    by (auto simp: CdxListIsSingular_def get_node_def le_Suc_eq simp del: last.simps)
qed

lemma CdxListIsLast_dlist: "dlist h l (as @ x # bs) \<Longrightarrow> CdxListIsLast x l h = Ok (bs = [])"
  using dlist_remove(2) [of h l as x bs] by (cases bs) (auto simp: CdxListIsLast_def get_node_def dlist_def)

lemma dlist_cong:
  assumes "l_nx h' = l_nx h" "l_pv h' = l_pv h"
  shows "dlist h' l xs = dlist h l xs"
  using assms links_cong [of "l # xs @ [l]" h' h] by (simp add: dlist_def)

text \<open>A replaced node: the links are those of a removal followed by an insertion.\<close>

lemma CdxListReplace_dlist:
  assumes d: "dlist h l (as @ old # bs)" and new: "new \<in> dom h" "new \<notin> set (l # as @ old # bs)"
  shows "\<exists>h'. CdxListReplace old new h = Ok h' \<and> dlist h' l (as @ new # bs) \<and>
    same_outside (set (new # l # as @ old # bs)) h' h"
proof -
  define p where "p = last (l # as)"
  define n where "n = hd (bs @ [l])"
  have old: "h old = Some \<lparr>ln_next = n, ln_prev = p\<rparr>" using dlist_remove(2) [OF d] by (simp add: p_def n_def)
  have pn: "p \<in> set (l # as @ bs)" "n \<in> set (l # as @ bs)"
    using hd_app_in(1) [of bs l] hd_app_in(2) [of l as] by (auto simp: p_def n_def)
  have dist: "old \<notin> set (l # as @ bs)" "new \<noteq> old" using d new(2) by (auto simp: dlist_def)
  have ne: "new \<noteq> p" "new \<noteq> n" "old \<noteq> p" "old \<noteq> n" using pn dist new(2) by auto
  have hp: "p \<in> dom h" "n \<in> dom h" using dlist_nodes [OF d] pn by auto
  then obtain pn_node nn nw where hs: "h p = Some pn_node" "h n = Some nn" "h new = Some nw" using new(1) by auto
  obtain h1 where h1: "list_del p n h = Ok h1" "dlist h1 l (as @ bs)" "dom h1 = dom h"
    "l_nx h1 = (l_nx h)(p \<mapsto> n)" "l_pv h1 = (l_pv h)(n \<mapsto> p)"
    using dlist_remove(1) [OF d] list_del_fields [OF hp] by (auto simp: p_def n_def same_outside_def simp del: last.simps)
  obtain h2 where h2: "list_add new p n h1 = Ok h2" "dlist h2 l (as @ new # bs)"
    using dlist_insert [OF h1(2), of new] new h1(3) unfolding p_def n_def by auto
  have l2: "l_nx h2 = (l_nx h1)(new \<mapsto> n, p \<mapsto> new)" "l_pv h2 = (l_pv h1)(new \<mapsto> p, n \<mapsto> new)"
    using list_add_fields [of new h1 p n] h2(1) new(1) hp h1(3) ne by auto
  obtain h' where r: "CdxListReplace old new h = Ok h'"
    using old hs ne dist(2) by (cases "p = n") (simp_all add: CdxListReplace_def get_node_def set_next_def set_prev_def)
  have heap: "h' = (if p = n then h(new \<mapsto> nw\<lparr>ln_next := n, ln_prev := p\<rparr>, p \<mapsto> pn_node\<lparr>ln_prev := new, ln_next := new\<rparr>)
      else h(new \<mapsto> nw\<lparr>ln_next := n, ln_prev := p\<rparr>, n \<mapsto> nn\<lparr>ln_prev := new\<rparr>, p \<mapsto> pn_node\<lparr>ln_next := new\<rparr>))"
    using r old hs ne dist(2)
    by (cases "p = n") (auto simp: CdxListReplace_def get_node_def set_next_def set_prev_def fun_upd_twist)
  have h': "CdxListReplace old new h = Ok h'" "l_nx h' = (l_nx h)(new \<mapsto> n, p \<mapsto> new)"
    "l_pv h' = (l_pv h)(n \<mapsto> new, new \<mapsto> p)" "same_outside {new, p, n} h' h"
    using r hs ne by (auto simp: heap l_nx_def l_pv_def fun_eq_iff same_outside_def)
  have "l_nx h' = l_nx h2" "l_pv h' = l_pv h2" using h'(2,3) l2 h1(4,5) ne by (auto simp: fun_eq_iff)
  then have "dlist h' l (as @ new # bs)" using h2(2) dlist_cong by blast
  moreover have "same_outside (set (new # l # as @ old # bs)) h' h"
    by (rule same_outside_mono [OF h'(4)]) (use pn in auto)
  ultimately show ?thesis using h'(1) by blast
qed

section \<open>Refinement\<close>

datatype list_op =
    OpAdd addr
  | OpAddTail addr
  | OpAddBefore addr addr
  | OpAddAfter addr addr
  | OpDel addr
  | OpDelInit addr
  | OpReplace addr addr
  | OpMove addr
  | OpMoveTail addr
  | OpRotateLeft

fun list_op_run :: "addr \<Rightarrow> list_op \<Rightarrow> list_heap \<Rightarrow> list_heap exec" where
  "list_op_run l (OpAdd x) h = CdxListAdd x l h"
| "list_op_run l (OpAddTail x) h = CdxListAddTail x l h"
| "list_op_run l (OpAddBefore x p) h = CdxListAddBefore x p h"
| "list_op_run l (OpAddAfter x p) h = CdxListAddAfter x p h"
| "list_op_run l (OpDel x) h = CdxListDel x h"
| "list_op_run l (OpDelInit x) h = CdxListDelInit x h"
| "list_op_run l (OpReplace x y) h = CdxListReplace x y h"
| "list_op_run l (OpMove x) h = CdxListMove x l h"
| "list_op_run l (OpMoveTail x) h = CdxListMoveTail x l h"
| "list_op_run l OpRotateLeft h = CdxListRotateLeft l h"

text \<open>The same operations on the sequence of nodes.\<close>

fun list_op_spec :: "list_op \<Rightarrow> addr list \<Rightarrow> addr list" where
  "list_op_spec (OpAdd x) xs = x # xs"
| "list_op_spec (OpAddTail x) xs = xs @ [x]"
| "list_op_spec (OpAddBefore x p) xs = concat (map (\<lambda>y. if y = p then [x, y] else [y]) xs)"
| "list_op_spec (OpAddAfter x p) xs = concat (map (\<lambda>y. if y = p then [y, x] else [y]) xs)"
| "list_op_spec (OpDel x) xs = remove1 x xs"
| "list_op_spec (OpDelInit x) xs = remove1 x xs"
| "list_op_spec (OpReplace x y) xs = map (\<lambda>z. if z = x then y else z) xs"
| "list_op_spec (OpMove x) xs = x # remove1 x xs"
| "list_op_spec (OpMoveTail x) xs = remove1 x xs @ [x]"
| "list_op_spec OpRotateLeft xs = rotate1 xs"

text \<open>New nodes are allocated and in no list, old ones are in the list.\<close>

fun list_op_ok :: "addr \<Rightarrow> list_op \<Rightarrow> list_heap \<Rightarrow> addr list \<Rightarrow> bool" where
  "list_op_ok l (OpAdd x) h xs \<longleftrightarrow> x \<in> dom h \<and> x \<notin> set (l # xs)"
| "list_op_ok l (OpAddTail x) h xs \<longleftrightarrow> x \<in> dom h \<and> x \<notin> set (l # xs)"
| "list_op_ok l (OpAddBefore x p) h xs \<longleftrightarrow> x \<in> dom h \<and> x \<notin> set (l # xs) \<and> p \<in> set xs"
| "list_op_ok l (OpAddAfter x p) h xs \<longleftrightarrow> x \<in> dom h \<and> x \<notin> set (l # xs) \<and> p \<in> set xs"
| "list_op_ok l (OpReplace x y) h xs \<longleftrightarrow> y \<in> dom h \<and> y \<notin> set (l # xs) \<and> x \<in> set xs"
| "list_op_ok l (OpDel x) h xs \<longleftrightarrow> x \<in> set xs"
| "list_op_ok l (OpDelInit x) h xs \<longleftrightarrow> x \<in> set xs"
| "list_op_ok l (OpMove x) h xs \<longleftrightarrow> x \<in> set xs"
| "list_op_ok l (OpMoveTail x) h xs \<longleftrightarrow> x \<in> set xs"
| "list_op_ok l OpRotateLeft h xs \<longleftrightarrow> True"

lemma concat_other: "p \<notin> set xs \<Longrightarrow> concat (map (\<lambda>y. if y = p then f y else [y]) xs) = xs"
  by (induction xs) auto

lemma list_op_spec_split:
  assumes "distinct (as @ p # bs)"
  shows "list_op_spec (OpAddBefore x p) (as @ p # bs) = as @ x # p # bs"
    "list_op_spec (OpAddAfter x p) (as @ p # bs) = as @ p # x # bs"
    "remove1 p (as @ p # bs) = as @ bs" "list_op_spec (OpReplace p x) (as @ p # bs) = as @ x # bs"
  using assms by (auto simp: concat_other remove1_append intro!: map_idI)

text \<open>C10. Every operation on a list performs the operation on the sequence of its nodes that its
  comment describes, returns without touching memory that is not a node, and changes no node outside the list
  but the one that is added.\<close>

theorem cdxlist_refines_sequence:
  assumes d: "dlist h l xs" and ok: "list_op_ok l op h xs"
  shows "\<exists>h'. list_op_run l op h = Ok h' \<and> dlist h' l (list_op_spec op xs) \<and>
    same_outside (set (l # xs) \<union> set (list_op_spec op xs)) h' h"
proof -
  have split: "\<exists>as bs. xs = as @ p # bs" if "p \<in> set xs" for p using that by (meson split_list)
  have dist: "distinct xs" using d by (simp add: dlist_def)
  show ?thesis
  proof (cases op)
    case (OpAdd x)
    then show ?thesis using CdxListAdd_dlist [OF d, of x] ok by (auto elim!: same_outside_mono)
  next
    case (OpAddTail x)
    then show ?thesis using CdxListAddTail_dlist [OF d, of x] ok by (auto elim!: same_outside_mono)
  next
    case (OpAddBefore x p)
    then obtain as bs where s: "xs = as @ p # bs" using ok split by fastforce
    show ?thesis using CdxListAddBefore_dlist [of h l as p bs x] d ok OpAddBefore dist unfolding s
      by (fastforce simp: list_op_spec_split simp del: list_op_spec.simps(3) elim!: same_outside_mono)
  next
    case (OpAddAfter x p)
    then obtain as bs where s: "xs = as @ p # bs" using ok split by fastforce
    show ?thesis using CdxListAddAfter_dlist [of h l as p bs x] d ok OpAddAfter dist unfolding s
      by (fastforce simp: list_op_spec_split simp del: list_op_spec.simps(4) elim!: same_outside_mono)
  next
    case (OpDel x)
    then obtain as bs where s: "xs = as @ x # bs" using ok split by fastforce
    show ?thesis using CdxListDel_dlist [of h l as x bs] d OpDel dist unfolding s
      by (fastforce simp: list_op_spec_split elim!: same_outside_mono)
  next
    case (OpDelInit x)
    then obtain as bs where s: "xs = as @ x # bs" using ok split by fastforce
    show ?thesis using CdxListDelInit_dlist [of h l as x bs] d OpDelInit dist unfolding s
      by (fastforce simp: list_op_spec_split elim!: same_outside_mono)
  next
    case (OpReplace x y)
    then obtain as bs where s: "xs = as @ x # bs" using ok split by fastforce
    show ?thesis using CdxListReplace_dlist [of h l as x bs y] d ok OpReplace dist unfolding s
      by (fastforce simp: list_op_spec_split simp del: list_op_spec.simps(7) elim!: same_outside_mono)
  next
    case (OpMove x)
    then obtain as bs where s: "xs = as @ x # bs" using ok split by fastforce
    show ?thesis using CdxListMove_same_dlist(1) [of h l as x bs] d OpMove dist unfolding s
      by (fastforce simp: list_op_spec_split elim!: same_outside_mono)
  next
    case (OpMoveTail x)
    then obtain as bs where s: "xs = as @ x # bs" using ok split by fastforce
    show ?thesis using CdxListMove_same_dlist(2) [of h l as x bs] d OpMoveTail dist unfolding s
      by (fastforce simp: list_op_spec_split elim!: same_outside_mono)
  next
    case OpRotateLeft
    then show ?thesis using CdxListRotateLeft_dlist [OF d] by (auto elim!: same_outside_mono)
  qed
qed

theorem cdxlist_refines_sequence_witness:
  "\<exists>h'. list_op_run 1 (OpAddBefore 4 3) [1 \<mapsto> \<lparr>ln_next = 2, ln_prev = 3\<rparr>, 2 \<mapsto> \<lparr>ln_next = 3, ln_prev = 1\<rparr>,
       3 \<mapsto> \<lparr>ln_next = 1, ln_prev = 2\<rparr>, 4 \<mapsto> \<lparr>ln_next = 0, ln_prev = 0\<rparr>] = Ok h' \<and> dlist h' 1 [2, 4, 3]"
  using cdxlist_refines_sequence [of "[1 \<mapsto> \<lparr>ln_next = 2, ln_prev = 3\<rparr>, 2 \<mapsto> \<lparr>ln_next = 3, ln_prev = 1\<rparr>,
       3 \<mapsto> \<lparr>ln_next = 1, ln_prev = 2\<rparr>, 4 \<mapsto> \<lparr>ln_next = 0, ln_prev = 0\<rparr>]" 1 "[2, 3]" "OpAddBefore 4 3"]
  by (auto simp: dlist_def l_nx_def l_pv_def)

text \<open>A node that was deleted must not be deleted again.\<close>

lemma CdxListDel_twice:
  assumes "dlist h l (as @ x # bs)" "CDX_LIST_POISON1 \<notin> dom h" "CdxListDel x h = Ok h'"
  shows "CdxListDel x h' = Fault"
proof -
  have "h' x = Some \<lparr>ln_next = CDX_LIST_POISON1, ln_prev = CDX_LIST_POISON2\<rparr>" "dom h' = dom h"
    using CdxListDel_dlist [OF assms(1)] assms(3) by (auto simp: same_outside_def)
  moreover have "h' CDX_LIST_POISON1 = None" using calculation(2) assms(2) by auto
  ultimately show ?thesis by (simp add: CdxListDel_def list_del_def set_prev_def get_node_def ebind_def)
qed

end
