(* ===== verification/Aw_Pool.thy ===== *)
theory Aw_Pool
  imports Cdx_List Mem_Trace
begin

text \<open>
  The memory pools of the player library, \<open>libcore/base/AwPool.c\<close>: small requests are cut off the end of
  blocks of 8192 bytes, which are freed when all memory in them was given back; large requests go to
  \<open>malloc\<close>. Every piece of memory starts with a header, \<open>struct PoolMemoryS\<close>. The sizes of the headers depend
  on the target and are parameters: \<open>hs\<close> of \<open>struct PoolMemoryS\<close>, 24 or 48 bytes, \<open>ds\<close> of \<open>struct PoolDataS\<close>, 32
  or 56 bytes, and the offsets \<open>cl\<close> and \<open>nd\<close> of the fields \<open>childList\<close> and \<open>node\<close> of a pool. The lists of blocks and headers are given by the sequences of their nodes, which the
  theory of \<open>CdxList\<close> shows the list operations to maintain; the list of child pools is modelled node by node.
  Results of \<open>malloc\<close> are arguments. Calls return the blocks they allocated and freed. The mutex, file names and
  line numbers are left out.
\<close>

unbundle bit_operations_syntax

section \<open>Data\<close>

abbreviation (input) POOL_BLOCK_SIZE :: int where "POOL_BLOCK_SIZE \<equiv> 8192"
abbreviation (input) POOL_ALIGNMENT :: int where "POOL_ALIGNMENT \<equiv> 8"
abbreviation (input) POOL_LARGE_SIZE :: int where "POOL_LARGE_SIZE \<equiv> 4095"

definition AwAlign :: "int \<Rightarrow> int \<Rightarrow> int" where
  "AwAlign d a = (d + (a - 1)) AND NOT (a - 1)"

record PoolData =
  pd_last :: addr
  pd_end :: addr
  pd_pmList :: "addr list"
  pd_ref :: int
  pd_failed :: int

record PoolMemory =
  pm_owner :: addr
  pm_size :: int

text \<open>\<open>p_blocks\<close> holds the blocks that were not freed, \<open>p_mems\<close> the headers of the memory in use.\<close>

record AwPool =
  p_current :: addr
  p_largeList :: "addr list"
  p_pdList :: "addr list"
  p_blocks :: "addr \<rightharpoonup> PoolData"
  p_mems :: "addr \<rightharpoonup> PoolMemory"

section \<open>Operations\<close>

definition PoolDataIncRef :: "addr \<Rightarrow> AwPool \<Rightarrow> AwPool exec" where
  "PoolDataIncRef b p = (case p_blocks p b of
       None \<Rightarrow> Fault
     | Some d \<Rightarrow> Ok (p\<lparr>p_blocks := (p_blocks p)(b \<mapsto> d\<lparr>pd_ref := pd_ref d + 1\<rparr>)\<rparr>))"

definition PoolDataDecRef :: "addr \<Rightarrow> AwPool \<Rightarrow> (AwPool \<times> addr mem_event list) exec" where
  "PoolDataDecRef b p = (case p_blocks p b of
       None \<Rightarrow> Fault
     | Some d \<Rightarrow>
         if pd_ref d - 1 = 0
         then Ok (p\<lparr>p_pdList := remove1 b (p_pdList p), p_blocks := (p_blocks p)(b := None)\<rparr>, [Free b])
         else Ok (p\<lparr>p_blocks := (p_blocks p)(b \<mapsto> d\<lparr>pd_ref := pd_ref d - 1\<rparr>)\<rparr>, []))"

definition PoolNodeCreate ::
  "int \<Rightarrow> addr option \<Rightarrow> addr option \<Rightarrow> bool \<Rightarrow> (addr \<times> AwPool) option \<times> addr mem_event list" where
  "PoolNodeCreate ds pool poolData okAttr = (case (pool, poolData) of
       (Some q, Some b) \<Rightarrow>
         (if okAttr
          then Some (q, \<lparr>p_current = b, p_largeList = [], p_pdList = [b],
                 p_blocks = [b \<mapsto> \<lparr>pd_last = b + ds, pd_end = b + POOL_BLOCK_SIZE, pd_pmList = [],
                                   pd_ref = 1, pd_failed = 0\<rparr>], p_mems = Map.empty\<rparr>)
          else None, [Alloc q, Alloc b])
     | (Some q, None) \<Rightarrow> (None, [Alloc q, Free q])
     | (None, Some b) \<Rightarrow> (None, [Alloc b, Free b])
     | (None, None) \<Rightarrow> (None, []))"

text \<open>The loop of \<open>PallocBlock\<close> over the blocks from the current one on: a block that could not serve a
  request for the sixth time is no longer searched, and gives up the reference of the pool.\<close>

fun retire_loop ::
  "addr \<Rightarrow> addr list \<Rightarrow> AwPool \<Rightarrow> addr option \<Rightarrow> (AwPool \<times> addr option \<times> addr mem_event list) exec" where
  "retire_loop newPd [] p currentPd = Ok (p, currentPd, [])"
| "retire_loop newPd (b # bs) p currentPd = (case p_blocks p b of
       None \<Rightarrow> Fault
     | Some d \<Rightarrow>
         let p1 = p\<lparr>p_blocks := (p_blocks p)(b \<mapsto> d\<lparr>pd_failed := pd_failed d + 1\<rparr>)\<rparr>
         in if 4 < pd_failed d
            then ebind (PoolDataDecRef b p1) (\<lambda>(p2, es).
                 ebind (retire_loop newPd bs p2 (Some (case bs of [] \<Rightarrow> newPd | n # _ \<Rightarrow> n))) (\<lambda>(p3, c, fs).
                 Ok (p3, c, es @ fs)))
            else retire_loop newPd bs p1 currentPd)"

text \<open>The blocks a search visits, from the current one on. Both searches start at \<open>pool->current\<close>, which must be
  a block of the list: reading the node of a block that was freed is a fault.\<close>

definition search_list :: "AwPool \<Rightarrow> addr list" where
  "search_list p = dropWhile (\<lambda>b. b \<noteq> p_current p) (p_pdList p)"

definition from_current :: "AwPool \<Rightarrow> addr list exec" where
  "from_current p = (if p_current p \<in> set (p_pdList p) then Ok (search_list p) else Fault)"

definition PallocBlock ::
  "int \<Rightarrow> int \<Rightarrow> AwPool \<Rightarrow> int \<Rightarrow> addr option \<Rightarrow> (addr \<times> AwPool \<times> addr mem_event list) exec" where
  "PallocBlock hs ds p nSize newPd = (case newPd of
       None \<Rightarrow> Ok (0, p, [])
     | Some b \<Rightarrow> ebind (from_current p) (\<lambda>bs. ebind (retire_loop b bs p None) (\<lambda>(p1, currentPd, es).
         let pm = b + AwAlign ds POOL_ALIGNMENT
         in Ok (pm + hs,
              p1\<lparr>p_pdList := p_pdList p1 @ [b],
                 p_current := (case currentPd of None \<Rightarrow> p_current p1 | Some c \<Rightarrow> c),
                 p_blocks := (p_blocks p1)(b \<mapsto> \<lparr>pd_last = pm + AwAlign (hs + nSize) POOL_ALIGNMENT,
                   pd_end = b + POOL_BLOCK_SIZE, pd_pmList = [pm], pd_ref = 2, pd_failed = 0\<rparr>),
                 p_mems := (p_mems p1)(pm \<mapsto> \<lparr>pm_owner = b, pm_size = nSize\<rparr>)\<rparr>,
              Alloc b # es))))"

definition PallocLarge ::
  "int \<Rightarrow> AwPool \<Rightarrow> int \<Rightarrow> addr option \<Rightarrow> (addr \<times> AwPool \<times> addr mem_event list) exec" where
  "PallocLarge hs p nSize pm = (case pm of
       None \<Rightarrow> Ok (0, p, [])
     | Some a \<Rightarrow> Ok (a + hs, p\<lparr>p_largeList := a # p_largeList p,
                              p_mems := (p_mems p)(a \<mapsto> \<lparr>pm_owner = 0, pm_size = nSize\<rparr>)\<rparr>, [Alloc a]))"

text \<open>The search of \<open>AwPalloc\<close> for a block with room.\<close>

fun find_block :: "AwPool \<Rightarrow> int \<Rightarrow> addr list \<Rightarrow> addr option exec" where
  "find_block p pmSize [] = Ok None"
| "find_block p pmSize (b # bs) = (case p_blocks p b of
       None \<Rightarrow> Fault
     | Some d \<Rightarrow> if pmSize \<le> i32 (pd_end d - pd_last d) then Ok (Some b) else find_block p pmSize bs)"

definition AwPalloc ::
  "int \<Rightarrow> int \<Rightarrow> AwPool \<Rightarrow> int \<Rightarrow> addr option \<Rightarrow> (addr \<times> AwPool \<times> addr mem_event list) exec" where
  "AwPalloc hs ds p nSize m =
     (let pmSize = i32 (AwAlign (hs + nSize) POOL_ALIGNMENT)
      in if nSize \<le> 0 then Abort
         else if pmSize \<le> POOL_LARGE_SIZE
         then ebind (from_current p) (\<lambda>bs. ebind (find_block p pmSize bs) (\<lambda>found. case found of
                Some b \<Rightarrow> (case p_blocks p b of
                    None \<Rightarrow> Fault
                  | Some d \<Rightarrow>
                      let pm = pd_last d
                      in Ok (pm + hs,
                           p\<lparr>p_blocks := (p_blocks p)(b \<mapsto> d\<lparr>pd_ref := pd_ref d + 1,
                               pd_pmList := pd_pmList d @ [pm], pd_last := pm + pmSize\<rparr>),
                             p_mems := (p_mems p)(pm \<mapsto> \<lparr>pm_owner = b, pm_size = nSize\<rparr>)\<rparr>, []))
              | None \<Rightarrow> PallocBlock hs ds p nSize m))
         else PallocLarge hs p nSize m)"

text \<open>\<open>CdxListDel\<close> of a header: it leaves the list it is in. A header that is in no list has the poison
  pointers of an earlier deletion, or none at all, and following them is a fault.\<close>

definition unlinked :: "addr \<Rightarrow> AwPool \<Rightarrow> AwPool" where
  "unlinked pm p = p\<lparr>p_largeList := remove1 pm (p_largeList p),
     p_blocks := (\<lambda>b. map_option (\<lambda>d. d\<lparr>pd_pmList := remove1 pm (pd_pmList d)\<rparr>) (p_blocks p b)),
     p_mems := (p_mems p)(pm := None)\<rparr>"

definition unlink_mem :: "addr \<Rightarrow> AwPool \<Rightarrow> AwPool exec" where
  "unlink_mem pm p =
     (if pm \<in> set (p_largeList p) \<or>
         list_ex (\<lambda>b. case p_blocks p b of None \<Rightarrow> False | Some d \<Rightarrow> pm \<in> set (pd_pmList d)) (p_pdList p)
      then Ok (unlinked pm p) else Fault)"

definition AwPfree :: "int \<Rightarrow> AwPool \<Rightarrow> addr \<Rightarrow> (AwPool \<times> addr mem_event list) exec" where
  "AwPfree hs p ptr =
     (let pm = ptr - hs in
      case p_mems p pm of
        None \<Rightarrow> Fault
      | Some m \<Rightarrow>
          if POOL_LARGE_SIZE < pm_size m then ebind (unlink_mem pm p) (\<lambda>p1. Ok (p1, [Free pm]))
          else ebind (unlink_mem pm p) (PoolDataDecRef (pm_owner m)))"

text \<open>\<open>AwRealloc\<close>. The bytes are copied from the old to the new memory, which must not be \<open>NULL\<close>; the contents
  are not modelled.\<close>

definition realloc_in_block :: "int \<Rightarrow> AwPool \<Rightarrow> addr \<Rightarrow> addr \<Rightarrow> PoolData \<Rightarrow> int \<Rightarrow> AwPool option" where
  "realloc_in_block hs p pm owner d nSize =
     (let rest = tl (dropWhile (\<lambda>a. a \<noteq> pm) (pd_pmList d));
          freeSize = i32 ((case rest of [] \<Rightarrow> owner + POOL_BLOCK_SIZE | n # _ \<Rightarrow> n) - (pm + hs))
      in if nSize \<le> freeSize
         then Some (p\<lparr>p_mems := (p_mems p)(pm \<mapsto> \<lparr>pm_owner = owner, pm_size = nSize\<rparr>),
                p_blocks := (if rest = []
                  then (p_blocks p)(owner \<mapsto> d\<lparr>pd_last := pm + AwAlign (hs + nSize) POOL_ALIGNMENT\<rparr>)
                  else p_blocks p)\<rparr>)
         else None)"

definition AwRealloc ::
  "int \<Rightarrow> int \<Rightarrow> AwPool \<Rightarrow> addr \<Rightarrow> int \<Rightarrow> addr option \<Rightarrow> (addr \<times> AwPool \<times> addr mem_event list) exec" where
  "AwRealloc hs ds p ptr nSize m =
     (let pm = ptr - hs in
      if nSize \<le> 0 then Abort
      else case p_mems p pm of
        None \<Rightarrow> Fault
      | Some old \<Rightarrow>
          if nSize \<le> pm_size old then Abort
          else if POOL_LARGE_SIZE < pm_size old then
            ebind (PallocLarge hs p nSize m) (\<lambda>(newP, p1, es).
              if newP = 0 then Ok (0, p1, es)
              else ebind (unlink_mem pm p1) (\<lambda>p2. Ok (newP, p2, es @ [Free pm])))
          else if POOL_LARGE_SIZE < nSize then
            ebind (PallocLarge hs p nSize m) (\<lambda>(newP, p1, es).
              if newP = 0 then Ok (0, p1, es)
              else ebind (AwPfree hs p1 ptr) (\<lambda>(p2, fs). Ok (newP, p2, es @ fs)))
          else (case p_blocks p (pm_owner old) of
              None \<Rightarrow> Fault
            | Some d \<Rightarrow> (case realloc_in_block hs p pm (pm_owner old) d nSize of
                Some p1 \<Rightarrow> Ok (ptr, p1, [])
              | None \<Rightarrow>
                  ebind (AwPalloc hs ds p nSize m) (\<lambda>(newP, p1, es).
                    if newP = 0 then Fault
                    else ebind (AwPfree hs p1 ptr) (\<lambda>(p2, fs). Ok (newP, p2, es @ fs))))))"

text \<open>\<open>AwPoolDestroy\<close> after the child pools: the loops over the large memory and over the blocks.\<close>

fun dec_refs :: "nat \<Rightarrow> addr \<Rightarrow> AwPool \<Rightarrow> (AwPool \<times> addr mem_event list) exec" where
  "dec_refs 0 b p = Ok (p, [])"
| "dec_refs (Suc n) b p = ebind (PoolDataDecRef b p) (\<lambda>(p1, es).
     ebind (dec_refs n b p1) (\<lambda>(p2, fs). Ok (p2, es @ fs)))"

definition destroy_block :: "addr \<Rightarrow> AwPool \<Rightarrow> (AwPool \<times> addr mem_event list) exec" where
  "destroy_block b p = (case p_blocks p b of
       None \<Rightarrow> Fault
     | Some d \<Rightarrow>
         ebind (if 5 < pd_failed d then PoolDataIncRef b p else Ok p) (\<lambda>p1.
         ebind (if pd_ref (the (p_blocks p1 b)) \<noteq> 1 then dec_refs (length (pd_pmList d)) b p1 else Ok (p1, []))
           (\<lambda>(p2, es). case p_blocks p2 b of
                None \<Rightarrow> Fault
              | Some d2 \<Rightarrow>
                  if pd_ref d2 \<noteq> 1 then Abort
                  else ebind (PoolDataDecRef b p2) (\<lambda>(p3, fs). Ok (p3, es @ fs)))))"

fun destroy_blocks :: "addr list \<Rightarrow> AwPool \<Rightarrow> addr mem_event list exec" where
  "destroy_blocks [] p = Ok []"
| "destroy_blocks (b # bs) p = ebind (destroy_block b p) (\<lambda>(p1, es).
     ebind (destroy_blocks bs p1) (\<lambda>fs. Ok (es @ fs)))"

definition destroy_pool :: "addr \<Rightarrow> AwPool \<Rightarrow> addr mem_event list exec" where
  "destroy_pool self p = ebind (destroy_blocks (p_pdList p) p) (\<lambda>es.
     Ok (map Free (p_largeList p) @ es @ [Free self]))"

text \<open>A pool with its child pools: the address of the pool, the pool, the children.\<close>

datatype pool_tree = PoolTree (pt_self: addr) (pt_pool: AwPool) (pt_children: "pool_tree list")

text \<open>\<open>__AwPoolCreate\<close> with the father at address \<open>father\<close>: \<open>h\<close> is the heap of the list nodes of the pools. A
  pool that could not be created is \<open>NULL\<close>, and its node is written.\<close>

definition AwPoolCreate ::
  "int \<Rightarrow> int \<Rightarrow> int \<Rightarrow> addr \<Rightarrow> list_heap \<Rightarrow> addr option \<Rightarrow> addr option \<Rightarrow> bool
     \<Rightarrow> (pool_tree \<times> list_heap \<times> addr mem_event list) exec" where
  "AwPoolCreate ds cl nd father h pool poolData okAttr =
     (case PoolNodeCreate ds pool poolData okAttr of
        (None, es) \<Rightarrow> Fault
      | (Some (q, p), es) \<Rightarrow>
          ebind (CdxListAdd (q + nd) (father + cl) ((CdxListInit (q + cl) h)(q + nd \<mapsto> \<lparr>ln_next = 0, ln_prev = 0\<rparr>)))
            (\<lambda>h1. Ok (PoolTree q p [], h1, es)))"

text \<open>\<open>AwPoolDestroy\<close>, \<open>g\<close> the address of the global pool. The loop over the children deletes the node of each
  child and calls the function for the child.\<close>

fun AwPoolDestroy :: "int \<Rightarrow> addr \<Rightarrow> pool_tree \<Rightarrow> list_heap \<Rightarrow> (list_heap \<times> addr mem_event list) exec"
  and destroy_children :: "int \<Rightarrow> addr \<Rightarrow> pool_tree list \<Rightarrow> list_heap \<Rightarrow> (list_heap \<times> addr mem_event list) exec" where
  "AwPoolDestroy nd g (PoolTree self p cs) h =
     ebind (destroy_children nd g cs h) (\<lambda>(h1, es).
     ebind (if self \<noteq> g then CdxListDel (self + nd) h1 else Ok h1) (\<lambda>h2.
     ebind (destroy_pool self p) (\<lambda>fs. Ok (h2, es @ fs))))"
| "destroy_children nd g [] h = Ok (h, [])"
| "destroy_children nd g (c # cs) h =
     ebind (CdxListDel (pt_self c + nd) h) (\<lambda>h1. ebind (AwPoolDestroy nd g c h1) (\<lambda>(h2, es).
     ebind (destroy_children nd g cs h2) (\<lambda>(h3, fs). Ok (h3, es @ fs))))"

text \<open>\<open>AwPoolReset\<close>: destroys the global pool, if there is one.\<close>

definition AwPoolReset :: "int \<Rightarrow> pool_tree option \<Rightarrow> list_heap \<Rightarrow> (pool_tree option \<times> list_heap \<times> addr mem_event list) exec" where
  "AwPoolReset nd g h = (case g of
       None \<Rightarrow> Ok (None, h, [])
     | Some t \<Rightarrow> ebind (AwPoolDestroy nd (pt_self t) t h) (\<lambda>(h1, es). Ok (None, h1, es)))"

section \<open>Sizes\<close>

definition sizes_ok :: "int \<Rightarrow> int \<Rightarrow> bool" where
  "sizes_ok hs ds \<longleftrightarrow> 0 < hs \<and> hs \<le> 64 \<and> 8 dvd hs \<and> 0 < ds \<and> ds \<le> 64 \<and> 8 dvd ds"

lemma AwAlign_eight: "AwAlign d 8 = (d + 7) div 8 * 8"
proof -
  have "x AND NOT (mask 3) = push_bit 3 (drop_bit 3 x)" for x :: int
    by (rule bit_eqI) (auto simp: bit_simps)
  moreover have "NOT (7 :: int) = NOT (mask 3)" by (simp add: mask_eq_exp_minus_1)
  ultimately show ?thesis by (simp add: AwAlign_def push_bit_eq_mult drop_bit_eq_div)
qed

lemma AwAlign_bounds: "d \<le> AwAlign d 8" "AwAlign d 8 \<le> d + 7" "8 dvd AwAlign d 8"
  unfolding AwAlign_eight by presburger+

lemma AwAlign_least: "8 dvd e \<Longrightarrow> d \<le> e \<Longrightarrow> AwAlign d 8 \<le> e"
  unfolding AwAlign_eight by presburger

lemma AwAlign_id: "8 dvd d \<Longrightarrow> AwAlign d 8 = d"
  unfolding AwAlign_eight by presburger

section \<open>Memory cut off a block\<close>

text \<open>\<open>chunks f lo hi ms\<close>: the pieces of length \<open>f m\<close> at \<open>m\<close> follow each other between \<open>lo\<close> and \<open>hi\<close>.\<close>

fun chunks :: "(addr \<Rightarrow> int) \<Rightarrow> int \<Rightarrow> int \<Rightarrow> addr list \<Rightarrow> bool" where
  "chunks f lo hi [] \<longleftrightarrow> lo \<le> hi"
| "chunks f lo hi (m # ms) \<longleftrightarrow> lo \<le> m \<and> chunks f (m + f m) hi ms"

lemma chunks_mono: "chunks f lo hi ms \<Longrightarrow> lo' \<le> lo \<Longrightarrow> hi \<le> hi' \<Longrightarrow> chunks f lo' hi' ms"
  by (induction ms arbitrary: lo lo') auto

lemma chunks_split: "chunks f lo hi (xs @ m # ys) \<longleftrightarrow> chunks f lo m xs \<and> chunks f (m + f m) hi ys"
  by (induction xs arbitrary: lo) auto

lemma chunks_cong: "(\<And>m. m \<in> set ms \<Longrightarrow> f m = g m) \<Longrightarrow> chunks f lo hi ms = chunks g lo hi ms"
  by (induction ms arbitrary: lo) auto

lemma chunks_bounds:
  assumes "chunks f lo hi ms" "\<And>m. m \<in> set ms \<Longrightarrow> 0 < f m"
  shows "m \<in> set ms \<Longrightarrow> lo \<le> m \<and> m + f m \<le> hi" "lo \<le> hi"
  using assms
proof (induction ms arbitrary: lo)
  case (Cons x ms)
  {
    case 1
    then show ?case using Cons.IH(1) [of "x + f x"] Cons.IH(2) [of "x + f x"] by fastforce
  next
    case 2
    then show ?case using Cons.IH(2) [of "x + f x"] by fastforce
  }
qed auto

lemma chunks_apart:
  assumes "chunks f lo hi ms" "\<And>m. m \<in> set ms \<Longrightarrow> 0 < f m"
  shows "distinct ms \<and> (\<forall>x \<in> set ms. \<forall>y \<in> set ms. x \<noteq> y \<longrightarrow> x + f x \<le> y \<or> y + f y \<le> x)"
  using assms
proof (induction ms arbitrary: lo)
  case (Cons x ms)
  have "x + f x \<le> y" if "y \<in> set ms" for y
    using chunks_bounds(1) [of f "x + f x" hi ms y] Cons.prems that by auto
  moreover have "0 < f x" using Cons.prems by simp
  ultimately show ?case using Cons.IH [of "x + f x"] Cons.prems by fastforce
qed simp

lemma chunks_remove:
  assumes "chunks f lo hi ms" "\<And>m. m \<in> set ms \<Longrightarrow> 0 < f m"
  shows "chunks f lo hi (remove1 x ms)"
proof (cases "x \<in> set ms")
  case True
  then obtain us vs where s: "ms = us @ x # vs" "x \<notin> set us" by (meson split_list_first)
  have c: "chunks f lo x us" "chunks f (x + f x) hi vs" "0 < f x" using assms s(1) by (auto simp: chunks_split)
  have "chunks f lo hi (us @ vs)"
  proof (cases vs)
    case Nil
    then show ?thesis using c chunks_mono [of f lo x us lo hi] by auto
  next
    case (Cons v vs')
    then show ?thesis using c chunks_mono [of f lo x us lo v] by (auto simp: chunks_split)
  qed
  then show ?thesis using s by (simp add: remove1_append)
qed (use assms in \<open>simp add: remove1_idem\<close>)

section \<open>The invariant of a pool\<close>

text \<open>The room a piece of memory takes in its block, with the header.\<close>

definition mem_room :: "int \<Rightarrow> (addr \<rightharpoonup> PoolMemory) \<Rightarrow> addr \<Rightarrow> int" where
  "mem_room hs M m = AwAlign (hs + pm_size (the (M m))) 8"

definition block_ok :: "int \<Rightarrow> int \<Rightarrow> (addr \<rightharpoonup> PoolMemory) \<Rightarrow> addr \<Rightarrow> PoolData \<Rightarrow> bool" where
  "block_ok hs ds M b d \<longleftrightarrow> 0 < b \<and> pd_end d = b + 8192 \<and> pd_last d \<le> b + 8192 \<and> 8 dvd (pd_last d - b) \<and>
     chunks (mem_room hs M) (b + ds) (pd_last d) (pd_pmList d) \<and>
     (\<forall>m \<in> set (pd_pmList d). 8 dvd (m - b) \<and> (\<exists>n. M m = Some \<lparr>pm_owner = b, pm_size = n\<rparr> \<and> 0 < n \<and> n \<le> 4095)) \<and>
     0 \<le> pd_failed d \<and> pd_ref d = int (length (pd_pmList d)) + (if pd_failed d \<le> 5 then 1 else 0) \<and>
     (5 < pd_failed d \<longrightarrow> pd_pmList d \<noteq> [])"

text \<open>The extents of what \<open>malloc\<close> gave to the pool, which do not overlap.\<close>

definition extent :: "int \<Rightarrow> AwPool \<Rightarrow> addr \<Rightarrow> int" where
  "extent hs p x = (if x \<in> set (p_pdList p) then 8192 else hs + pm_size (the (p_mems p x)))"

definition apart :: "(addr \<Rightarrow> int) \<Rightarrow> addr set \<Rightarrow> bool" where
  "apart E X \<longleftrightarrow> (\<forall>x \<in> X. \<forall>y \<in> X. x \<noteq> y \<longrightarrow> x + E x \<le> y \<or> y + E y \<le> x)"

lemma apartD: "apart E X \<Longrightarrow> x \<in> X \<Longrightarrow> y \<in> X \<Longrightarrow> x \<noteq> y \<Longrightarrow> x + E x \<le> y \<or> y + E y \<le> x"
  unfolding apart_def by blast

lemma apart_subset: "apart E X \<Longrightarrow> Y \<subseteq> X \<Longrightarrow> (\<And>y. y \<in> Y \<Longrightarrow> E' y = E y) \<Longrightarrow> apart E' Y"
  unfolding apart_def by (metis subsetD)

lemma apart_insert:
  assumes "apart E X" "\<And>x. x \<in> X \<Longrightarrow> E' x = E x" "\<And>x. x \<in> X \<Longrightarrow> a + E' a \<le> x \<or> x + E x \<le> a"
  shows "apart E' (insert a X)"
  using assms unfolding apart_def by (metis insertE)

text \<open>The order of the blocks: first those that are retired, then, from the current block on, those that are
  searched, which failed the less often the later they came.\<close>

definition search_order :: "(addr \<Rightarrow> int) \<Rightarrow> addr \<Rightarrow> addr list \<Rightarrow> bool" where
  "search_order f c bs \<longleftrightarrow> (\<exists>rs as. bs = rs @ c # as \<and> (\<forall>b \<in> set rs. 5 < f b) \<and> (\<forall>b \<in> set (c # as). f b \<le> 5) \<and>
     sorted_wrt (\<lambda>x y. f y \<le> f x) (c # as))"

definition failures :: "AwPool \<Rightarrow> addr \<Rightarrow> int" where
  "failures p b = pd_failed (the (p_blocks p b))"

abbreviation owned :: "AwPool \<Rightarrow> addr list" where
  "owned p \<equiv> p_pdList p @ p_largeList p"

definition large_ok :: "(addr \<rightharpoonup> PoolMemory) \<Rightarrow> addr \<Rightarrow> bool" where
  "large_ok M m \<longleftrightarrow> 0 < m \<and> (\<exists>n. M m = Some \<lparr>pm_owner = 0, pm_size = n\<rparr> \<and> 4095 < n)"

definition mem_listed :: "AwPool \<Rightarrow> addr \<Rightarrow> addr \<Rightarrow> bool" where
  "mem_listed p m b \<longleftrightarrow> m \<in> set (p_largeList p) \<or> (\<exists>d. p_blocks p b = Some d \<and> m \<in> set (pd_pmList d))"

definition pool_shape :: "int \<Rightarrow> int \<Rightarrow> AwPool \<Rightarrow> bool" where
  "pool_shape hs ds p \<longleftrightarrow> distinct (owned p) \<and> set (p_pdList p) = dom (p_blocks p) \<and>
     (\<forall>b d. p_blocks p b = Some d \<longrightarrow> block_ok hs ds (p_mems p) b d) \<and>
     (\<forall>m \<in> set (p_largeList p). large_ok (p_mems p) m) \<and> apart (extent hs p) (set (owned p)) \<and>
     (\<forall>m x. p_mems p m = Some x \<longrightarrow> mem_listed p m (pm_owner x))"

definition pool_inv :: "int \<Rightarrow> int \<Rightarrow> AwPool \<Rightarrow> bool" where
  "pool_inv hs ds p \<longleftrightarrow> pool_shape hs ds p \<and> search_order (failures p) (p_current p) (p_pdList p)"

lemma pool_invD:
  assumes "pool_inv hs ds p"
  shows "distinct (owned p)" "set (p_pdList p) = dom (p_blocks p)"
    "search_order (failures p) (p_current p) (p_pdList p)"
    "\<And>b d. p_blocks p b = Some d \<Longrightarrow> block_ok hs ds (p_mems p) b d"
    "\<And>m. m \<in> set (p_largeList p) \<Longrightarrow> large_ok (p_mems p) m" "apart (extent hs p) (set (owned p))"
    "\<And>m x. p_mems p m = Some x \<Longrightarrow> mem_listed p m (pm_owner x)"
  using assms unfolding pool_inv_def pool_shape_def by blast+

lemma search_order_cong: "search_order f c bs \<Longrightarrow> (\<And>b. b \<in> set bs \<Longrightarrow> g b = f b) \<Longrightarrow> search_order g c bs"
proof -
  assume "search_order f c bs" and g: "\<And>b. b \<in> set bs \<Longrightarrow> g b = f b"
  then obtain rs as where r: "bs = rs @ c # as" "\<forall>b \<in> set rs. 5 < f b" "\<forall>b \<in> set (c # as). f b \<le> 5"
    "sorted_wrt (\<lambda>x y. f y \<le> f x) (c # as)" unfolding search_order_def by blast
  moreover have "sorted_wrt (\<lambda>x y. g y \<le> g x) (c # as)"
    by (rule sorted_wrt_mono_rel [OF _ r(4)]) (use g r(1) in auto)
  ultimately show ?thesis unfolding search_order_def using g
    by (intro exI [of _ rs] exI [of _ as]) auto
qed

lemma mem_room_bounds:
  assumes "sizes_ok hs ds" "0 < pm_size (the (M m))"
  shows "hs + pm_size (the (M m)) \<le> mem_room hs M m" "0 < mem_room hs M m" "8 dvd mem_room hs M m"
  using AwAlign_bounds [of "hs + pm_size (the (M m))"] assms by (auto simp: mem_room_def sizes_ok_def)

lemma block_ok_cong:
  assumes "block_ok hs ds M b d" "\<And>m. m \<in> set (pd_pmList d) \<Longrightarrow> M' m = M m"
  shows "block_ok hs ds M' b d"
proof -
  have "chunks (mem_room hs M') (b + ds) (pd_last d) (pd_pmList d) =
      chunks (mem_room hs M) (b + ds) (pd_last d) (pd_pmList d)"
    by (rule chunks_cong) (simp add: mem_room_def assms(2))
  then show ?thesis using assms by (simp add: block_ok_def)
qed

lemma block_ok_mem:
  assumes "sizes_ok hs ds" "block_ok hs ds M b d"
  shows "\<And>m. m \<in> set (pd_pmList d) \<Longrightarrow> 0 < mem_room hs M m \<and> b + ds \<le> m \<and> m + mem_room hs M m \<le> pd_last d \<and>
      hs + pm_size (the (M m)) \<le> mem_room hs M m \<and> pm_owner (the (M m)) = b \<and>
      0 < pm_size (the (M m)) \<and> pm_size (the (M m)) \<le> 4095"
    "distinct (pd_pmList d)" "b + ds \<le> pd_last d"
    "\<And>x y. x \<in> set (pd_pmList d) \<Longrightarrow> y \<in> set (pd_pmList d) \<Longrightarrow> x \<noteq> y \<Longrightarrow>
      x + mem_room hs M x \<le> y \<or> y + mem_room hs M y \<le> x"
proof -
  have c: "chunks (mem_room hs M) (b + ds) (pd_last d) (pd_pmList d)" using assms(2) by (simp add: block_ok_def)
  have s: "0 < pm_size (the (M m)) \<and> pm_size (the (M m)) \<le> 4095 \<and> pm_owner (the (M m)) = b"
    if "m \<in> set (pd_pmList d)" for m using assms(2) that by (auto simp: block_ok_def)
  have r: "0 < mem_room hs M m" if "m \<in> set (pd_pmList d)" for m
    using s [OF that] mem_room_bounds [OF assms(1)] by blast
  show "0 < mem_room hs M m \<and> b + ds \<le> m \<and> m + mem_room hs M m \<le> pd_last d \<and>
      hs + pm_size (the (M m)) \<le> mem_room hs M m \<and> pm_owner (the (M m)) = b \<and>
      0 < pm_size (the (M m)) \<and> pm_size (the (M m)) \<le> 4095" if "m \<in> set (pd_pmList d)" for m
    using chunks_bounds(1) [OF c r that] r [OF that] s [OF that] mem_room_bounds(1) [OF assms(1)] by blast
  show "b + ds \<le> pd_last d" using chunks_bounds(2) [OF c r] by blast
  show "distinct (pd_pmList d)" "\<And>x y. x \<in> set (pd_pmList d) \<Longrightarrow> y \<in> set (pd_pmList d) \<Longrightarrow> x \<noteq> y \<Longrightarrow>
      x + mem_room hs M x \<le> y \<or> y + mem_room hs M y \<le> x"
    using chunks_apart [OF c r] by blast+
qed

text \<open>Where memory in use lies: it is large memory, or inside the block that owns it.\<close>

lemma pool_inv_mem:
  assumes z: "sizes_ok hs ds" and i: "pool_inv hs ds p" and m: "p_mems p m = Some x"
  obtains (large) "m \<in> set (p_largeList p)" "pm_owner x = 0" "4095 < pm_size x"
  | (block) d where "p_blocks p (pm_owner x) = Some d" "m \<in> set (pd_pmList d)" "pm_owner x + ds \<le> m"
      "m + mem_room hs (p_mems p) m \<le> pd_last d" "hs + pm_size x \<le> mem_room hs (p_mems p) m" "0 < pm_size x"
      "pm_size x \<le> 4095" "pd_last d \<le> pm_owner x + 8192" "0 < pm_owner x" "block_ok hs ds (p_mems p) (pm_owner x) d"
proof -
  consider "m \<in> set (p_largeList p)" | d where "p_blocks p (pm_owner x) = Some d" "m \<in> set (pd_pmList d)"
    using pool_invD(7) [OF i m] unfolding mem_listed_def by blast
  then show ?thesis
  proof cases
    case 1
    then show ?thesis using pool_invD(5) [OF i 1] m by (intro large) (auto simp: large_ok_def)
  next
    case 2
    note b = pool_invD(4) [OF i 2(1)]
    show ?thesis using block_ok_mem(1) [OF z b 2(2)] m 2 b by (intro block) (auto simp: block_ok_def)
  qed
qed

text \<open>An address in a block above all its memory is not in use.\<close>

lemma pool_inv_free_room:
  assumes z: "sizes_ok hs ds" and i: "pool_inv hs ds p" and b: "p_blocks p b = Some d"
    and m: "pd_last d \<le> m" "m < b + 8192"
  shows "p_mems p m = None" "m \<notin> set (p_largeList p)" "\<And>c e. p_blocks p c = Some e \<Longrightarrow> m \<notin> set (pd_pmList e)"
proof -
  have bo: "b \<in> set (owned p)" "b \<in> set (p_pdList p)" using pool_invD(2) [OF i] b by auto
  have bd: "b + ds \<le> pd_last d" using block_ok_mem(3) [OF z pool_invD(4) [OF i b]] .
  have ds: "0 < ds" using z by (simp add: sizes_ok_def)
  have ab: "b + 8192 \<le> y \<or> y + extent hs p y \<le> b" if "y \<in> set (owned p)" "y \<noteq> b" for y
    using apartD [OF pool_invD(6) [OF i] bo(1) that(1)] that(2) bo(2) by (simp add: extent_def [of _ _ b])
  show l: "m \<notin> set (p_largeList p)"
  proof
    assume "m \<in> set (p_largeList p)"
    moreover have "0 < extent hs p m"
      using z pool_invD(5) [OF i \<open>m \<in> set (p_largeList p)\<close>] by (auto simp: extent_def large_ok_def sizes_ok_def)
    ultimately show False using ab [of m] m bd ds by auto
  qed
  show k: "m \<notin> set (pd_pmList e)" if e: "p_blocks p c = Some e" for c e
  proof
    assume me: "m \<in> set (pd_pmList e)"
    note ok = pool_invD(4) [OF i e]
    note mo = block_ok_mem(1) [OF z ok me]
    have "c \<in> set (p_pdList p)" using pool_invD(2) [OF i] e by auto
    then have "c = b \<or> b + 8192 \<le> c \<or> c + 8192 \<le> b" using ab [of c] by (auto simp: extent_def)
    moreover have "pd_last e \<le> c + 8192" using ok by (simp add: block_ok_def)
    ultimately show False using mo m bd ds e b by auto
  qed
  show "p_mems p m = None"
  proof (cases "p_mems p m")
    case (Some x)
    then show ?thesis using pool_invD(7) [OF i Some] l k unfolding mem_listed_def by blast
  qed
qed

text \<open>A change that keeps the lists of blocks and of large memory.\<close>

lemma pool_inv_same:
  assumes i: "pool_inv hs ds p"
    and e: "p_pdList p' = p_pdList p" "p_largeList p' = p_largeList p" "p_current p' = p_current p"
      "dom (p_blocks p') = dom (p_blocks p)" "\<And>b. b \<in> dom (p_blocks p) \<Longrightarrow> failures p' b = failures p b"
      "\<And>m. m \<in> set (p_largeList p) \<Longrightarrow> p_mems p' m = p_mems p m"
    and b: "\<And>b d. p_blocks p' b = Some d \<Longrightarrow> block_ok hs ds (p_mems p') b d"
    and m: "\<And>m x. p_mems p' m = Some x \<Longrightarrow> mem_listed p' m (pm_owner x)"
  shows "pool_inv hs ds p'"
proof -
  note d = pool_invD [OF i]
  have "search_order (failures p') (p_current p') (p_pdList p')"
    unfolding e(1,3) by (rule search_order_cong [OF d(3)]) (simp add: e(5) d(2))
  moreover have "apart (extent hs p') (set (owned p'))"
    unfolding e(1,2) by (rule apart_subset [OF d(6)]) (auto simp: extent_def e)
  moreover have "large_ok (p_mems p') m" if "m \<in> set (p_largeList p)" for m
    using d(5) [OF that] e(6) [OF that] by (simp add: large_ok_def)
  ultimately show ?thesis using d(1,2) e(1,2,4) b m unfolding pool_inv_def pool_shape_def by simp
qed

section \<open>Allocation\<close>

text \<open>What a call does to the blocks obtained from \<open>malloc\<close>: it frees only blocks of the pool, and the pool
  owns exactly what is left.\<close>

definition pool_trace :: "AwPool \<Rightarrow> addr mem_event list \<Rightarrow> AwPool \<Rightarrow> bool" where
  "pool_trace p es p' \<longleftrightarrow> (\<forall>L X. mset L = X + mset (owned p) \<longrightarrow>
     frees_ok L es \<and> mset (live_blocks L es) = X + mset (owned p'))"

lemma pool_trace_Nil: "owned p' = owned p \<Longrightarrow> pool_trace p [] p'"
  by (simp add: pool_trace_def)

lemma pool_trace_append: "pool_trace p es q \<Longrightarrow> pool_trace q fs r \<Longrightarrow> pool_trace p (es @ fs) r"
  by (simp add: pool_trace_def frees_ok_append live_blocks_append)

lemma pool_trace_Alloc: "mset (owned p') = add_mset b (mset (owned p)) \<Longrightarrow> pool_trace p [Alloc b] p'"
  by (simp add: pool_trace_def)

lemma pool_trace_Frees:
  assumes "mset (owned p) = mset bs + mset (owned p')"
  shows "pool_trace p (map Free bs) p'"
proof -
  have "frees_ok L (map Free bs) \<and> mset (live_blocks L (map Free bs)) = X + mset (owned p')"
    if "mset L = X + mset (owned p)" for L X
  proof -
    have "mset bs \<subseteq># mset L" "mset L - mset bs = X + mset (owned p')"
      using that unfolding assms by (simp_all add: add.left_commute [of X])
    then show ?thesis using frees_trace [of bs L] by simp
  qed
  then show ?thesis unfolding pool_trace_def by simp
qed

definition alloc_result ::
  "int \<Rightarrow> int \<Rightarrow> AwPool \<Rightarrow> int \<Rightarrow> addr option \<Rightarrow> (addr \<times> AwPool \<times> addr mem_event list) exec \<Rightarrow> bool" where
  "alloc_result hs ds p n m r \<longleftrightarrow> (\<exists>ptr p' es. r = Ok (ptr, p', es) \<and> pool_inv hs ds p' \<and> pool_trace p es p' \<and>
     (ptr = 0 \<and> p' = p \<and> m = None \<or> 0 < ptr \<and> p_mems p (ptr - hs) = None \<and>
        (\<exists>ow. p_mems p' = (p_mems p)(ptr - hs \<mapsto> \<lparr>pm_owner = ow, pm_size = n\<rparr>))))"

lemma place_in_block:
  assumes z: "sizes_ok hs ds" and i: "pool_inv hs ds p" and b: "p_blocks p b = Some d"
    and n: "0 < n" "n \<le> 4095" "AwAlign (hs + n) 8 \<le> b + 8192 - pd_last d"
  shows "alloc_result hs ds p n m (Ok (pd_last d + hs,
     p\<lparr>p_blocks := (p_blocks p)(b \<mapsto> d\<lparr>pd_ref := pd_ref d + 1,
         pd_pmList := pd_pmList d @ [pd_last d], pd_last := pd_last d + AwAlign (hs + n) 8\<rparr>),
       p_mems := (p_mems p)(pd_last d \<mapsto> \<lparr>pm_owner = b, pm_size = n\<rparr>)\<rparr>, []))"
    (is "alloc_result _ _ _ _ _ (Ok (_, ?p, _))")
proof -
  let ?m = "pd_last d"
  have room: "0 < AwAlign (hs + n) 8" "8 dvd AwAlign (hs + n) 8" "0 < hs"
    using AwAlign_bounds [of "hs + n"] z n by (auto simp: sizes_ok_def)
  have ok: "block_ok hs ds (p_mems p) b d" using pool_invD(4) [OF i b] .
  have free: "p_mems p ?m = None" "?m \<notin> set (p_largeList p)" "\<And>c e. p_blocks p c = Some e \<Longrightarrow> ?m \<notin> set (pd_pmList e)"
    by (rule pool_inv_free_room [OF z i b]; use n room in auto)+
  have dv: "8 dvd (?m + AwAlign (hs + n) 8 - b)"
    using dvd_add [of 8 "?m - b" "AwAlign (hs + n) 8"] ok room(2) by (simp add: block_ok_def algebra_simps)
  have ch: "chunks (mem_room hs (p_mems ?p)) (b + ds) ?m (pd_pmList d)"
    using ok free(3) [OF b] by (subst chunks_cong [of _ _ "mem_room hs (p_mems p)"])
      (auto simp: block_ok_def mem_room_def)
  have "pool_inv hs ds ?p"
  proof (rule pool_inv_same [OF i])
    show "block_ok hs ds (p_mems ?p) c e" if e: "p_blocks ?p c = Some e" for c e
    proof (cases "c = b")
      case True
      then show ?thesis using e ok ch dv n room free(3) [OF b]
        by (auto simp: block_ok_def chunks_split mem_room_def)
    next
      case False
      then have "p_blocks p c = Some e" using e by simp
      then show ?thesis using block_ok_cong [OF pool_invD(4) [OF i]] free(3) by force
    qed
    show "mem_listed ?p m (pm_owner x)" if "p_mems ?p m = Some x" for m x
      using pool_invD(7) [OF i, of m x] that b by (auto simp: mem_listed_def split: if_splits)
  qed (use b free(2) in \<open>auto simp: failures_def\<close>)
  moreover have "0 < ?m + hs" using block_ok_mem(3) [OF z ok] ok z by (auto simp: block_ok_def sizes_ok_def)
  ultimately show ?thesis unfolding alloc_result_def using free(1) by (auto intro!: pool_trace_Nil)
qed

lemma find_block_ok:
  assumes "pool_inv hs ds p" "set bs \<subseteq> dom (p_blocks p)" "sizes_ok hs ds"
  shows "find_block p n bs = Ok None \<or>
    (\<exists>b d. find_block p n bs = Ok (Some b) \<and> p_blocks p b = Some d \<and> n \<le> b + 8192 - pd_last d)"
  using assms(2)
proof (induction bs)
  case (Cons b bs)
  then obtain d where d: "p_blocks p b = Some d" by auto
  note ok = pool_invD(4) [OF assms(1) d]
  have "i32 (pd_end d - pd_last d) = b + 8192 - pd_last d"
    using ok block_ok_mem(3) [OF assms(3) ok] assms(3) by (simp add: block_ok_def sizes_ok_def i32_id int32_range_def)
  then show ?case using Cons d by auto
qed simp

lemma from_current_order:
  assumes "search_order f (p_current p) (p_pdList p)" "distinct (p_pdList p)"
  obtains rs as where "p_pdList p = rs @ p_current p # as" "search_list p = p_current p # as"
    "\<forall>b \<in> set rs. 5 < f b" "\<forall>b \<in> set (p_current p # as). f b \<le> 5"
    "sorted_wrt (\<lambda>x y. f y \<le> f x) (p_current p # as)"
proof -
  obtain rs as where r: "p_pdList p = rs @ p_current p # as" "\<forall>b \<in> set rs. 5 < f b"
    "\<forall>b \<in> set (p_current p # as). f b \<le> 5" "sorted_wrt (\<lambda>x y. f y \<le> f x) (p_current p # as)"
    using assms(1) unfolding search_order_def by blast
  moreover have "search_list p = p_current p # as"
    using r(1) assms(2) by (auto simp: search_list_def dropWhile_append)
  ultimately show ?thesis using that by blast
qed

lemma from_current_Ok: "pool_inv hs ds p \<Longrightarrow> from_current p = Ok (search_list p)"
  using pool_invD(3) [of hs ds p] by (auto simp: from_current_def search_order_def)

text \<open>The loop that retires blocks, in closed form.\<close>

definition retired :: "AwPool \<Rightarrow> addr \<Rightarrow> bool" where
  "retired p b \<longleftrightarrow> 4 < failures p b"

definition dead :: "AwPool \<Rightarrow> addr \<Rightarrow> bool" where
  "dead p b \<longleftrightarrow> retired p b \<and> pd_ref (the (p_blocks p b)) = 1"

definition aged :: "addr list \<Rightarrow> AwPool \<Rightarrow> addr \<Rightarrow> PoolData option" where
  "aged bs p b = (if b \<notin> set bs then p_blocks p b else if dead p b then None
     else map_option (\<lambda>d. d\<lparr>pd_failed := pd_failed d + 1, pd_ref := pd_ref d - (if retired p b then 1 else 0)\<rparr>)
       (p_blocks p b))"

fun next_current :: "AwPool \<Rightarrow> addr \<Rightarrow> addr list \<Rightarrow> addr option \<Rightarrow> addr option" where
  "next_current p newPd [] c = c"
| "next_current p newPd (b # bs) c =
     next_current p newPd bs (if retired p b then Some (hd (bs @ [newPd])) else c)"

lemma next_current_cong:
  "(\<And>b. b \<in> set bs \<Longrightarrow> retired q b = retired p b) \<Longrightarrow> next_current q x bs c = next_current p x bs c"
  by (induction bs arbitrary: c) auto

lemma retire_loop_closed:
  assumes "distinct bs" "set bs \<subseteq> dom (p_blocks p)" "distinct (p_pdList p)"
  shows "retire_loop x bs p c = Ok (p\<lparr>p_pdList := filter (\<lambda>b. \<not> (b \<in> set bs \<and> dead p b)) (p_pdList p),
      p_blocks := aged bs p\<rparr>, next_current p x bs c, map Free (filter (dead p) bs))"
  using assms
proof (induction bs arbitrary: p c)
  case Nil
  then show ?case by (simp add: aged_def [abs_def])
next
  case (Cons b bs)
  then obtain d where d: "p_blocks p b = Some d" by auto
  define q where "q = p\<lparr>p_pdList := filter (\<lambda>a. \<not> (a = b \<and> dead p b)) (p_pdList p), p_blocks := aged [b] p\<rparr>"
  have hd: "(case bs of [] \<Rightarrow> x | n # _ \<Rightarrow> n) = hd (bs @ [x])" by (cases bs) auto
  have same: "p_blocks q a = p_blocks p a" if "a \<in> set bs" for a
    using that Cons.prems(1) by (auto simp: q_def aged_def)
  then have qs: "retired q a = retired p a" "dead q a = dead p a" if "a \<in> set bs" for a
    using that by (auto simp: retired_def dead_def failures_def)
  have dq: "distinct (p_pdList q)" "set bs \<subseteq> dom (p_blocks q)"
    using Cons.prems same by (auto simp: q_def dom_def subset_iff)
  let ?p1 = "p\<lparr>p_blocks := (p_blocks p)(b \<mapsto> d\<lparr>pd_failed := pd_failed d + 1\<rparr>)\<rparr>"
  have r: "retired p b \<longleftrightarrow> 4 < pd_failed d" "dead p b \<longleftrightarrow> 4 < pd_failed d \<and> pd_ref d = 1"
    using d by (auto simp: retired_def dead_def failures_def)
  have q1: "?p1 = q" if "\<not> retired p b"
    using that d r by (auto simp: q_def aged_def fun_eq_iff intro!: AwPool.equality)
  have q2: "PoolDataDecRef b ?p1 = Ok (q, map Free (filter (dead p) [b]))" if "retired p b"
    using that d r Cons.prems(3)
    by (auto simp: PoolDataDecRef_def q_def aged_def fun_eq_iff distinct_remove1_removeAll removeAll_filter_not_eq
      intro!: AwPool.equality filter_cong)
  have fin: "q\<lparr>p_pdList := filter (\<lambda>a. \<not> (a \<in> set bs \<and> dead q a)) (p_pdList q), p_blocks := aged bs q\<rparr> =
      p\<lparr>p_pdList := filter (\<lambda>a. \<not> (a \<in> set (b # bs) \<and> dead p a)) (p_pdList p), p_blocks := aged (b # bs) p\<rparr>"
  proof -
    have "aged bs q a = aged (b # bs) p a" for a
    proof (cases "a \<in> set bs")
      case True
      then have "a \<noteq> b" using Cons.prems(1) by auto
      then show ?thesis using True by (simp add: aged_def qs same)
    qed (auto simp: aged_def q_def)
    moreover have "filter (\<lambda>a. \<not> (a \<in> set bs \<and> dead q a)) (p_pdList q) =
        filter (\<lambda>a. \<not> (a \<in> set (b # bs) \<and> dead p a)) (p_pdList p)"
      using Cons.prems(1) qs(2) by (auto simp: q_def intro!: filter_cong)
    ultimately show ?thesis by (simp add: q_def fun_eq_iff)
  qed
  have nc: "next_current q x bs e = next_current p x bs e" for e by (rule next_current_cong) (simp add: qs)
  have fd: "filter (dead q) bs = filter (dead p) bs" by (rule filter_cong) (auto simp: qs)
  have IH: "retire_loop x bs q e = Ok (p\<lparr>p_pdList := filter (\<lambda>a. \<not> (a \<in> set (b # bs) \<and> dead p a)) (p_pdList p),
      p_blocks := aged (b # bs) p\<rparr>, next_current p x bs e, map Free (filter (dead p) bs))" for e
    using Cons.IH [of q e] Cons.prems(1) dq unfolding fin nc fd by simp
  show ?case
  proof (cases "retired p b")
    case True
    then show ?thesis using d r q2 [OF True] IH by (simp add: hd Let_def split: if_splits)
  next
    case False
    then show ?thesis using d r q1 [OF False] IH by (simp add: Let_def)
  qed
qed

lemma retire_shape:
  assumes i: "pool_inv hs ds p" and bs: "\<And>b. b \<in> set bs \<Longrightarrow> failures p b \<le> 5" "set bs \<subseteq> dom (p_blocks p)"
  shows "pool_shape hs ds (p\<lparr>p_pdList := filter (\<lambda>b. \<not> (b \<in> set bs \<and> dead p b)) (p_pdList p), p_blocks := aged bs p\<rparr>)"
    (is "pool_shape hs ds ?p")
proof -
  note d = pool_invD [OF i]
  have ok: "block_ok hs ds (p_mems p) b e" if e: "aged bs p b = Some e" for b e
  proof (cases "b \<in> set bs")
    case True
    then obtain c where c: "p_blocks p b = Some c" "\<not> dead p b"
      "e = c\<lparr>pd_failed := pd_failed c + 1, pd_ref := pd_ref c - (if retired p b then 1 else 0)\<rparr>"
      using e by (auto simp: aged_def split: if_splits)
    moreover have "pd_failed c \<le> 5" using bs(1) [OF True] c(1) by (simp add: failures_def)
    ultimately show ?thesis using d(4) [OF c(1)]
      by (auto simp: block_ok_def dead_def retired_def failures_def)
  next
    case False
    then show ?thesis using e d(4) by (simp add: aged_def)
  qed
  have dom: "set (p_pdList ?p) = dom (p_blocks ?p)"
    using d(2) bs(2) by (auto simp: aged_def dom_def)
  have lst: "mem_listed ?p m (pm_owner x)" if m: "p_mems p m = Some x" for m x
  proof -
    consider "m \<in> set (p_largeList p)" | c where "p_blocks p (pm_owner x) = Some c" "m \<in> set (pd_pmList c)"
      using d(7) [OF m] unfolding mem_listed_def by blast
    then show ?thesis
    proof cases
      case 2
      then have "\<not> (pm_owner x \<in> set bs \<and> dead p (pm_owner x))"
        using d(4) [OF 2(1)] bs(1) [of "pm_owner x"] by (auto simp: dead_def block_ok_def failures_def)
      then show ?thesis using 2 by (auto simp: mem_listed_def aged_def)
    qed (simp add: mem_listed_def)
  qed
  have "apart (extent hs ?p) (set (owned ?p))"
    by (rule apart_subset [OF d(6)]) (use d(1) in \<open>auto simp: extent_def\<close>)
  then show ?thesis unfolding pool_shape_def using d(1,5) ok dom lst by auto
qed

text \<open>What \<open>malloc\<close> promises: the block it returns does not overlap those in use.\<close>

definition fresh :: "int \<Rightarrow> AwPool \<Rightarrow> addr \<Rightarrow> int \<Rightarrow> bool" where
  "fresh hs p a n \<longleftrightarrow> 0 < a \<and> list_all (\<lambda>x. a + n \<le> x \<or> x + extent hs p x \<le> a) (owned p)"

lemma extent_pos: "sizes_ok hs ds \<Longrightarrow> pool_inv hs ds p \<Longrightarrow> x \<in> set (owned p) \<Longrightarrow> 0 < extent hs p x"
  using pool_invD(5) [of hs ds p x] by (auto simp: extent_def large_ok_def sizes_ok_def)

lemma fresh_unused:
  assumes z: "sizes_ok hs ds" and i: "pool_inv hs ds p" and f: "fresh hs p a n" and m: "a \<le> m" "m < a + n"
  shows "m \<notin> set (owned p)" "p_mems p m = None" "\<And>c e. p_blocks p c = Some e \<Longrightarrow> m \<notin> set (pd_pmList e)"
proof -
  have x: "a + n \<le> x \<or> x + extent hs p x \<le> a" if "x \<in> set (owned p)" for x
    using f that by (auto simp: fresh_def list_all_iff)
  show l: "m \<notin> set (owned p)" using x [of m] m extent_pos [OF z i, of m] by force
  show k: "m \<notin> set (pd_pmList e)" if e: "p_blocks p c = Some e" for c e
  proof
    assume me: "m \<in> set (pd_pmList e)"
    have c: "c \<in> set (p_pdList p)" using pool_invD(2) [OF i] e by auto
    then have "a + n \<le> c \<or> c + 8192 \<le> a" using x [of c] by (simp add: extent_def)
    then show False using block_ok_mem(1) [OF z pool_invD(4) [OF i e] me] pool_invD(4) [OF i e] m z
      by (auto simp: block_ok_def sizes_ok_def)
  qed
  show "p_mems p m = None"
  proof (cases "p_mems p m")
    case (Some x)
    then show ?thesis using pool_invD(7) [OF i Some] l k unfolding mem_listed_def by auto
  qed
qed

lemma next_current_split:
  assumes "\<And>b. b \<in> set zs \<Longrightarrow> \<not> retired p b" "\<And>b. b \<in> set ys \<Longrightarrow> retired p b"
  shows "next_current p x (ys @ zs) c = (if ys = [] then c else Some (hd (zs @ [x])))"
proof -
  have z: "next_current p x zs c = c" for c using assms(1) by (induction zs arbitrary: c) auto
  show ?thesis using assms(2) by (induction ys arbitrary: c) (auto simp: z)
qed

lemma retire_order:
  assumes i: "pool_inv hs ds p" and b: "b \<notin> set (p_pdList p)" "g b = 0"
    and g: "\<And>a. a \<in> set (p_pdList p) \<Longrightarrow> g a = (if a \<in> set (search_list p) then failures p a + 1 else failures p a)"
  shows "search_order g (case next_current p b (search_list p) None of None \<Rightarrow> p_current p | Some c \<Rightarrow> c)
    (filter (\<lambda>a. \<not> (a \<in> set (search_list p) \<and> dead p a)) (p_pdList p) @ [b])"
proof -
  let ?f = "failures p"
  have dist: "distinct (p_pdList p)" using pool_invD(1) [OF i] by simp
  obtain rs as where r: "p_pdList p = rs @ p_current p # as" "search_list p = p_current p # as"
    "\<forall>b \<in> set rs. 5 < ?f b" "\<forall>b \<in> set (p_current p # as). ?f b \<le> 5"
    "sorted_wrt (\<lambda>x y. ?f y \<le> ?f x) (p_current p # as)"
    using from_current_order [OF pool_invD(3) [OF i] dist] .
  define xs where "xs = p_current p # as"
  define ys where "ys = takeWhile (retired p) xs"
  define zs where "zs = dropWhile (retired p) xs"
  have yz: "xs = ys @ zs" by (simp add: ys_def zs_def)
  have nz: "\<not> retired p a" if "a \<in> set zs" for a
  proof -
    have "zs \<noteq> []" using that by auto
    then have h: "\<not> retired p (hd zs)" unfolding zs_def by (rule hd_dropWhile)
    have "sorted_wrt (\<lambda>x y. ?f y \<le> ?f x) zs" using r(5) yz unfolding xs_def [symmetric] by (simp add: sorted_wrt_append)
    then have "?f a \<le> ?f (hd zs)" using that \<open>zs \<noteq> []\<close> by (cases zs) auto
    then show ?thesis using h by (simp add: retired_def)
  qed
  have ny: "retired p a" if "a \<in> set ys" for a using that set_takeWhileD unfolding ys_def by metis
  have cur: "(case next_current p b xs None of None \<Rightarrow> p_current p | Some c \<Rightarrow> c) = hd (zs @ [b])"
    using next_current_split [of zs p ys b None] nz ny yz by (auto simp: xs_def)
  have flt: "filter (\<lambda>a. \<not> (a \<in> set xs \<and> dead p a)) (p_pdList p) = (rs @ filter (\<lambda>a. \<not> dead p a) ys) @ zs"
  proof -
    have "filter (\<lambda>a. \<not> (a \<in> set xs \<and> dead p a)) rs = rs" using dist r(1) by (auto simp: xs_def intro!: filter_True)
    moreover have "filter (\<lambda>a. \<not> (a \<in> set xs \<and> dead p a)) zs = zs"
      using nz by (auto simp: dead_def intro!: filter_True)
    moreover have "filter (\<lambda>a. \<not> (a \<in> set xs \<and> dead p a)) ys = filter (\<lambda>a. \<not> dead p a) ys"
      using yz by (intro filter_cong) auto
    ultimately show ?thesis using r(1) yz by (simp add: xs_def [symmetric])
  qed
  have xp: "set xs \<subseteq> set (p_pdList p)" "set rs \<inter> set xs = {}" using r(1) dist by (auto simp: xs_def)
  have gx: "g a = ?f a + 1" if "a \<in> set xs" for a using g [of a] that xp(1) r(2) xs_def by auto
  have g1: "5 < g a" if "a \<in> set (rs @ filter (\<lambda>a. \<not> dead p a) ys)" for a
  proof (cases "a \<in> set rs")
    case True
    then have "g a = ?f a" using g [of a] r(1,2) xp(2) by (auto simp: xs_def)
    then show ?thesis using r(3) True by simp
  next
    case False
    then have "a \<in> set ys" using that by auto
    then show ?thesis using gx [of a] ny [of a] yz by (simp add: retired_def)
  qed
  have nn: "0 \<le> ?f a" if "a \<in> set xs" for a
    using that xp(1) pool_invD(2,4) [OF i] by (fastforce simp: failures_def block_ok_def)
  have g2: "g a \<le> 5" "0 \<le> g a" if "a \<in> set (zs @ [b])" for a
    using that gx [of a] nn [of a] nz [of a] yz b by (auto simp: retired_def)
  have "sorted_wrt (\<lambda>x y. ?f y \<le> ?f x) zs" using r(5) yz unfolding xs_def [symmetric] by (simp add: sorted_wrt_append)
  then have "sorted_wrt (\<lambda>x y. g y \<le> g x) zs"
    by (rule sorted_wrt_mono_rel [rotated]) (use gx yz in auto)
  then have g3: "sorted_wrt (\<lambda>x y. g y \<le> g x) (zs @ [b])" using g2 b(2) by (auto simp: sorted_wrt_append)
  obtain c as' where c: "zs @ [b] = c # as'" by (cases "zs @ [b]") auto
  have L: "filter (\<lambda>a. \<not> (a \<in> set xs \<and> dead p a)) (p_pdList p) @ [b] = (rs @ filter (\<lambda>a. \<not> dead p a) ys) @ c # as'"
    unfolding flt using c by simp
  have H: "hd (zs @ [b]) = c" using c by simp
  show ?thesis unfolding r(2) xs_def [symmetric] cur H L search_order_def
    by (intro exI [of _ "rs @ filter (\<lambda>a. \<not> dead p a) ys"] exI [of _ as'] conjI ballI refl g1
      g2(1) [unfolded c] g3 [unfolded c])
qed

lemma add_block_shape:
  assumes z: "sizes_ok hs ds" and q: "pool_shape hs ds q" and n: "0 < n" "AwAlign (hs + n) 8 \<le> 4095"
    and b: "0 < b" "b \<notin> set (owned q)" "\<And>x. x \<in> set (owned q) \<Longrightarrow> b + 8192 \<le> x \<or> x + extent hs q x \<le> b"
    and m: "p_mems q (b + ds) = None" "b + ds \<notin> set (p_largeList q)"
      "\<And>c e. p_blocks q c = Some e \<Longrightarrow> b + ds \<notin> set (pd_pmList e)"
  shows "pool_shape hs ds (q\<lparr>p_pdList := p_pdList q @ [b], p_current := c,
      p_blocks := (p_blocks q)(b \<mapsto> \<lparr>pd_last = b + ds + AwAlign (hs + n) 8, pd_end = b + 8192, pd_pmList = [b + ds],
        pd_ref = 2, pd_failed = 0\<rparr>), p_mems := (p_mems q)(b + ds \<mapsto> \<lparr>pm_owner = b, pm_size = n\<rparr>)\<rparr>)"
    (is "pool_shape hs ds ?p")
proof -
  have ds: "0 < ds" "ds \<le> 64" "8 dvd ds" "0 < hs" using z by (auto simp: sizes_ok_def)
  have q': "distinct (owned q)" "set (p_pdList q) = dom (p_blocks q)"
    "\<And>b d. p_blocks q b = Some d \<Longrightarrow> block_ok hs ds (p_mems q) b d"
    "\<And>m. m \<in> set (p_largeList q) \<Longrightarrow> large_ok (p_mems q) m" "apart (extent hs q) (set (owned q))"
    "\<And>m x. p_mems q m = Some x \<Longrightarrow> mem_listed q m (pm_owner x)"
    using q unfolding pool_shape_def by blast+
  have room: "8 dvd AwAlign (hs + n) 8" "hs + n \<le> AwAlign (hs + n) 8" using AwAlign_bounds by auto
  have dv: "8 dvd (b + ds + AwAlign (hs + n) 8 - b)" using dvd_add [OF ds(3) room(1)] by simp
  have "block_ok hs ds (p_mems ?p) c e" if e: "p_blocks ?p c = Some e" for c e
  proof (cases "c = b")
    case True
    then show ?thesis using e b(1) ds n room dv by (auto simp: block_ok_def mem_room_def)
  next
    case False
    then have "p_blocks q c = Some e" using e by simp
    then show ?thesis using block_ok_cong [OF q'(3)] m(3) by force
  qed
  moreover have "apart (extent hs ?p) (insert b (set (owned q)))"
    by (rule apart_insert [OF q'(5)]) (use b m(2) in \<open>auto simp: extent_def\<close>)
  moreover have "mem_listed ?p m (pm_owner x)" if "p_mems ?p m = Some x" for m x
    using q'(6) [of m x] that b(2) q'(2) by (auto simp: mem_listed_def split: if_splits)
  moreover have "large_ok (p_mems ?p) m" if "m \<in> set (p_largeList q)" for m
    using q'(4) [OF that] that m(2) by (auto simp: large_ok_def)
  ultimately show ?thesis using q'(1,2) b(2) unfolding pool_shape_def by auto
qed

lemma PallocBlock_ok:
  assumes z: "sizes_ok hs ds" and i: "pool_inv hs ds p" and n: "0 < n" "AwAlign (hs + n) 8 \<le> 4095"
    and f: "\<And>b. newPd = Some b \<Longrightarrow> fresh hs p b 8192"
  shows "alloc_result hs ds p n newPd (PallocBlock hs ds p n newPd)"
proof (cases newPd)
  case None
  then show ?thesis using i by (auto simp: alloc_result_def PallocBlock_def intro!: pool_trace_Nil)
next
  case (Some b)
  define bs where "bs = search_list p"
  define q where "q = p\<lparr>p_pdList := filter (\<lambda>b. \<not> (b \<in> set bs \<and> dead p b)) (p_pdList p), p_blocks := aged bs p\<rparr>"
  define m where "m = b + ds"
  define e where "e = \<lparr>pd_last = m + AwAlign (hs + n) 8, pd_end = b + 8192, pd_pmList = [m], pd_ref = 2, pd_failed = 0\<rparr>"
  define p' where "p' = q\<lparr>p_pdList := p_pdList q @ [b],
      p_current := (case next_current p b bs None of None \<Rightarrow> p_current p | Some c \<Rightarrow> c),
      p_blocks := (p_blocks q)(b \<mapsto> e), p_mems := (p_mems q)(m \<mapsto> \<lparr>pm_owner = b, pm_size = n\<rparr>)\<rparr>"
  note d = pool_invD [OF i]
  have ds: "AwAlign ds 8 = ds" "0 < ds" "ds \<le> 64" "8 dvd ds" "0 < hs" using z AwAlign_id by (auto simp: sizes_ok_def)
  have dist: "distinct (p_pdList p)" using d(1) by simp
  obtain rs as where r: "p_pdList p = rs @ p_current p # as" "bs = p_current p # as"
    "\<forall>b \<in> set (p_current p # as). failures p b \<le> 5"
    using from_current_order [OF d(3) dist] bs_def by metis
  have bs: "distinct bs" "set bs \<subseteq> dom (p_blocks p)" "\<And>b. b \<in> set bs \<Longrightarrow> failures p b \<le> 5"
    using r dist d(2) by auto
  have run: "PallocBlock hs ds p n newPd = Ok (m + hs, p', Alloc b # map Free (filter (dead p) bs))"
    using retire_loop_closed [OF bs(1,2) dist, of b None]
    by (simp add: PallocBlock_def Some from_current_Ok [OF i] bs_def [symmetric] p'_def q_def e_def m_def ds Let_def split: option.splits)
  have fr: "fresh hs p b 8192" using f Some by simp
  note fb = fresh_unused [OF z i fr, of b] and fm = fresh_unused [OF z i fr, of m]
  have fu: "b \<notin> set (owned p)" "p_mems p m = None" "m \<notin> set (owned p)" "\<And>c e. p_blocks p c = Some e \<Longrightarrow> m \<notin> set (pd_pmList e)"
    using fb fm ds by (auto simp: m_def)
  have qb: "m \<notin> set (pd_pmList e)" if "p_blocks q c = Some e" for c e
    using that fu(4) by (auto simp: q_def aged_def split: if_splits)
  have ext: "extent hs q x = extent hs p x" if "x \<in> set (owned q)" for x
    using that d(1) by (auto simp: q_def extent_def)
  have oq: "set (owned q) \<subseteq> set (owned p)" "p_mems q = p_mems p" "p_largeList q = p_largeList p" by (auto simp: q_def)
  have qs: "pool_shape hs ds q" unfolding q_def by (rule retire_shape [OF i bs(3,2)])
  have shape: "pool_shape hs ds p'" unfolding p'_def e_def m_def
  proof (rule add_block_shape [OF z qs n])
    show "b + 8192 \<le> x \<or> x + extent hs q x \<le> b" if "x \<in> set (owned q)" for x
      using fr that oq(1) ext [OF that] by (auto simp: fresh_def list_all_iff)
    show "b + ds \<notin> set (pd_pmList e)" if "p_blocks q c = Some e" for c e using qb [OF that] by (simp add: m_def)
  qed (use fr fu oq in \<open>auto simp: fresh_def m_def\<close>)
  have g: "failures p' a = (if a \<in> set bs then failures p a + 1 else failures p a)"
    if "a \<in> set (p_pdList p)" "\<not> (a \<in> set bs \<and> dead p a)" for a
    using that fu(1) d(2) by (auto simp: p'_def q_def failures_def aged_def)
  have g0: "failures p' b = 0" by (simp add: p'_def e_def failures_def)
  have sel: "p_current p' = (case next_current p b bs None of None \<Rightarrow> p_current p | Some c \<Rightarrow> c)"
    "p_pdList p' = filter (\<lambda>a. \<not> (a \<in> set bs \<and> dead p a)) (p_pdList p) @ [b]" by (simp_all add: p'_def q_def)
  have ord: "search_order (\<lambda>a. if a = b then 0 else if a \<in> set bs then failures p a + 1 else failures p a)
      (p_current p') (p_pdList p')"
    unfolding sel bs_def by (rule retire_order [OF i]) (use fu(1) in auto)
  have "search_order (failures p') (p_current p') (p_pdList p')"
    by (rule search_order_cong [OF ord]) (use g g0 fu(1) in \<open>auto simp: sel\<close>)
  then have inv: "pool_inv hs ds p'" using shape by (simp add: pool_inv_def)
  have "pool_trace p ([Alloc b] @ map Free (filter (dead p) bs)) p'"
  proof (rule pool_trace_append)
    show "pool_trace p [Alloc b] (p\<lparr>p_pdList := b # p_pdList p\<rparr>)" by (rule pool_trace_Alloc) simp
    have "filter (\<lambda>a. a \<in> set bs \<and> dead p a) rs = []" using r(1,2) dist by (intro filter_False) auto
    moreover have "filter (\<lambda>a. a \<in> set bs \<and> dead p a) bs = filter (dead p) bs" by (intro filter_cong) auto
    ultimately have "mset (filter (dead p) bs) = mset (filter (\<lambda>a. a \<in> set bs \<and> dead p a) (p_pdList p))"
      using r(1,2) by simp
    then have "mset (p_pdList p) = mset (filter (dead p) bs) + mset (p_pdList q)"
      unfolding q_def using multiset_partition [of "mset (p_pdList p)" "\<lambda>a. a \<in> set bs \<and> dead p a"] by simp
    then show "pool_trace (p\<lparr>p_pdList := b # p_pdList p\<rparr>) (map Free (filter (dead p) bs)) p'"
      by (intro pool_trace_Frees) (simp add: p'_def q_def)
  qed
  moreover have "0 < m + hs" "p_mems p' = (p_mems p)(m \<mapsto> \<lparr>pm_owner = b, pm_size = n\<rparr>)"
    using fr ds by (auto simp: fresh_def m_def p'_def oq)
  ultimately show ?thesis unfolding alloc_result_def run using inv fu(2) by auto
qed

lemma PallocLarge_ok:
  assumes z: "sizes_ok hs ds" and i: "pool_inv hs ds p" and n: "4095 < n"
    and f: "\<And>a. pm = Some a \<Longrightarrow> fresh hs p a (hs + n)"
  shows "alloc_result hs ds p n pm (PallocLarge hs p n pm)"
proof (cases pm)
  case None
  then show ?thesis using i by (auto simp: alloc_result_def PallocLarge_def intro!: pool_trace_Nil)
next
  case (Some a)
  note d = pool_invD [OF i]
  define p' where "p' = p\<lparr>p_largeList := a # p_largeList p, p_mems := (p_mems p)(a \<mapsto> \<lparr>pm_owner = 0, pm_size = n\<rparr>)\<rparr>"
  have hs: "0 < hs" using z by (simp add: sizes_ok_def)
  have fr: "fresh hs p a (hs + n)" using f Some by simp
  have fu: "a \<notin> set (owned p)" "p_mems p a = None" "\<And>c e. p_blocks p c = Some e \<Longrightarrow> a \<notin> set (pd_pmList e)"
    by (rule fresh_unused [OF z i fr]; use hs n in simp)+
  have "block_ok hs ds (p_mems p') b e" if e: "p_blocks p' b = Some e" for b e
  proof -
    have "p_blocks p b = Some e" using e by (simp add: p'_def)
    then show ?thesis using block_ok_cong [OF d(4)] fu(3) by (force simp: p'_def)
  qed
  moreover have "apart (extent hs p') (insert a (set (owned p)))"
    by (rule apart_insert [OF d(6)]) (use fu(1) fr in \<open>auto simp: extent_def p'_def fresh_def list_all_iff\<close>)
  then have "apart (extent hs p') (set (owned p'))" by (simp add: p'_def)
  moreover have "mem_listed p' m (pm_owner x)" if "p_mems p' m = Some x" for m x
    using d(7) [of m x] that by (auto simp: mem_listed_def p'_def split: if_splits)
  moreover have "large_ok (p_mems p') m" if "m \<in> set (p_largeList p')" for m
    using d(5) [of m] that fu(1) fr n by (auto simp: large_ok_def p'_def fresh_def)
  moreover have "search_order (failures p') (p_current p') (p_pdList p')"
    using d(3) by (simp add: p'_def failures_def [abs_def])
  ultimately have "pool_inv hs ds p'" using d(1,2) fu(1) unfolding pool_inv_def pool_shape_def by (auto simp: p'_def)
  moreover have "pool_trace p [Alloc a] p'" by (rule pool_trace_Alloc) (simp add: p'_def)
  moreover have "PallocLarge hs p n pm = Ok (a + hs, p', [Alloc a])" by (simp add: PallocLarge_def Some p'_def)
  moreover have "0 < a + hs" using fr hs by (simp add: fresh_def)
  ultimately show ?thesis unfolding alloc_result_def using fu(2) by (auto simp: p'_def)
qed

definition alloc_size_ok :: "int \<Rightarrow> int \<Rightarrow> bool" where
  "alloc_size_ok hs n \<longleftrightarrow> 0 < n \<and> n \<le> 2147483000 \<and> (n \<le> 4095 \<longrightarrow> AwAlign (hs + n) 8 \<le> 4095)"

definition malloc_ok :: "int \<Rightarrow> AwPool \<Rightarrow> int \<Rightarrow> addr option \<Rightarrow> bool" where
  "malloc_ok hs p n m = (case m of None \<Rightarrow> True | Some a \<Rightarrow> fresh hs p a (if n \<le> 4095 then 8192 else hs + n))"

lemma AwPalloc_ok:
  assumes z: "sizes_ok hs ds" and i: "pool_inv hs ds p" and n: "alloc_size_ok hs n" and m: "malloc_ok hs p n m"
  shows "alloc_result hs ds p n m (AwPalloc hs ds p n m)"
proof -
  have n0: "0 < n" "n \<le> 2147483000" using n by (auto simp: alloc_size_ok_def)
  have id: "i32 (AwAlign (hs + n) 8) = AwAlign (hs + n) 8"
    using AwAlign_bounds [of "hs + n"] n0 z by (intro i32_id) (auto simp: int32_range_def sizes_ok_def)
  show ?thesis
  proof (cases "n \<le> 4095")
    case True
    then have room: "AwAlign (hs + n) 8 \<le> 4095" using n by (simp add: alloc_size_ok_def)
    have "set (search_list p) \<subseteq> dom (p_blocks p)"
      using pool_invD(2) [OF i] set_dropWhileD by (fastforce simp: search_list_def)
    from find_block_ok [OF i this z, of "AwAlign (hs + n) 8"] show ?thesis
    proof (elim disjE exE conjE)
      assume "find_block p (AwAlign (hs + n) 8) (search_list p) = Ok None"
      moreover have "fresh hs p b 8192" if "m = Some b" for b using m that True by (simp add: malloc_ok_def)
      ultimately show ?thesis using PallocBlock_ok [OF z i n0(1) room, of m] n0 True room
        by (simp add: AwPalloc_def Let_def id from_current_Ok [OF i])
    next
      fix b d assume "find_block p (AwAlign (hs + n) 8) (search_list p) = Ok (Some b)" "p_blocks p b = Some d"
        "AwAlign (hs + n) 8 \<le> b + 8192 - pd_last d"
      then show ?thesis using place_in_block [OF z i, of b d n] n0 True room
        by (simp add: AwPalloc_def Let_def id from_current_Ok [OF i])
    qed
  next
    case False
    then have "\<not> AwAlign (hs + n) 8 \<le> 4095" using AwAlign_bounds(1) [of "hs + n"] z by (auto simp: sizes_ok_def)
    moreover have "fresh hs p a (hs + n)" if "m = Some a" for a using m that False by (simp add: malloc_ok_def)
    ultimately show ?thesis using PallocLarge_ok [OF z i, of n m] False n0 by (simp add: AwPalloc_def Let_def id)
  qed
qed

section \<open>Giving memory back\<close>

definition free_result :: "int \<Rightarrow> int \<Rightarrow> AwPool \<Rightarrow> addr \<Rightarrow> (AwPool \<times> addr mem_event list) exec \<Rightarrow> bool" where
  "free_result hs ds p m r \<longleftrightarrow> (\<exists>p' es. r = Ok (p', es) \<and> pool_inv hs ds p' \<and> pool_trace p es p' \<and>
     p_mems p' = (p_mems p)(m := None))"

text \<open>Memory is in one list only.\<close>

lemma mem_one_list:
  assumes z: "sizes_ok hs ds" and i: "pool_inv hs ds p"
  shows "m \<in> set (p_largeList p) \<Longrightarrow> p_blocks p c = Some e \<Longrightarrow> m \<notin> set (pd_pmList e)"
    "p_blocks p b = Some d \<Longrightarrow> m \<in> set (pd_pmList d) \<Longrightarrow> m \<notin> set (p_largeList p)"
    "p_blocks p b = Some d \<Longrightarrow> m \<in> set (pd_pmList d) \<Longrightarrow> p_blocks p c = Some e \<Longrightarrow> m \<in> set (pd_pmList e) \<Longrightarrow> c = b"
proof -
  have o: "pm_owner (the (p_mems p m)) = b \<and> 0 < b" if "p_blocks p b = Some d" "m \<in> set (pd_pmList d)" for m b d
    using block_ok_mem(1) [OF z pool_invD(4) [OF i that(1)] that(2)] pool_invD(4) [OF i that(1)]
    by (simp add: block_ok_def)
  have l: "pm_owner (the (p_mems p m)) = 0" if "m \<in> set (p_largeList p)" for m
    using pool_invD(5) [OF i that] by (auto simp: large_ok_def)
  show "m \<in> set (p_largeList p) \<Longrightarrow> p_blocks p c = Some e \<Longrightarrow> m \<notin> set (pd_pmList e)"
    "p_blocks p b = Some d \<Longrightarrow> m \<in> set (pd_pmList d) \<Longrightarrow> m \<notin> set (p_largeList p)"
    using o l by force+
  show "p_blocks p b = Some d \<Longrightarrow> m \<in> set (pd_pmList d) \<Longrightarrow> p_blocks p c = Some e \<Longrightarrow> m \<in> set (pd_pmList e) \<Longrightarrow> c = b"
    using o by metis
qed

lemma unlink_large:
  assumes z: "sizes_ok hs ds" and i: "pool_inv hs ds p" and m: "m \<in> set (p_largeList p)"
  shows "free_result hs ds p m (Ok (unlinked m p, [Free m]))"
proof -
  note d = pool_invD [OF i]
  let ?p = "p\<lparr>p_largeList := remove1 m (p_largeList p), p_mems := (p_mems p)(m := None)\<rparr>"
  have "map_option (\<lambda>d. d\<lparr>pd_pmList := remove1 m (pd_pmList d)\<rparr>) (p_blocks p b) = p_blocks p b" for b
    using mem_one_list(1) [OF z i m] by (cases "p_blocks p b") (auto simp: remove1_idem)
  then have u: "unlinked m p = ?p" by (simp add: unlinked_def)
  have md: "m \<notin> set (p_pdList p)" using d(1) m by auto
  have "block_ok hs ds (p_mems ?p) b e" if "p_blocks ?p b = Some e" for b e
    using block_ok_cong [OF d(4)] that mem_one_list(1) [OF z i m, of b e] by force
  moreover have "apart (extent hs ?p) (set (owned ?p))"
    by (rule apart_subset [OF d(6)]) (use d(1) in \<open>auto simp: extent_def dest: notin_set_remove1\<close>)
  moreover have "mem_listed ?p a (pm_owner x)" if "p_mems ?p a = Some x" for a x
    using d(7) [of a x] that by (auto simp: mem_listed_def split: if_splits)
  moreover have "large_ok (p_mems ?p) a" if "a \<in> set (p_largeList ?p)" for a
    using d(1) d(5) [of a] that by (auto simp: large_ok_def)
  ultimately have "pool_inv hs ds ?p"
    using d(1,2,3) unfolding pool_inv_def pool_shape_def failures_def [abs_def] by (auto dest: notin_set_remove1)
  moreover have "pool_trace p (map Free [m]) ?p" by (rule pool_trace_Frees) (use m in simp)
  ultimately show ?thesis unfolding free_result_def u by auto
qed

lemma unlink_mem_large: "m \<in> set (p_largeList p) \<Longrightarrow> unlink_mem m p = Ok (unlinked m p)"
  by (simp add: unlink_mem_def)

lemma unlink_mem_block:
  "pool_inv hs ds p \<Longrightarrow> p_blocks p b = Some d \<Longrightarrow> m \<in> set (pd_pmList d) \<Longrightarrow> unlink_mem m p = Ok (unlinked m p)"
proof -
  assume "pool_inv hs ds p" and b: "p_blocks p b = Some d" "m \<in> set (pd_pmList d)"
  then have "b \<in> set (p_pdList p)" using pool_invD(2) by blast
  then have "list_ex (\<lambda>b. case p_blocks p b of None \<Rightarrow> False | Some d \<Rightarrow> m \<in> set (pd_pmList d)) (p_pdList p)"
    using b by (auto simp: list_ex_iff intro!: bexI [of _ b])
  then show ?thesis by (simp add: unlink_mem_def)
qed

lemma unlink_block:
  assumes z: "sizes_ok hs ds" and i: "pool_inv hs ds p" and b: "p_blocks p b = Some d" "m \<in> set (pd_pmList d)"
  shows "unlinked m p = p\<lparr>p_blocks := (p_blocks p)(b \<mapsto> d\<lparr>pd_pmList := remove1 m (pd_pmList d)\<rparr>),
    p_mems := (p_mems p)(m := None)\<rparr>"
proof -
  have "map_option (\<lambda>d. d\<lparr>pd_pmList := remove1 m (pd_pmList d)\<rparr>) (p_blocks p c) =
      ((p_blocks p)(b \<mapsto> d\<lparr>pd_pmList := remove1 m (pd_pmList d)\<rparr>)) c" for c
  proof (cases "c = b")
    case False
    then have "m \<notin> set (pd_pmList e)" if "p_blocks p c = Some e" for e using mem_one_list(3) [OF z i b that] by blast
    then show ?thesis using False by (cases "p_blocks p c") (auto simp: remove1_idem)
  qed (simp add: b)
  then show ?thesis using mem_one_list(2) [OF z i b] by (simp add: unlinked_def remove1_idem fun_eq_iff)
qed

lemma search_order_remove:
  assumes "search_order f c bs" "distinct bs" "5 < f b"
  shows "search_order f c (remove1 b bs)"
proof -
  obtain rs as where r: "bs = rs @ c # as" "\<forall>b \<in> set rs. 5 < f b" "\<forall>b \<in> set (c # as). f b \<le> 5"
    "sorted_wrt (\<lambda>x y. f y \<le> f x) (c # as)" using assms(1) unfolding search_order_def by blast
  have "b \<notin> set (c # as)" using r(3) assms(3) by force
  then have "remove1 b bs = remove1 b rs @ c # as" using r(1) by (auto simp: remove1_append remove1_idem)
  then show ?thesis unfolding search_order_def using r(2-4) by (meson notin_set_remove1)
qed

lemma block_ok_remove:
  assumes z: "sizes_ok hs ds" and ok: "block_ok hs ds M b d" and m: "m \<in> set (pd_pmList d)"
    and r: "pd_ref d - 1 \<noteq> 0"
  shows "block_ok hs ds (M(m := None)) b (d\<lparr>pd_pmList := remove1 m (pd_pmList d), pd_ref := pd_ref d - 1\<rparr>)"
proof -
  note mem = block_ok_mem [OF z ok]
  have nm: "m \<notin> set (remove1 m (pd_pmList d))" using mem(2) by simp
  have "chunks (mem_room hs M) (b + ds) (pd_last d) (remove1 m (pd_pmList d))"
    by (rule chunks_remove) (use ok mem(1) in \<open>auto simp: block_ok_def\<close>)
  then have "chunks (mem_room hs (M(m := None))) (b + ds) (pd_last d) (remove1 m (pd_pmList d))"
    using nm by (subst chunks_cong [of _ _ "mem_room hs M"]) (auto simp: mem_room_def)
  moreover have len: "int (length (remove1 m (pd_pmList d))) = int (length (pd_pmList d)) - 1"
    using m length_pos_if_in_set [OF m] by (simp only: length_remove1 if_True)
  moreover have "remove1 m (pd_pmList d) \<noteq> []" if "5 < pd_failed d"
    using r ok that len by (auto simp: block_ok_def)
  ultimately show ?thesis using ok nm by (auto simp: block_ok_def dest: notin_set_remove1)
qed

lemma AwPfree_ok:
  assumes z: "sizes_ok hs ds" and i: "pool_inv hs ds p" and m: "p_mems p (ptr - hs) = Some x"
  shows "free_result hs ds p (ptr - hs) (AwPfree hs p ptr)"
  using z i m
proof (cases rule: pool_inv_mem)
  case large
  then show ?thesis using unlink_large [OF z i large(1)] m by (simp add: AwPfree_def Let_def unlink_mem_large)
next
  case (block d)
  note D = pool_invD [OF i]
  let ?m = "ptr - hs" and ?b = "pm_owner x"
  let ?d = "d\<lparr>pd_pmList := remove1 ?m (pd_pmList d), pd_ref := pd_ref d - 1\<rparr>"
  let ?M = "(p_mems p)(?m := None)"
  note u = unlink_block [OF z i block(1,2)]
  have oth: "block_ok hs ds ?M c e" if "p_blocks p c = Some e" "c \<noteq> ?b" for c e
    using block_ok_cong [OF D(4) [OF that(1)]] mem_one_list(3) [OF z i block(1,2) that(1)] that(2) by force
  have lg: "?m \<notin> set (p_largeList p)" using mem_one_list(2) [OF z i block(1,2)] .
  have lst: "a \<in> set (p_largeList p) \<or> (\<exists>e. p_blocks p (pm_owner y) = Some e \<and> a \<in> set (pd_pmList e))"
    if "?M a = Some y" for a y using D(7) [of a y] that by (auto simp: mem_listed_def split: if_splits)
  have run: "AwPfree hs p ptr = PoolDataDecRef ?b (unlinked ?m p)" using m block(7) by (simp add: AwPfree_def Let_def unlink_mem_block [OF i block(1,2)])
  show ?thesis
  proof (cases "pd_ref d - 1 = 0")
    case False
    let ?p = "p\<lparr>p_blocks := (p_blocks p)(?b \<mapsto> ?d), p_mems := ?M\<rparr>"
    have "pool_inv hs ds ?p"
    proof (rule pool_inv_same [OF i])
      show "block_ok hs ds (p_mems ?p) c e" if "p_blocks ?p c = Some e" for c e
        using that oth [of c e] block_ok_remove [OF z block(10,2) False] by (auto split: if_splits)
      show "mem_listed ?p a (pm_owner y)" if "p_mems ?p a = Some y" for a y
        using lst [of a y] that block(1) in_set_remove1 [of a ?m "pd_pmList d"] by (auto simp: mem_listed_def split: if_splits)
    qed (use block(1) lg in \<open>auto simp: failures_def\<close>)
    moreover have "AwPfree hs p ptr = Ok (?p, [])" using False by (simp add: run u PoolDataDecRef_def)
    ultimately show ?thesis unfolding free_result_def by (auto intro!: pool_trace_Nil)
  next
    case True
    let ?p = "p\<lparr>p_pdList := remove1 ?b (p_pdList p), p_blocks := (p_blocks p)(?b := None), p_mems := ?M\<rparr>"
    have one: "pd_pmList d = [?m]" "5 < pd_failed d"
      using True block(2,10) by (cases "pd_pmList d"; auto simp: block_ok_def split: if_splits)+
    have run': "AwPfree hs p ptr = Ok (?p, [Free ?b])" using True by (simp add: run u PoolDataDecRef_def)
    have bl: "?b \<in> set (p_pdList p)" using D(2) block(1) by auto
    have dist: "distinct (p_pdList p)" using D(1) by simp
    have "block_ok hs ds (p_mems ?p) c e" if "p_blocks ?p c = Some e" for c e
      using that oth [of c e] by (auto split: if_splits)
    moreover have "mem_listed ?p a (pm_owner y)" if a: "p_mems ?p a = Some y" for a y
    proof -
      have "pm_owner y \<noteq> ?b" if "p_blocks p (pm_owner y) = Some e" "a \<in> set (pd_pmList e)" for e
        using that a one(1) block(1) by (auto split: if_splits)
      then show ?thesis using lst [of a y] a by (auto simp: mem_listed_def)
    qed
    moreover have "apart (extent hs ?p) (set (owned ?p))"
      by (rule apart_subset [OF D(6)]) (use D(1) lg in \<open>auto simp: extent_def\<close>)
    moreover have "large_ok (p_mems ?p) a" if "a \<in> set (p_largeList p)" for a
      using D(5) [OF that] that lg by (auto simp: large_ok_def)
    moreover have "search_order (failures ?p) (p_current ?p) (p_pdList ?p)"
    proof -
      have "search_order (failures p) (p_current p) (remove1 ?b (p_pdList p))"
        by (rule search_order_remove [OF D(3) dist]) (use one(2) block(1) in \<open>simp add: failures_def\<close>)
      then show ?thesis using dist by (auto intro: search_order_cong simp: failures_def)
    qed
    ultimately have "pool_inv hs ds ?p" using D(1,2) dist unfolding pool_inv_def pool_shape_def by auto
    moreover have "pool_trace p (map Free [?b]) ?p" by (rule pool_trace_Frees) (use bl in simp)
    ultimately show ?thesis unfolding free_result_def run' by auto
  qed
qed

section \<open>Growing memory\<close>

definition realloc_result ::
  "int \<Rightarrow> int \<Rightarrow> AwPool \<Rightarrow> addr \<Rightarrow> int \<Rightarrow> addr option \<Rightarrow> (addr \<times> AwPool \<times> addr mem_event list) exec \<Rightarrow> bool" where
  "realloc_result hs ds p m n c r \<longleftrightarrow> (\<exists>ptr p' es. r = Ok (ptr, p', es) \<and> pool_inv hs ds p' \<and> pool_trace p es p' \<and>
     (ptr = 0 \<and> p' = p \<and> c = None \<or> 0 < ptr \<and>
        (\<exists>ow. p_mems p' = (p_mems p)(m := None, ptr - hs \<mapsto> \<lparr>pm_owner = ow, pm_size = n\<rparr>))))"

lemma realloc_in_block_ok:
  assumes z: "sizes_ok hs ds" and i: "pool_inv hs ds p" and b: "p_blocks p b = Some d" "m \<in> set (pd_pmList d)"
    and n: "0 < n" "n \<le> 4095" and r: "realloc_in_block hs p m b d n = Some p'"
  shows "pool_inv hs ds p'" "owned p' = owned p" "p_mems p' = (p_mems p)(m \<mapsto> \<lparr>pm_owner = b, pm_size = n\<rparr>)"
proof -
  note D = pool_invD [OF i]
  note ok = D(4) [OF b(1)]
  note mem = block_ok_mem [OF z ok]
  let ?M = "(p_mems p)(m \<mapsto> \<lparr>pm_owner = b, pm_size = n\<rparr>)"
  obtain us vs where s: "pd_pmList d = us @ m # vs" "m \<notin> set us" using b(2) by (meson split_list_first)
  have mv: "m \<notin> set vs" using mem(2) s by simp
  have rest: "tl (dropWhile (\<lambda>a. a \<noteq> m) (pd_pmList d)) = vs" using s by (auto simp: dropWhile_append)
  define lim where "lim = (case vs of [] \<Rightarrow> b + 8192 | v # _ \<Rightarrow> v)"
  have ch: "chunks (mem_room hs (p_mems p)) (b + ds) m us"
    "chunks (mem_room hs (p_mems p)) (m + mem_room hs (p_mems p) m) (pd_last d) vs"
    using ok s(1) by (auto simp: block_ok_def chunks_split)
  have dv: "8 dvd (m - b)" "8 dvd (lim - b)" using ok s(1) by (auto simp: block_ok_def lim_def split: list.splits)
  have lb: "m < lim" "lim \<le> b + 8192"
    using ch(2) mem(1) [OF b(2)] mem(1) [of "hd vs"] ok s(1) by (auto simp: lim_def block_ok_def split: list.splits)
  have bm: "b < m" using mem(1) [OF b(2)] z by (simp add: sizes_ok_def)
  have "i32 (lim - (m + hs)) = lim - (m + hs)"
    using lb bm z by (intro i32_id) (auto simp: int32_range_def sizes_ok_def)
  then have r': "n \<le> lim - (m + hs)" "p' = p\<lparr>p_mems := ?M, p_blocks := (if vs = []
      then (p_blocks p)(b \<mapsto> d\<lparr>pd_last := m + AwAlign (hs + n) 8\<rparr>) else p_blocks p)\<rparr>"
    using r unfolding realloc_in_block_def rest Let_def lim_def [symmetric] by (auto split: if_splits)
  show "owned p' = owned p" "p_mems p' = ?M" by (simp_all add: r')
  have room: "m + AwAlign (hs + n) 8 \<le> lim"
    using AwAlign_least [of "lim - m" "hs + n"] dvd_diff [OF dv(2,1)] r'(1) by simp
  have rd: "8 dvd (m + AwAlign (hs + n) 8 - b)"
    using dvd_add [OF dv(1) AwAlign_bounds(3) [of "hs + n"]] by (simp add: algebra_simps)
  have fm: "mem_room hs ?M m = AwAlign (hs + n) 8" by (simp add: mem_room_def)
  have us: "chunks (mem_room hs ?M) (b + ds) m us"
    using ch(1) s(2) by (subst chunks_cong [of _ _ "mem_room hs (p_mems p)"]) (auto simp: mem_room_def)
  have vs: "chunks (mem_room hs ?M) (m + AwAlign (hs + n) 8) (pd_last d) vs" if "vs \<noteq> []"
    using ch(2) mv room that
    by (subst chunks_cong [of _ _ "mem_room hs (p_mems p)"]) (auto simp: mem_room_def lim_def neq_Nil_conv)
  have bk: "block_ok hs ds ?M b (if vs = [] then d\<lparr>pd_last := m + AwAlign (hs + n) 8\<rparr> else d)"
    using ok n room lb(2) rd us vs s(1) fm dv(1) by (auto simp: block_ok_def chunks_split lim_def)
  show "pool_inv hs ds p'"
  proof (rule pool_inv_same [OF i])
    show "block_ok hs ds (p_mems p') c e" if e: "p_blocks p' c = Some e" for c e
    proof (cases "c = b")
      case True
      then show ?thesis using bk e b(1) by (auto simp: r' split: if_splits)
    next
      case False
      then have "p_blocks p c = Some e" using e by (auto simp: r' split: if_splits)
      then show ?thesis using block_ok_cong [OF D(4)] mem_one_list(3) [OF z i b] False by (force simp: r')
    qed
    show "mem_listed p' a (pm_owner y)" if "p_mems p' a = Some y" for a y
      using D(7) [of a y] that b by (auto simp: mem_listed_def r' split: if_splits)
  qed (use b mem_one_list(2) [OF z i b] in \<open>auto simp: r' failures_def\<close>)
qed

text \<open>The old memory is given back after the new one was obtained.\<close>

lemma alloc_then_free:
  assumes z: "sizes_ok hs ds" and a: "alloc_result hs ds p n c r" and m: "p_mems p m = Some x"
    and f: "\<And>p1. pool_inv hs ds p1 \<Longrightarrow> p_mems p1 m = Some x \<Longrightarrow> free_result hs ds p1 m (f p1)"
    and kf: "\<And>ptr p1 es. 0 < ptr \<Longrightarrow> k (ptr, p1, es) = ebind (f p1) (\<lambda>(p2, fs). Ok (ptr, p2, es @ fs))"
    and k0: "\<And>p1 es. c = None \<Longrightarrow> k (0, p1, es) = Ok (0, p1, es)"
  shows "realloc_result hs ds p m n c (ebind r k)"
proof -
  obtain ptr p1 es where r: "r = Ok (ptr, p1, es)" "pool_inv hs ds p1" "pool_trace p es p1"
    and o: "ptr = 0 \<and> p1 = p \<and> c = None \<or> 0 < ptr \<and> p_mems p (ptr - hs) = None \<and>
        (\<exists>ow. p_mems p1 = (p_mems p)(ptr - hs \<mapsto> \<lparr>pm_owner = ow, pm_size = n\<rparr>))"
    using a unfolding alloc_result_def by blast
  show ?thesis
  proof (cases "ptr = 0")
    case True
    then show ?thesis using r o k0 [of p1 es] by (auto simp: realloc_result_def)
  next
    case False
    then obtain ow where ow: "0 < ptr" "p_mems p (ptr - hs) = None"
      "p_mems p1 = (p_mems p)(ptr - hs \<mapsto> \<lparr>pm_owner = ow, pm_size = n\<rparr>)" using o by blast
    have ne: "m \<noteq> ptr - hs" using ow(2) m by auto
    then have "p_mems p1 m = Some x" using ow(3) m by simp
    then obtain p2 fs where f2: "f p1 = Ok (p2, fs)" "pool_inv hs ds p2" "pool_trace p1 fs p2"
      "p_mems p2 = (p_mems p1)(m := None)" using f [OF r(2)] unfolding free_result_def by blast
    have "p_mems p2 = (p_mems p)(m := None, ptr - hs \<mapsto> \<lparr>pm_owner = ow, pm_size = n\<rparr>)"
      unfolding f2(4) ow(3) using ne by (simp add: fun_upd_twist)
    then show ?thesis using r(1) f2(1,2) kf [OF ow(1)] ow(1) pool_trace_append [OF r(3) f2(3)]
      by (auto simp: realloc_result_def)
  qed
qed

text \<open>What a client must do to grow memory: the pointer is in use, the size grows, and memory for a small
  piece does not run out, as the code then copies to \<open>NULL\<close>.\<close>

definition realloc_ok :: "int \<Rightarrow> AwPool \<Rightarrow> addr \<Rightarrow> int \<Rightarrow> addr option \<Rightarrow> bool" where
  "realloc_ok hs p ptr n m \<longleftrightarrow> alloc_size_ok hs n \<and> malloc_ok hs p n m \<and> (n \<le> 4095 \<longrightarrow> m \<noteq> None) \<and>
     (case p_mems p (ptr - hs) of None \<Rightarrow> False | Some x \<Rightarrow> pm_size x < n) \<and> 0 < ptr"

lemma AwRealloc_ok:
  assumes z: "sizes_ok hs ds" and i: "pool_inv hs ds p" and k: "realloc_ok hs p ptr n m"
  shows "realloc_result hs ds p (ptr - hs) n m (AwRealloc hs ds p ptr n m)"
proof -
  obtain x where x: "p_mems p (ptr - hs) = Some x" "pm_size x < n" "0 < ptr" and n: "alloc_size_ok hs n" "malloc_ok hs p n m"
    "n \<le> 4095 \<longrightarrow> m \<noteq> None"
    using k unfolding realloc_ok_def by (auto split: option.splits)
  have n0: "0 < n" "\<not> n \<le> 0" "\<not> n \<le> pm_size x" using n(1) x(2) by (auto simp: alloc_size_ok_def)
  have fr: "free_result hs ds p1 (ptr - hs) (AwPfree hs p1 ptr)"
    if "pool_inv hs ds p1" "p_mems p1 (ptr - hs) = Some x" for p1 using AwPfree_ok [OF z that] .
  have big: "alloc_result hs ds p n m (PallocLarge hs p n m)" if "4095 < n"
    by (rule PallocLarge_ok [OF z i that]) (use n(2) that in \<open>simp add: malloc_ok_def\<close>)
  show ?thesis using z i x(1)
  proof (cases rule: pool_inv_mem)
    case large
    have un: "free_result hs ds p1 (ptr - hs) (ebind (unlink_mem (ptr - hs) p1) (\<lambda>p2. Ok (p2, [Free (ptr - hs)])))"
      if p1: "pool_inv hs ds p1" "p_mems p1 (ptr - hs) = Some x" for p1
      using z p1 by (cases rule: pool_inv_mem) (use unlink_large [OF z p1(1)] large(3) in \<open>auto simp: unlink_mem_large\<close>)
    have run: "AwRealloc hs ds p ptr n m = ebind (PallocLarge hs p n m) (\<lambda>(newP, p1, es).
        if newP = 0 then Ok (0, p1, es) else
          ebind (ebind (unlink_mem (ptr - hs) p1) (\<lambda>p2. Ok (p2, [Free (ptr - hs)])))
            (\<lambda>(p2, fs). Ok (newP, p2, es @ fs)))"
      using x(1) n0 large unfolding AwRealloc_def Let_def by (simp add: ebind_assoc cong: if_cong del: ebind_eq_Ok)
    show ?thesis unfolding run by (rule alloc_then_free [OF z big x(1) un]) (use large(3) x(2) in simp_all)
  next
    case (block d)
    show ?thesis
    proof (cases "4095 < n")
      case True
      then show ?thesis using x(1) n0 block(7) unfolding AwRealloc_def Let_def
        by (simp add: alloc_then_free [OF z big x(1) fr])
    next
      case False
      then obtain a where a: "m = Some a" using n(3) by auto
      show ?thesis
      proof (cases "realloc_in_block hs p (ptr - hs) (pm_owner x) d n")
        case (Some p')
        note o = realloc_in_block_ok [OF z i block(1,2) n0(1) _ Some]
        have "AwRealloc hs ds p ptr n m = Ok (ptr, p', [])"
          using x(1) n0 block(1,7) False Some by (simp add: AwRealloc_def Let_def)
        then show ?thesis using o False x(3) by (auto simp: realloc_result_def intro!: pool_trace_Nil)
      next
        case None
        have run: "AwRealloc hs ds p ptr n m = ebind (AwPalloc hs ds p n m) (\<lambda>(newP, p1, es).
            if newP = 0 then Fault else ebind (AwPfree hs p1 ptr) (\<lambda>(p2, fs). Ok (newP, p2, es @ fs)))"
          using x(1) n0 block(1,7) False None by (simp add: AwRealloc_def Let_def)
        show ?thesis unfolding run
          by (rule alloc_then_free [OF z AwPalloc_ok [OF z i n(1,2)] x(1) fr]) (simp_all add: a)
      qed
    qed
  qed
qed

section \<open>Destruction\<close>

lemma dec_refs_closed:
  "p_blocks p b = Some d \<Longrightarrow> int n < pd_ref d \<Longrightarrow>
    dec_refs n b p = Ok (p\<lparr>p_blocks := (p_blocks p)(b \<mapsto> d\<lparr>pd_ref := pd_ref d - int n\<rparr>)\<rparr>, [])"
proof (induction n arbitrary: p d)
  case 0
  then show ?case by (simp add: fun_upd_idem)
next
  case (Suc n)
  let ?p = "p\<lparr>p_blocks := (p_blocks p)(b \<mapsto> d\<lparr>pd_ref := pd_ref d - 1\<rparr>)\<rparr>"
  have "PoolDataDecRef b p = Ok (?p, [])" using Suc.prems by (simp add: PoolDataDecRef_def)
  then show ?case using Suc.IH [of ?p "d\<lparr>pd_ref := pd_ref d - 1\<rparr>"] Suc.prems by (simp add: diff_diff_eq cong: if_cong)
qed

lemma destroy_block_ok:
  assumes b: "p_blocks p b = Some d" and ok: "block_ok hs ds M b d"
  shows "\<exists>p1. destroy_block b p = Ok (p1, [Free b]) \<and> p_blocks p1 = (p_blocks p)(b := None)"
proof -
  define e where "e = d\<lparr>pd_ref := int (length (pd_pmList d)) + 1\<rparr>"
  define q where "q = p\<lparr>p_blocks := (p_blocks p)(b \<mapsto> e)\<rparr>"
  have inc: "(if 5 < pd_failed d then PoolDataIncRef b p else Ok p) = Ok q"
    using b ok by (auto simp: PoolDataIncRef_def q_def e_def block_ok_def fun_upd_idem intro!: AwPool.equality PoolData.equality)
  define f where "f = d\<lparr>pd_ref := 1\<rparr>"
  have qb: "p_blocks q b = Some e" by (simp add: q_def)
  have "(if pd_ref (the (p_blocks q b)) \<noteq> 1 then dec_refs (length (pd_pmList d)) b q else Ok (q, [])) =
      Ok (p\<lparr>p_blocks := (p_blocks p)(b \<mapsto> f)\<rparr>, [])"
    using dec_refs_closed [OF qb, of "length (pd_pmList d)"]
    by (auto simp: q_def e_def f_def)
  then show ?thesis using b inc by (simp add: destroy_block_def PoolDataDecRef_def f_def)
qed

lemma destroy_blocks_ok:
  assumes "distinct bs" "\<And>b. b \<in> set bs \<Longrightarrow> \<exists>d. p_blocks p b = Some d \<and> block_ok hs ds M b d"
  shows "destroy_blocks bs p = Ok (map Free bs)"
  using assms
proof (induction bs arbitrary: p)
  case (Cons b bs)
  then obtain d where d: "p_blocks p b = Some d" "block_ok hs ds M b d" by auto
  obtain p1 where p1: "destroy_block b p = Ok (p1, [Free b])" "p_blocks p1 = (p_blocks p)(b := None)"
    using destroy_block_ok [OF d] by blast
  have "\<exists>d. p_blocks p1 c = Some d \<and> block_ok hs ds M c d" if "c \<in> set bs" for c
    using Cons.prems(1) Cons.prems(2) [of c] that p1(2) by auto
  then show ?case using Cons.IH [of p1] Cons.prems(1) p1(1) by simp
qed simp

lemma destroy_pool_ok:
  assumes "pool_inv hs ds p"
  shows "destroy_pool self p = Ok (map Free (p_largeList p @ p_pdList p @ [self]))"
proof -
  have "\<exists>d. p_blocks p b = Some d \<and> block_ok hs ds (p_mems p) b d" if "b \<in> set (p_pdList p)" for b
    using pool_invD(2,4) [OF assms] that by auto
  then have "destroy_blocks (p_pdList p) p = Ok (map Free (p_pdList p))"
    using pool_invD(1) [OF assms] by (intro destroy_blocks_ok) auto
  then show ?thesis by (simp add: destroy_pool_def)
qed

section \<open>Runs\<close>

datatype pool_op = PoolAlloc int "addr option" | PoolFree addr | PoolRealloc addr int "addr option"

fun pool_call :: "int \<Rightarrow> int \<Rightarrow> pool_op \<Rightarrow> AwPool \<Rightarrow> (AwPool \<times> addr mem_event list) exec" where
  "pool_call hs ds (PoolAlloc n m) p = ebind (AwPalloc hs ds p n m) (\<lambda>(ptr, p1, es). Ok (p1, es))"
| "pool_call hs ds (PoolFree ptr) p = AwPfree hs p ptr"
| "pool_call hs ds (PoolRealloc ptr n m) p = ebind (AwRealloc hs ds p ptr n m) (\<lambda>(newP, p1, es). Ok (p1, es))"

fun pool_call_ok :: "int \<Rightarrow> pool_op \<Rightarrow> AwPool \<Rightarrow> bool" where
  "pool_call_ok hs (PoolAlloc n m) p \<longleftrightarrow> alloc_size_ok hs n \<and> malloc_ok hs p n m"
| "pool_call_ok hs (PoolFree ptr) p \<longleftrightarrow> p_mems p (ptr - hs) \<noteq> None"
| "pool_call_ok hs (PoolRealloc ptr n m) p \<longleftrightarrow> realloc_ok hs p ptr n m"

text \<open>A sequence of calls, each of them allowed where it is made.\<close>

fun pool_run :: "int \<Rightarrow> int \<Rightarrow> pool_op list \<Rightarrow> AwPool \<Rightarrow> (AwPool \<times> addr mem_event list) exec" where
  "pool_run hs ds [] p = Ok (p, [])"
| "pool_run hs ds (op # ops) p = ebind (pool_call hs ds op p) (\<lambda>(p1, es).
     ebind (pool_run hs ds ops p1) (\<lambda>(p2, fs). Ok (p2, es @ fs)))"

fun pool_run_ok :: "int \<Rightarrow> int \<Rightarrow> pool_op list \<Rightarrow> AwPool \<Rightarrow> bool" where
  "pool_run_ok hs ds [] p = True"
| "pool_run_ok hs ds (op # ops) p \<longleftrightarrow> pool_call_ok hs op p \<and>
     (case pool_call hs ds op p of Ok (p1, es) \<Rightarrow> pool_run_ok hs ds ops p1 | _ \<Rightarrow> True)"

lemma pool_call_safe:
  assumes "sizes_ok hs ds" "pool_inv hs ds p" "pool_call_ok hs op p"
  shows "\<exists>p1 es. pool_call hs ds op p = Ok (p1, es) \<and> pool_inv hs ds p1 \<and> pool_trace p es p1"
proof (cases op)
  case (PoolAlloc n m)
  then show ?thesis using AwPalloc_ok [OF assms(1,2), of n m] assms(3) by (auto simp: alloc_result_def)
next
  case (PoolFree ptr)
  then show ?thesis using AwPfree_ok [OF assms(1,2), of ptr] assms(3) by (auto simp: free_result_def)
next
  case (PoolRealloc ptr n m)
  then show ?thesis using AwRealloc_ok [OF assms(1,2), of ptr n m] assms(3) by (auto simp: realloc_result_def)
qed

lemma pool_run_inv:
  assumes "sizes_ok hs ds" "pool_inv hs ds p" "pool_run_ok hs ds ops p"
  shows "\<exists>p1 es. pool_run hs ds ops p = Ok (p1, es) \<and> pool_inv hs ds p1 \<and> pool_trace p es p1"
  using assms(2,3)
proof (induction ops arbitrary: p)
  case Nil
  then show ?case by (auto intro: pool_trace_Nil)
next
  case (Cons op ops)
  obtain p1 es where 1: "pool_call hs ds op p = Ok (p1, es)" "pool_inv hs ds p1" "pool_trace p es p1"
    using pool_call_safe [OF assms(1) Cons.prems(1), of op] Cons.prems(2) by auto
  moreover obtain p2 fs where "pool_run hs ds ops p1 = Ok (p2, fs)" "pool_inv hs ds p2" "pool_trace p1 fs p2"
    using Cons.IH [OF 1(2)] Cons.prems(2) 1(1) by auto
  ultimately show ?case using pool_trace_append by auto
qed

lemma PoolNodeCreate_inv:
  assumes "PoolNodeCreate ds pool poolData okAttr = (Some (q, p), es)" "sizes_ok hs ds" "\<And>b. poolData = Some b \<Longrightarrow> 0 < b"
  shows "pool_inv hs ds p" "es = map Alloc (q # owned p)"
proof -
  obtain b where b: "poolData = Some b" "0 < b" and p: "p = \<lparr>p_current = b, p_largeList = [], p_pdList = [b],
      p_blocks = [b \<mapsto> \<lparr>pd_last = b + ds, pd_end = b + 8192, pd_pmList = [], pd_ref = 1, pd_failed = 0\<rparr>],
      p_mems = Map.empty\<rparr>" "es = [Alloc q, Alloc b]"
    using assms(1,3) by (auto simp: PoolNodeCreate_def split: option.splits if_splits)
  have "search_order (failures p) b [b]" unfolding search_order_def
    by (intro exI [of _ "[]"] exI [of _ "[]"]) (simp add: p failures_def)
  then show "pool_inv hs ds p" "es = map Alloc (q # owned p)"
    using b(2) assms(2)
    by (auto simp: p pool_inv_def pool_shape_def block_ok_def sizes_ok_def apart_def split: if_splits)
qed

text \<open>Memory that is allocated and given back leaves the memory in use as it was.\<close>

lemma AwPalloc_AwPfree:
  assumes z: "sizes_ok hs ds" and i: "pool_inv hs ds p" and n: "alloc_size_ok hs n" "malloc_ok hs p n (Some a)"
  shows "\<exists>ptr p1 es p2 fs. AwPalloc hs ds p n (Some a) = Ok (ptr, p1, es) \<and> AwPfree hs p1 ptr = Ok (p2, fs) \<and>
    0 < ptr \<and> p_mems p2 = p_mems p \<and> pool_inv hs ds p2"
proof -
  obtain ptr p1 es ow where a: "AwPalloc hs ds p n (Some a) = Ok (ptr, p1, es)" "pool_inv hs ds p1" "0 < ptr"
    "p_mems p (ptr - hs) = None" "p_mems p1 = (p_mems p)(ptr - hs \<mapsto> \<lparr>pm_owner = ow, pm_size = n\<rparr>)"
    using AwPalloc_ok [OF z i n] by (auto simp: alloc_result_def)
  then have "p_mems p1 (ptr - hs) = Some \<lparr>pm_owner = ow, pm_size = n\<rparr>" by simp
  then obtain p2 fs where "AwPfree hs p1 ptr = Ok (p2, fs)" "pool_inv hs ds p2" "p_mems p2 = (p_mems p1)(ptr - hs := None)"
    using AwPfree_ok [OF z a(2)] unfolding free_result_def by blast
  moreover have "(p_mems p1)(ptr - hs := None) = p_mems p" unfolding a(5) using a(4) by (auto simp: fun_eq_iff)
  ultimately show ?thesis using a(1,3) by auto
qed

lemma dlist_other:
  assumes "dlist h l xs" "\<And>a. a \<in> set (l # xs) \<Longrightarrow> h' a = h a"
  shows "dlist h' l xs"
proof -
  have "links h' (l # xs @ [l]) = links h (l # xs @ [l])"
    using assms(2) by (intro links_cong) (auto simp: l_nx_def l_pv_def butlast_append split: if_splits)
  then show ?thesis using assms(1) by (simp add: dlist_def)
qed

lemma AwPoolCreate_list:
  assumes d: "dlist h (father + cl) xs" and f: "q + cl \<notin> set ((father + cl) # xs)" "q + nd \<notin> set ((father + cl) # xs)"
    and c: "AwPoolCreate ds cl nd father h (Some q) pd ok = Ok (PoolTree q p [], h1, es)"
  shows "PoolNodeCreate ds (Some q) pd ok = (Some (q, p), es)" "dlist h1 (father + cl) ((q + nd) # xs)"
proof -
  let ?h = "(CdxListInit (q + cl) h)(q + nd \<mapsto> \<lparr>ln_next = 0, ln_prev = 0\<rparr>)"
  show "PoolNodeCreate ds (Some q) pd ok = (Some (q, p), es)"
    using c by (auto simp: AwPoolCreate_def PoolNodeCreate_def split: option.splits prod.splits if_splits)
  then have "CdxListAdd (q + nd) (father + cl) ?h = Ok h1" using c by (simp add: AwPoolCreate_def)
  moreover have "dlist ?h (father + cl) xs"
    by (rule dlist_other [OF d]) (use f in \<open>auto simp: CdxListInit_def\<close>)
  ultimately show "dlist h1 (father + cl) ((q + nd) # xs)" using CdxListAdd_dlist [of ?h "father + cl" xs "q + nd"] f(2) by auto
qed


definition demo_pool :: AwPool where
  "demo_pool = \<lparr>p_current = 10000, p_largeList = [], p_pdList = [10000],
     p_blocks = [10000 \<mapsto> \<lparr>pd_last = 10032, pd_end = 18192, pd_pmList = [], pd_ref = 1, pd_failed = 0\<rparr>], p_mems = Map.empty\<rparr>"

definition demo_pool_ops :: "pool_op list" where
  "demo_pool_ops = [PoolAlloc 100 None, PoolAlloc 5000 (Some 50000), PoolAlloc 3000 None, PoolAlloc 4000 None,
     PoolAlloc 4000 (Some 60000), PoolRealloc 10056 200 (Some 70000), PoolFree 50024, PoolRealloc 13208 4060 (Some 80000)]"

lemma demo_pool_ok: "pool_run_ok 24 32 demo_pool_ops demo_pool"
  by code_simp

lemma demo_pool_created:
  "\<exists>h1. AwPoolCreate 32 20 28 1000 [1020 \<mapsto> \<lparr>ln_next = 1020, ln_prev = 1020\<rparr>] (Some 2000) (Some 10000) True =
     Ok (PoolTree 2000 demo_pool [], h1, [Alloc 2000, Alloc 10000])"
  by (simp add: AwPoolCreate_def PoolNodeCreate_def demo_pool_def CdxListAdd_def list_add_def get_node_def set_next_def
    set_prev_def CdxListInit_def)


text \<open>Memory in use lies in one of the extents the pool owns.\<close>

lemma pool_mem_root:
  assumes z: "sizes_ok hs ds" and i: "pool_inv hs ds p" and m: "p_mems p m = Some x"
  obtains (large) "m \<in> set (p_largeList p)" "extent hs p m = hs + pm_size x"
  | (block) b d where "b \<in> set (p_pdList p)" "p_blocks p b = Some d" "m \<in> set (pd_pmList d)" "b + ds \<le> m"
      "m + hs + pm_size x \<le> b + extent hs p b" "extent hs p b = 8192" "hs + pm_size x \<le> mem_room hs (p_mems p) m"
  using z i m
proof (cases rule: pool_inv_mem)
  case l: large
  then have "m \<notin> set (p_pdList p)" using pool_invD(1) [OF i] by auto
  then show ?thesis using l(1) m by (intro large) (simp_all add: extent_def)
next
  case b: (block d)
  then have "pm_owner x \<in> set (p_pdList p)" using pool_invD(2) [OF i] by auto
  then show ?thesis using b by (intro block [of "pm_owner x" d]) (simp_all add: extent_def)
qed

lemma pool_mems_apart:
  assumes z: "sizes_ok hs ds" and i: "pool_inv hs ds p" and m: "p_mems p m = Some x" "p_mems p m' = Some x'" "m \<noteq> m'"
  shows "m + hs + pm_size x \<le> m' \<or> m' + hs + pm_size x' \<le> m"
proof -
  note ap = apartD [OF pool_invD(6) [OF i]]
  have ds: "0 < ds" using z by (simp add: sizes_ok_def)
  have ne: "u \<noteq> v" if "u \<in> set (p_largeList p)" "v \<in> set (p_pdList p)" for u v using pool_invD(1) [OF i] that by auto
  from z i m(1) show ?thesis
  proof (cases rule: pool_mem_root)
    case l: large
    from z i m(2) show ?thesis
    proof (cases rule: pool_mem_root)
      case large
      then show ?thesis using ap [of m m'] l m(3) by auto
    next
      case (block b d)
      then show ?thesis using ap [of m b] ne [OF l(1) block(1)] l ds by auto
    qed
  next
    case k: (block b d)
    from z i m(2) show ?thesis
    proof (cases rule: pool_mem_root)
      case large
      then show ?thesis using ap [of m' b] ne [OF large(1) k(1)] k ds by auto
    next
      case (block c e)
      show ?thesis
      proof (cases "c = b")
        case True
        then have "e = d" using k(2) block(2) by simp
        then show ?thesis using block_ok_mem(4) [OF z pool_invD(4) [OF i k(2)] k(3), of m'] block k m(3) by auto
      next
        case False
        then show ?thesis using ap [of b c] k block ds by auto
      qed
    qed
  qed
qed

text \<open>C13. In every state a pool reaches by requests as in the life of a pool above (none in the gap below 4095 bytes,
  no failure of \<open>malloc\<close> in a small reallocation), the pieces of memory in use do not overlap, their headers included, and
  each lies in a block that the pool has not freed, behind its header, or is large memory of its own.\<close>

theorem pool_memory_disjoint:
  assumes z: "sizes_ok hs ds" and c: "PoolNodeCreate ds (Some q) (Some b) True = (Some (q, p0), es0)" "0 < b"
    and r: "pool_run_ok hs ds ops p0" "pool_run hs ds ops p0 = Ok (p, es)"
    and m: "p_mems p m = Some x" "p_mems p m' = Some x'" "m \<noteq> m'"
  shows "(m + hs + pm_size x \<le> m' \<or> m' + hs + pm_size x' \<le> m) \<and>
    (m \<in> set (p_largeList p) \<or> (\<exists>b d. p_blocks p b = Some d \<and> b + ds \<le> m \<and> m + hs + pm_size x \<le> b + 8192))"
proof -
  have "pool_inv hs ds p0" using PoolNodeCreate_inv(1) [OF c(1) z] c(2) by auto
  then have i: "pool_inv hs ds p" using pool_run_inv [OF z _ r(1)] r(2) by auto
  from z i m(1) have "m \<in> set (p_largeList p) \<or> (\<exists>b d. p_blocks p b = Some d \<and> b + ds \<le> m \<and> m + hs + pm_size x \<le> b + 8192)"
    by (cases rule: pool_mem_root) auto
  then show ?thesis using pool_mems_apart [OF z i m] by blast
qed

lemma demo_pool_mems:
  "\<exists>p es. pool_run 24 32 demo_pool_ops demo_pool = Ok (p, es) \<and> p_mems p 17208 = Some \<lparr>pm_owner = 10000, pm_size = 200\<rparr> \<and>
     p_mems p 10160 = Some \<lparr>pm_owner = 10000, pm_size = 3000\<rparr>"
proof -
  have "(case pool_run 24 32 demo_pool_ops demo_pool of
      Ok (p, es) \<Rightarrow> p_mems p 17208 = Some \<lparr>pm_owner = 10000, pm_size = 200\<rparr> \<and>
        p_mems p 10160 = Some \<lparr>pm_owner = 10000, pm_size = 3000\<rparr> | _ \<Rightarrow> False)" by code_simp
  then show ?thesis by (auto split: exec.splits)
qed

theorem pool_memory_disjoint_witness:
  "\<exists>p es. pool_run 24 32 demo_pool_ops demo_pool = Ok (p, es) \<and> (17208 + 24 + 200 \<le> (10160 :: int) \<or> 10160 + 24 + 3000 \<le> (17208 :: int)) \<and>
     (17208 \<in> set (p_largeList p) \<or> (\<exists>b d. p_blocks p b = Some d \<and> b + 32 \<le> 17208 \<and> 17208 + 24 + 200 \<le> b + 8192))"
proof -
  obtain p es where p: "pool_run 24 32 demo_pool_ops demo_pool = Ok (p, es)"
    "p_mems p 17208 = Some \<lparr>pm_owner = 10000, pm_size = 200\<rparr>" "p_mems p 10160 = Some \<lparr>pm_owner = 10000, pm_size = 3000\<rparr>"
    using demo_pool_mems by blast
  have "PoolNodeCreate 32 (Some 2000) (Some 10000) True = (Some (2000, demo_pool), [Alloc 2000, Alloc 10000])"
    by (simp add: PoolNodeCreate_def demo_pool_def)
  from pool_memory_disjoint [OF _ this _ demo_pool_ok p] show ?thesis using p(1) by (auto simp: sizes_ok_def)
qed

text \<open>C38. Memory of a size just below 4095 cannot be given back: with its header it does not fit the
  small memory, so it is allocated as large memory without an owner, but \<open>AwPfree\<close> compares the size without the header
  and releases a reference of the owner, a \<open>NULL\<close> pointer.\<close>

theorem pool_mid_size_free_faults:
  assumes "0 < hs" "hs \<le> 64" "0 < n" "n \<le> 4095" "4095 < AwAlign (hs + n) 8" "p_blocks p 0 = None"
  shows "\<exists>p' es. AwPalloc hs ds p n (Some a) = Ok (a + hs, p', es) \<and> AwPfree hs p' (a + hs) = Fault"
proof -
  have "i32 (AwAlign (hs + n) 8) = AwAlign (hs + n) 8"
    using AwAlign_bounds [of "hs + n"] assms by (intro i32_id) (auto simp: int32_range_def)
  then show ?thesis using assms
    by (simp add: AwPalloc_def PallocLarge_def AwPfree_def Let_def PoolDataDecRef_def unlink_mem_def unlinked_def)
qed

theorem pool_mid_size_free_faults_witness:
  "\<exists>p' es. AwPalloc 24 32 demo_pool 4090 (Some 50000) = Ok (50024, p', es) \<and> AwPfree 24 p' 50024 = Fault"
  using pool_mid_size_free_faults [of 24 4090 demo_pool 32 50000] by (simp add: AwAlign_eight demo_pool_def)

text \<open>C39. A pool with a child cannot be destroyed: the loop over the children deletes the node of the child, and
  the destruction of the child deletes it again, through the poison pointers the first deletion left.\<close>

theorem pool_destroy_child_faults:
  assumes "dlist h (self + cl) ((c + nd) # xs)" "CDX_LIST_POISON1 \<notin> dom h" "c \<noteq> g"
  shows "AwPoolDestroy nd g (PoolTree self p (PoolTree c q [] # cs)) h = Fault"
proof -
  obtain h1 where h1: "CdxListDel (c + nd) h = Ok h1"
    using CdxListDel_dlist [of h "self + cl" "[]" "c + nd" xs] assms(1) by auto
  have "CdxListDel (c + nd) h1 = Fault"
    using CdxListDel_twice [of h "self + cl" "[]" "c + nd" xs h1] assms(1,2) h1 by simp
  then show ?thesis using h1 assms(3) by simp
qed

theorem pool_destroy_child_faults_witness:
  "AwPoolDestroy 28 0 (PoolTree 1000 demo_pool [PoolTree 2000 demo_pool []])
     [1020 \<mapsto> \<lparr>ln_next = 2028, ln_prev = 2028\<rparr>, 2028 \<mapsto> \<lparr>ln_next = 1020, ln_prev = 1020\<rparr>] = Fault"
  by (rule pool_destroy_child_faults [where cl = 20 and xs = "[]"]) (simp_all add: dlist_def l_nx_def l_pv_def)

end
