(* ===== verification/Cdx_Buffer.thy ===== *)
theory Cdx_Buffer
  imports Aw_Pool
begin

text \<open>
  The growing byte buffers of the player library, \<open>libcore/base/CdxBuffer.c\<close>, which the transport stream
  parser collects its packets in. A buffer owns a piece of memory of a pool; a range of it is the contents. Data can be
  put behind and in front of the contents, and the range can be moved. The calls of the pool and the
  size of the memory at a pointer are arguments of the definitions, so that the locale \<open>byte_pool\<close> can
  state what a buffer relies on; it is interpreted on the pools of \<open>Aw_Pool\<close>. Numbers of type \<open>cdx_uint32\<close> are
  integers wrapped by \<open>u32\<close>. Reading or writing outside the memory of the buffer is a fault, \<open>None\<close> stands for
  a call that does not return. The checks \<open>CDX_CHECK\<close> and \<open>CDX_FORCE_CHECK\<close>, which release builds leave out, are not
  modelled.
\<close>

section \<open>Memory\<close>

type_synonym memory = "addr \<Rightarrow> 8 word"

definition mem_read :: "memory \<Rightarrow> addr \<Rightarrow> nat \<Rightarrow> 8 word list" where
  "mem_read mm a n = map (\<lambda>i. mm (a + int i)) [0..<n]"

definition mem_write :: "memory \<Rightarrow> addr \<Rightarrow> 8 word list \<Rightarrow> memory" where
  "mem_write mm x d = (\<lambda>a. if x \<le> a \<and> a < x + int (length d) then d ! nat (a - x) else mm a)"

lemma length_mem_read [simp]: "length (mem_read mm a n) = n"
  by (simp add: mem_read_def)

lemma mem_read_write_same: "mem_read (mem_write mm a d) a (length d) = d"
  by (rule nth_equalityI) (simp_all add: mem_read_def mem_write_def)

lemma mem_read_write_apart:
  "a + int n \<le> x \<or> x + int (length d) \<le> a \<Longrightarrow> mem_read (mem_write mm x d) a n = mem_read mm a n"
  by (auto simp: mem_read_def mem_write_def)

lemma mem_read_append: "mem_read mm a (n + k) = mem_read mm a n @ mem_read mm (a + int n) k"
  by (rule nth_equalityI) (auto simp: mem_read_def nth_append)

lemma mem_read_slice: "i + n \<le> k \<Longrightarrow> mem_read mm (a + int i) n = take n (drop i (mem_read mm a k))"
  by (rule nth_equalityI) (auto simp: mem_read_def algebra_simps)

section \<open>Data and operations\<close>

definition u32 :: "int \<Rightarrow> int" where
  "u32 x = x mod 4294967296"

lemma u32_id: "0 \<le> x \<Longrightarrow> x < 4294967296 \<Longrightarrow> u32 x = x"
  by (simp add: u32_def)

record 's CdxBuffer =
  cb_pool :: 's
  cb_mem :: memory
  cb_mData :: addr
  cb_mCapacity :: int
  cb_mRangeOffset :: int
  cb_mRangeLen :: int

text \<open>The loop of \<open>Align2Power\<close>.\<close>

partial_function (option) align_loop :: "int \<Rightarrow> int \<Rightarrow> int option" where
  "align_loop ret val = (if ret < val then align_loop (u32 (ret * 4)) val else Some ret)"

declare align_loop.simps [code]

definition Align2Power :: "int \<Rightarrow> int option" where
  "Align2Power val = align_loop 1024 val"

text \<open>\<open>memcpy\<close> to and from the memory at \<open>base\<close>, at an offset.\<close>

definition buf_write ::
  "('s \<Rightarrow> addr \<Rightarrow> int option) \<Rightarrow> addr \<Rightarrow> int \<Rightarrow> 8 word list \<Rightarrow> 's CdxBuffer \<Rightarrow> 's CdxBuffer exec" where
  "buf_write msize base off d b =
     (if d = [] then Ok b
      else case msize (cb_pool b) base of
        None \<Rightarrow> Fault
      | Some k \<Rightarrow> if off + int (length d) \<le> k then Ok (b\<lparr>cb_mem := mem_write (cb_mem b) (base + off) d\<rparr>) else Fault)"

definition buf_read ::
  "('s \<Rightarrow> addr \<Rightarrow> int option) \<Rightarrow> addr \<Rightarrow> int \<Rightarrow> int \<Rightarrow> 's CdxBuffer \<Rightarrow> 8 word list exec" where
  "buf_read msize base off n b =
     (if n = 0 then Ok []
      else case msize (cb_pool b) base of
        None \<Rightarrow> Fault
      | Some k \<Rightarrow> if off + n \<le> k then Ok (mem_read (cb_mem b) (base + off) (nat n)) else Fault)"

definition onWrite ::
  "('s \<Rightarrow> addr \<Rightarrow> int option) \<Rightarrow> ('s \<Rightarrow> memory \<Rightarrow> addr \<Rightarrow> int \<Rightarrow> addr option \<Rightarrow> (addr \<times> 's \<times> memory) exec)
     \<Rightarrow> int \<Rightarrow> 8 word list \<Rightarrow> addr option \<Rightarrow> 's CdxBuffer \<Rightarrow> 's CdxBuffer exec option" where
  "onWrite msize prealloc off d m b =
     (let need = u32 (off + int (length d))
      in if cb_mCapacity b < need
         then map_option (\<lambda>c.
                ebind (prealloc (cb_pool b) (cb_mem b) (cb_mData b) (i32 c) m) (\<lambda>(q, s, mm).
                buf_write msize q off d (b\<lparr>cb_mCapacity := c, cb_pool := s, cb_mem := mm, cb_mData := q\<rparr>)))
              (Align2Power need)
         else Some (buf_write msize (cb_mData b) off d b))"

definition onSetRange :: "int \<Rightarrow> int \<Rightarrow> 's CdxBuffer \<Rightarrow> 's CdxBuffer" where
  "onSetRange off len b = b\<lparr>cb_mRangeOffset := off, cb_mRangeLen := len\<rparr>"

definition CdxBufferGetData :: "'s CdxBuffer \<Rightarrow> addr" where
  "CdxBufferGetData b = cb_mData b + cb_mRangeOffset b"

definition CdxBufferGetBase :: "'s CdxBuffer \<Rightarrow> addr" where
  "CdxBufferGetBase b = cb_mData b"

definition CdxBufferGetSize :: "'s CdxBuffer \<Rightarrow> int" where
  "CdxBufferGetSize b = cb_mRangeLen b"

definition CdxBufferSetRange :: "int \<Rightarrow> int \<Rightarrow> 's CdxBuffer \<Rightarrow> 's CdxBuffer" where
  "CdxBufferSetRange off len b = onSetRange off len b"

definition CdxBufferSeekRange :: "int \<Rightarrow> int \<Rightarrow> 's CdxBuffer \<Rightarrow> 's CdxBuffer" where
  "CdxBufferSeekRange left right b =
     b\<lparr>cb_mRangeOffset := u32 (cb_mRangeOffset b + left), cb_mRangeLen := u32 (cb_mRangeLen b + (right - left))\<rparr>"

definition CdxBufferAppend ::
  "('s \<Rightarrow> addr \<Rightarrow> int option) \<Rightarrow> ('s \<Rightarrow> memory \<Rightarrow> addr \<Rightarrow> int \<Rightarrow> addr option \<Rightarrow> (addr \<times> 's \<times> memory) exec)
     \<Rightarrow> 8 word list \<Rightarrow> addr option \<Rightarrow> 's CdxBuffer \<Rightarrow> 's CdxBuffer exec option" where
  "CdxBufferAppend msize prealloc d m b =
     map_option (\<lambda>r. ebind r (\<lambda>b1.
         Ok (onSetRange (cb_mRangeOffset b1) (u32 (cb_mRangeLen b1 + int (length d))) b1)))
       (onWrite msize prealloc (u32 (cb_mRangeOffset b + cb_mRangeLen b)) d m b)"

definition insert_move :: "('s \<Rightarrow> addr \<Rightarrow> int option) \<Rightarrow> 8 word list \<Rightarrow> 's CdxBuffer \<Rightarrow> 's CdxBuffer exec" where
  "insert_move msize d b =
     ebind (buf_read msize (cb_mData b) (cb_mRangeOffset b) (cb_mRangeLen b) b) (\<lambda>old.
     ebind (buf_write msize (cb_mData b) (int (length d)) old b) (\<lambda>b1.
     ebind (buf_write msize (cb_mData b) 0 d b1) (\<lambda>b2.
     Ok (b2\<lparr>cb_mRangeOffset := 0, cb_mRangeLen := u32 (cb_mRangeLen b2 + int (length d))\<rparr>))))"

definition insert_grow ::
  "('s \<Rightarrow> addr \<Rightarrow> int option) \<Rightarrow> ('s \<Rightarrow> int \<Rightarrow> addr option \<Rightarrow> (addr \<times> 's) exec) \<Rightarrow> ('s \<Rightarrow> addr \<Rightarrow> 's exec)
     \<Rightarrow> 8 word list \<Rightarrow> addr option \<Rightarrow> 's CdxBuffer \<Rightarrow> int \<Rightarrow> 's CdxBuffer exec" where
  "insert_grow msize palloc pfree d m b c =
     ebind (palloc (cb_pool b) (i32 c) m) (\<lambda>(q, s).
     ebind (buf_write msize q 0 d (b\<lparr>cb_mCapacity := c, cb_pool := s\<rparr>)) (\<lambda>b1.
     ebind (buf_read msize (cb_mData b) (cb_mRangeOffset b) (cb_mRangeLen b) b1) (\<lambda>old.
     ebind (buf_write msize q (int (length d)) old b1) (\<lambda>b2.
     ebind (pfree (cb_pool b2) (cb_mData b)) (\<lambda>s2.
     Ok (b2\<lparr>cb_pool := s2, cb_mData := q, cb_mRangeOffset := 0,
            cb_mRangeLen := u32 (cb_mRangeLen b2 + int (length d))\<rparr>))))))"

definition CdxBufferInsert ::
  "('s \<Rightarrow> addr \<Rightarrow> int option) \<Rightarrow> ('s \<Rightarrow> int \<Rightarrow> addr option \<Rightarrow> (addr \<times> 's) exec) \<Rightarrow> ('s \<Rightarrow> addr \<Rightarrow> 's exec)
     \<Rightarrow> 8 word list \<Rightarrow> addr option \<Rightarrow> 's CdxBuffer \<Rightarrow> 's CdxBuffer exec option" where
  "CdxBufferInsert msize palloc pfree d m b =
     (let len = int (length d) in
      if len \<le> cb_mRangeOffset b
      then (let b1 = b\<lparr>cb_mRangeOffset := cb_mRangeOffset b - len, cb_mRangeLen := u32 (cb_mRangeLen b + len)\<rparr>
            in Some (buf_write msize (cb_mData b) (cb_mRangeOffset b1) d b1))
      else if u32 (cb_mRangeLen b + len) \<le> cb_mCapacity b then Some (insert_move msize d b)
      else map_option (insert_grow msize palloc pfree d m b) (Align2Power (u32 (cb_mRangeLen b + len))))"

section \<open>The capacity\<close>

lemma align_loop_ends:
  assumes "i \<le> 10" "val \<le> 1073741824"
  shows "\<exists>j \<le> 10. align_loop (1024 * 4 ^ (10 - i)) val = Some (1024 * 4 ^ j) \<and> val \<le> 1024 * 4 ^ j"
  using assms(1)
proof (induction i)
  case 0
  then show ?case using assms(2) by (intro exI [of _ 10]) (simp add: align_loop.simps)
next
  case (Suc i)
  show ?case
  proof (cases "1024 * 4 ^ (10 - Suc i) < val")
    case True
    have "(4 :: int) ^ (10 - i) = 4 * 4 ^ (10 - Suc i)" using Suc.prems by (simp add: Suc_diff_Suc flip: power_Suc)
    moreover have "(4 :: int) ^ (10 - i) \<le> 4 ^ 10" by (rule power_increasing) auto
    ultimately have "u32 (1024 * 4 ^ (10 - Suc i) * 4) = 1024 * 4 ^ (10 - i)" by (subst u32_id) auto
    then show ?thesis using Suc True by (subst align_loop.simps) simp
  next
    case False
    then have "align_loop (1024 * 4 ^ (10 - Suc i)) val = Some (1024 * 4 ^ (10 - Suc i))"
      by (subst align_loop.simps) simp
    then show ?thesis using False by (intro exI [of _ "10 - Suc i"]) simp
  qed
qed

lemma Align2Power_ok:
  assumes "val \<le> 1073741824"
  obtains c where "Align2Power val = Some c" "val \<le> c" "c = 1024 \<or> 4096 \<le> c" "c \<le> 1073741824" "i32 c = c"
proof -
  obtain j where j: "j \<le> 10" "Align2Power val = Some (1024 * 4 ^ j)" "val \<le> 1024 * 4 ^ j"
    using align_loop_ends [of 10 val] assms by (auto simp: Align2Power_def)
  have "(4 :: int) ^ j \<le> 4 ^ 10" using j(1) by (intro power_increasing) auto
  then have c: "1024 * 4 ^ j \<le> (1073741824 :: int)" by simp
  have "j = 0 \<or> (4 :: int) ^ 1 \<le> 4 ^ j" by (cases "j = 0") (auto intro!: self_le_power)
  then have "1024 * 4 ^ j = (1024 :: int) \<or> 4096 \<le> 1024 * (4 :: int) ^ j" by auto
  moreover have "(0 :: int) \<le> 1024 * 4 ^ j" by simp
  then have "i32 (1024 * 4 ^ j) = 1024 * 4 ^ j" using c by (intro i32_id) (unfold int32_range_def, linarith)
  ultimately show ?thesis using that [OF j(2,3)] c by blast
qed

text \<open>The values of \<open>ret\<close> in the loop: powers up to 2^30, then 0.\<close>

definition align_values :: "int set" where
  "align_values = insert 0 ((\<lambda>j. 1024 * 4 ^ j) ` {..10})"

lemma align_values_step:
  assumes "ret \<in> align_values"
  shows "u32 (ret * 4) \<in> align_values" "ret \<le> 1073741824"
proof -
  have "u32 (ret * 4) \<in> align_values \<and> ret \<le> 1073741824"
  proof (cases "ret = 0")
    case False
    then obtain j where j: "ret = 1024 * 4 ^ j" "j \<le> 10" using assms by (auto simp: align_values_def)
    show ?thesis
    proof (cases "j = 10")
      case True
      then show ?thesis by (simp add: j u32_def align_values_def)
    next
      case False
      then have "(4 :: int) ^ Suc j \<le> 4 ^ 10" using j(2) by (intro power_increasing) auto
      then have "u32 (ret * 4) = 1024 * 4 ^ Suc j" "ret \<le> 1073741824" by (auto simp: j u32_id)
      then show ?thesis using False j(2) unfolding align_values_def by (metis Suc_leI atMost_iff image_eqI insertI2 le_neq_implies_less)
    qed
  qed (simp add: u32_def align_values_def)
  then show "u32 (ret * 4) \<in> align_values" "ret \<le> 1073741824" by auto
qed

lemma Align2Power_hangs:
  assumes "1073741824 < val"
  shows "Align2Power val = None"
proof (rule ccontr)
  assume "Align2Power val \<noteq> None"
  then obtain r where r: "align_loop 1024 val = Some r" by (auto simp: Align2Power_def)
  have "ret \<in> align_values \<longrightarrow> v \<noteq> val" if "align_loop ret v = Some r" for ret v
  proof (rule align_loop.raw_induct [of "\<lambda>ret v r. ret \<in> align_values \<longrightarrow> v \<noteq> val" ret v r])
    show "align_loop ret v = Some r" by (rule that)
  qed (use assms align_values_step in \<open>(fastforce split: if_splits)[1]\<close>)
  moreover have "1024 \<in> align_values" by (auto simp: align_values_def intro!: image_eqI [of _ _ 0])
  ultimately show False using r by blast
qed

section \<open>What a buffer relies on\<close>

text \<open>A pool of bytes: \<open>msize s ptr\<close> is the size of the memory at \<open>ptr\<close>, if it is in use, and \<open>granted s n m\<close> says
  that a request for \<open>n\<close> bytes can be served.\<close>

locale byte_pool =
  fixes pinv :: "'s \<Rightarrow> bool"
    and msize :: "'s \<Rightarrow> addr \<Rightarrow> int option"
    and granted :: "'s \<Rightarrow> int \<Rightarrow> addr option \<Rightarrow> bool"
    and palloc :: "'s \<Rightarrow> int \<Rightarrow> addr option \<Rightarrow> (addr \<times> 's) exec"
    and prealloc :: "'s \<Rightarrow> memory \<Rightarrow> addr \<Rightarrow> int \<Rightarrow> addr option \<Rightarrow> (addr \<times> 's \<times> memory) exec"
    and pfree :: "'s \<Rightarrow> addr \<Rightarrow> 's exec"
  assumes alloc_law: "pinv s \<Longrightarrow> granted s n m \<Longrightarrow> \<exists>q s1. palloc s n m = Ok (q, s1) \<and> pinv s1 \<and> msize s1 q = Some n \<and>
      (\<forall>p k. msize s p = Some k \<longrightarrow> p \<noteq> q \<and> msize s1 p = Some k \<and> (q + n \<le> p \<or> p + k \<le> q))"
    and realloc_law: "pinv s \<Longrightarrow> granted s n m \<Longrightarrow> msize s p = Some k \<Longrightarrow> k < n \<Longrightarrow>
      \<exists>q s1 mm1. prealloc s mm p n m = Ok (q, s1, mm1) \<and> pinv s1 \<and> msize s1 q = Some n \<and>
        mem_read mm1 q (nat k) = mem_read mm p (nat k)"
    and free_law: "pinv s \<Longrightarrow> msize s p = Some k \<Longrightarrow> \<exists>s1. pfree s p = Ok s1 \<and> pinv s1 \<and> msize s1 = (msize s)(p := None)"

text \<open>The contents of a buffer, and when a buffer is well formed.\<close>

definition buf_data :: "'s CdxBuffer \<Rightarrow> 8 word list" where
  "buf_data b = mem_read (cb_mem b) (CdxBufferGetData b) (nat (CdxBufferGetSize b))"

definition buf_ok :: "('s \<Rightarrow> bool) \<Rightarrow> ('s \<Rightarrow> addr \<Rightarrow> int option) \<Rightarrow> 's CdxBuffer \<Rightarrow> bool" where
  "buf_ok pinv msize b \<longleftrightarrow> pinv (cb_pool b) \<and> msize (cb_pool b) (cb_mData b) = Some (cb_mCapacity b) \<and>
     0 \<le> cb_mRangeOffset b \<and> 0 \<le> cb_mRangeLen b \<and> cb_mRangeOffset b + cb_mRangeLen b \<le> cb_mCapacity b \<and>
     cb_mCapacity b \<le> 1073741824"

datatype buf_op = BufAppend "8 word list" "addr option" | BufInsert "8 word list" "addr option"
  | BufSetRange int int | BufSeekRange int int

fun buf_call ::
  "('s \<Rightarrow> addr \<Rightarrow> int option) \<Rightarrow> ('s \<Rightarrow> int \<Rightarrow> addr option \<Rightarrow> (addr \<times> 's) exec) \<Rightarrow>
     ('s \<Rightarrow> memory \<Rightarrow> addr \<Rightarrow> int \<Rightarrow> addr option \<Rightarrow> (addr \<times> 's \<times> memory) exec) \<Rightarrow> ('s \<Rightarrow> addr \<Rightarrow> 's exec) \<Rightarrow>
     buf_op \<Rightarrow> 's CdxBuffer \<Rightarrow> 's CdxBuffer exec option" where
  "buf_call msize palloc prealloc pfree (BufAppend d m) b = CdxBufferAppend msize prealloc d m b"
| "buf_call msize palloc prealloc pfree (BufInsert d m) b = CdxBufferInsert msize palloc pfree d m b"
| "buf_call msize palloc prealloc pfree (BufSetRange x l) b = Some (Ok (CdxBufferSetRange x l b))"
| "buf_call msize palloc prealloc pfree (BufSeekRange l r) b = Some (Ok (CdxBufferSeekRange l r b))"

text \<open>What the call does to the contents \<open>xs\<close>, of which the first byte is at offset \<open>off\<close>.\<close>

fun buf_spec :: "buf_op \<Rightarrow> int \<Rightarrow> 8 word list \<Rightarrow> 8 word list" where
  "buf_spec (BufAppend d m) off xs = xs @ d"
| "buf_spec (BufInsert d m) off xs = d @ xs"
| "buf_spec (BufSetRange x l) off xs = take (nat l) (drop (nat (x - off)) xs)"
| "buf_spec (BufSeekRange l r) off xs = take (length xs - nat l - nat (- r)) (drop (nat l) xs)"

text \<open>Which calls a client may make: the data is at most 1 GB, a pool that must grow the memory can, and the new range
  lies in the old one or is empty.\<close>

fun buf_call_ok :: "('s \<Rightarrow> int \<Rightarrow> addr option \<Rightarrow> bool) \<Rightarrow> buf_op \<Rightarrow> 's CdxBuffer \<Rightarrow> bool" where
  "buf_call_ok granted (BufAppend d m) b \<longleftrightarrow>
     (let need = cb_mRangeOffset b + cb_mRangeLen b + int (length d)
      in need \<le> 1073741824 \<and> (cb_mCapacity b < need \<longrightarrow> granted (cb_pool b) (the (Align2Power need)) m))"
| "buf_call_ok granted (BufInsert d m) b \<longleftrightarrow>
     (let need = cb_mRangeLen b + int (length d)
      in need \<le> 1073741824 \<and> (cb_mCapacity b < need \<longrightarrow> granted (cb_pool b) (the (Align2Power need)) m))"
| "buf_call_ok granted (BufSetRange x l) b \<longleftrightarrow> 0 \<le> l \<and>
     (if l = 0 then 0 \<le> x \<and> x \<le> cb_mCapacity b
      else cb_mRangeOffset b \<le> x \<and> x + l \<le> cb_mRangeOffset b + cb_mRangeLen b)"
| "buf_call_ok granted (BufSeekRange l r) b \<longleftrightarrow> 0 \<le> l \<and> r \<le> 0 \<and> l - r \<le> cb_mRangeLen b"

section \<open>Edits of a buffer\<close>

definition edit_ok ::
  "('s \<Rightarrow> bool) \<Rightarrow> ('s \<Rightarrow> addr \<Rightarrow> int option) \<Rightarrow> 8 word list \<Rightarrow> 's CdxBuffer exec option \<Rightarrow> bool" where
  "edit_ok pinv msize xs r \<longleftrightarrow> (\<exists>b1. r = Some (Ok b1) \<and> buf_ok pinv msize b1 \<and> buf_data b1 = xs)"

lemma buf_write_ok:
  assumes "msize (cb_pool b) base = Some k" "off + int (length d) \<le> k"
  shows "\<exists>mm. buf_write msize base off d b = Ok (b\<lparr>cb_mem := mm\<rparr>) \<and> mem_read mm (base + off) (length d) = d \<and>
    (\<forall>a n. a + int n \<le> base + off \<or> base + off + int (length d) \<le> a \<longrightarrow> mem_read mm a n = mem_read (cb_mem b) a n)"
proof (cases "d = []")
  case True
  then show ?thesis by (intro exI [of _ "cb_mem b"]) (simp add: buf_write_def mem_read_def)
next
  case False
  then show ?thesis using assms
    by (intro exI [of _ "mem_write (cb_mem b) (base + off) d"])
      (simp add: buf_write_def mem_read_write_same mem_read_write_apart)
qed

lemma buf_read_ok:
  assumes "msize (cb_pool b) base = Some k" "0 \<le> n" "off + n \<le> k"
  shows "buf_read msize base off n b = Ok (mem_read (cb_mem b) (base + off) (nat n))"
  using assms by (simp add: buf_read_def mem_read_def)

lemma buf_data_length: "0 \<le> cb_mRangeLen b \<Longrightarrow> length (buf_data b) = nat (cb_mRangeLen b)"
  by (simp add: buf_data_def CdxBufferGetSize_def)

lemma SetRange_ok:
  assumes "buf_ok pinv msize b" "buf_call_ok granted (BufSetRange x l) b"
  shows "edit_ok pinv msize (buf_spec (BufSetRange x l) (cb_mRangeOffset b) (buf_data b)) (Some (Ok (CdxBufferSetRange x l b)))"
proof -
  have "buf_data (CdxBufferSetRange x l b) = take (nat l) (drop (nat (x - cb_mRangeOffset b)) (buf_data b))"
  proof (cases "l = 0")
    case True
    then show ?thesis by (simp add: buf_data_def CdxBufferGetSize_def CdxBufferSetRange_def onSetRange_def mem_read_def)
  next
    case False
    then have x: "cb_mRangeOffset b \<le> x" "x + l \<le> cb_mRangeOffset b + cb_mRangeLen b" "0 \<le> l" using assms(2) by auto
    have "mem_read (cb_mem b) (cb_mData b + cb_mRangeOffset b + int (nat (x - cb_mRangeOffset b))) (nat l) =
        take (nat l) (drop (nat (x - cb_mRangeOffset b)) (buf_data b))"
      unfolding buf_data_def CdxBufferGetData_def CdxBufferGetSize_def by (rule mem_read_slice) (use x in linarith)
    then show ?thesis using x
      by (simp add: buf_data_def CdxBufferGetData_def CdxBufferGetSize_def CdxBufferSetRange_def onSetRange_def)
  qed
  moreover have "buf_ok pinv msize (CdxBufferSetRange x l b)"
    using assms by (auto simp: buf_ok_def CdxBufferSetRange_def onSetRange_def split: if_splits)
  ultimately show ?thesis by (simp add: edit_ok_def)
qed

text \<open>Moving the ends of the range inwards sets the range.\<close>

lemma SeekRange_ok:
  assumes ok: "buf_ok pinv msize b" and c: "buf_call_ok granted (BufSeekRange l r) b"
  shows "edit_ok pinv msize (buf_spec (BufSeekRange l r) (cb_mRangeOffset b) (buf_data b)) (Some (Ok (CdxBufferSeekRange l r b)))"
proof -
  have lr: "0 \<le> l" "r \<le> 0" "l - r \<le> cb_mRangeLen b" using c by auto
  let ?x = "cb_mRangeOffset b + l" and ?n = "cb_mRangeLen b + (r - l)"
  have "CdxBufferSeekRange l r b = CdxBufferSetRange ?x ?n b"
    using ok lr by (simp add: buf_ok_def CdxBufferSeekRange_def CdxBufferSetRange_def onSetRange_def u32_id)
  moreover have cok: "buf_call_ok granted (BufSetRange ?x ?n) b" using ok lr by (auto simp: buf_ok_def)
  moreover have "nat ?n = length (buf_data b) - nat l - nat (- r)"
    using ok lr buf_data_length [of b] by (simp add: buf_ok_def nat_diff_distrib nat_add_distrib)
  ultimately show ?thesis using SetRange_ok [OF ok cok] by simp
qed

context byte_pool
begin

lemma onWrite_ok:
  assumes ok: "buf_ok pinv msize b" and off: "off = cb_mRangeOffset b + cb_mRangeLen b"
    and d: "off + int (length d) \<le> 1073741824"
    and g: "cb_mCapacity b < off + int (length d) \<Longrightarrow> granted (cb_pool b) (the (Align2Power (off + int (length d)))) m"
  shows "\<exists>b1. onWrite msize prealloc off d m b = Some (Ok b1) \<and> buf_ok pinv msize b1 \<and> off + int (length d) \<le> cb_mCapacity b1 \<and>
    cb_mRangeOffset b1 = cb_mRangeOffset b \<and> cb_mRangeLen b1 = cb_mRangeLen b \<and> buf_data b1 = buf_data b \<and>
    mem_read (cb_mem b1) (cb_mData b1 + off) (length d) = d"
proof -
  let ?need = "off + int (length d)"
  have o: "pinv (cb_pool b)" "msize (cb_pool b) (cb_mData b) = Some (cb_mCapacity b)" "0 \<le> cb_mRangeOffset b" "0 \<le> cb_mRangeLen b"
    "cb_mRangeOffset b + cb_mRangeLen b \<le> cb_mCapacity b" "cb_mCapacity b \<le> 1073741824"
    using ok by (auto simp: buf_ok_def)
  have u: "u32 ?need = ?need" using o off d by (intro u32_id) auto
  have fin: "buf_data (c\<lparr>cb_mem := mm\<rparr>) = buf_data c"
    if "\<forall>a n. a + int n \<le> cb_mData c + off \<or> cb_mData c + off + int (length d) \<le> a \<longrightarrow> mem_read mm a n = mem_read (cb_mem c) a n"
      "cb_mRangeOffset c = cb_mRangeOffset b" "cb_mRangeLen c = cb_mRangeLen b" for c :: "'s CdxBuffer" and mm
    using that(1) [rule_format, of "CdxBufferGetData c" "nat (cb_mRangeLen c)"] that(2,3) o(4) off
    by (simp add: buf_data_def CdxBufferGetData_def CdxBufferGetSize_def)
  show ?thesis
  proof (cases "cb_mCapacity b < ?need")
    case False
    obtain mm where mm: "buf_write msize (cb_mData b) off d b = Ok (b\<lparr>cb_mem := mm\<rparr>)"
      "mem_read mm (cb_mData b + off) (length d) = d"
      "\<forall>a n. a + int n \<le> cb_mData b + off \<or> cb_mData b + off + int (length d) \<le> a \<longrightarrow> mem_read mm a n = mem_read (cb_mem b) a n"
      using buf_write_ok [of msize b "cb_mData b" "cb_mCapacity b" off d] o(2) False by auto
    then show ?thesis using False u ok fin [OF mm(3)] by (simp add: onWrite_def buf_ok_def)
  next
    case True
    obtain c where c: "Align2Power ?need = Some c" "?need \<le> c" "c \<le> 1073741824" "i32 c = c"
      using Align2Power_ok [OF d] by metis
    obtain q s1 mm1 where q: "prealloc (cb_pool b) (cb_mem b) (cb_mData b) c m = Ok (q, s1, mm1)" "pinv s1" "msize s1 q = Some c"
      "mem_read mm1 q (nat (cb_mCapacity b)) = mem_read (cb_mem b) (cb_mData b) (nat (cb_mCapacity b))"
      using realloc_law [OF o(1) _ o(2), of c m "cb_mem b"] g [OF True] c True by auto
    define e where "e = b\<lparr>cb_mCapacity := c, cb_pool := s1, cb_mem := mm1, cb_mData := q\<rparr>"
    have "buf_data e = buf_data b"
    proof -
      have "mem_read mm (a + int (nat (cb_mRangeOffset b))) (nat (cb_mRangeLen b)) =
          take (nat (cb_mRangeLen b)) (drop (nat (cb_mRangeOffset b)) (mem_read mm a (nat (cb_mCapacity b))))" for mm a
        by (rule mem_read_slice) (use o in linarith)
      from this [of mm1 q] this [of "cb_mem b" "cb_mData b"] show ?thesis using q(4) o(3)
        by (simp add: buf_data_def CdxBufferGetData_def CdxBufferGetSize_def e_def)
    qed
    moreover obtain mm where mm: "buf_write msize q off d e = Ok (e\<lparr>cb_mem := mm\<rparr>)" "mem_read mm (q + off) (length d) = d"
      "\<forall>a n. a + int n \<le> q + off \<or> q + off + int (length d) \<le> a \<longrightarrow> mem_read mm a n = mem_read (cb_mem e) a n"
      using buf_write_ok [of msize e q c off d] q(3) c(2) by (auto simp: e_def)
    moreover have "buf_ok pinv msize e" using q(2,3) o c(2,3) off True by (simp add: buf_ok_def e_def)
    ultimately show ?thesis using True u c q(1) fin [of e mm]
      by (simp add: onWrite_def e_def [symmetric]) (simp add: e_def buf_ok_def)
  qed
qed

lemma append_ok:
  assumes ok: "buf_ok pinv msize b" and c: "buf_call_ok granted (BufAppend d m) b"
  shows "edit_ok pinv msize (buf_data b @ d) (CdxBufferAppend msize prealloc d m b)"
proof -
  let ?off = "cb_mRangeOffset b + cb_mRangeLen b"
  have o: "0 \<le> cb_mRangeOffset b" "0 \<le> cb_mRangeLen b" "?off + int (length d) \<le> 1073741824"
    using ok c by (auto simp: buf_ok_def Let_def)
  have u: "u32 ?off = ?off" "u32 (cb_mRangeLen b + int (length d)) = cb_mRangeLen b + int (length d)"
    using o by (auto intro!: u32_id)
  obtain b1 where b1: "onWrite msize prealloc ?off d m b = Some (Ok b1)" "buf_ok pinv msize b1" "?off + int (length d) \<le> cb_mCapacity b1"
    "cb_mRangeOffset b1 = cb_mRangeOffset b" "cb_mRangeLen b1 = cb_mRangeLen b" "buf_data b1 = buf_data b"
    "mem_read (cb_mem b1) (cb_mData b1 + ?off) (length d) = d"
    using onWrite_ok [OF ok refl o(3), of m] c by (auto simp: Let_def)
  let ?b = "onSetRange (cb_mRangeOffset b) (cb_mRangeLen b + int (length d)) b1"
  have "buf_data ?b = mem_read (cb_mem b1) (CdxBufferGetData b1) (nat (cb_mRangeLen b) + length d)"
    using o b1(4) by (simp add: buf_data_def CdxBufferGetData_def CdxBufferGetSize_def onSetRange_def nat_add_distrib)
  also have "\<dots> = buf_data b1 @ mem_read (cb_mem b1) (CdxBufferGetData b1 + int (nat (cb_mRangeLen b))) (length d)"
    using b1(5) by (simp add: mem_read_append buf_data_def CdxBufferGetSize_def)
  also have "\<dots> = buf_data b @ d" using b1(4,6,7) o(2) by (simp add: CdxBufferGetData_def add.assoc)
  finally have "buf_data ?b = buf_data b @ d" .
  moreover have "buf_ok pinv msize ?b" using b1(2-5) o by (simp add: buf_ok_def onSetRange_def)
  ultimately show ?thesis using b1(1,4,5) u by (simp add: edit_ok_def CdxBufferAppend_def)
qed

text \<open>Contents that were written as \<open>d\<close> followed by the old contents.\<close>

lemma buf_data_joined:
  assumes "mem_read (cb_mem b) (cb_mData b + off) (length d) = d"
    "mem_read (cb_mem b) (cb_mData b + off + int (length d)) (length xs) = xs"
    "cb_mRangeOffset b = off" "cb_mRangeLen b = int (length d + length xs)"
  shows "buf_data b = d @ xs"
  unfolding buf_data_def CdxBufferGetData_def CdxBufferGetSize_def assms(3,4) nat_int mem_read_append assms(1,2) ..

lemma insert_ok:
  assumes ok: "buf_ok pinv msize b" and c: "buf_call_ok granted (BufInsert d m) b"
  shows "edit_ok pinv msize (d @ buf_data b) (CdxBufferInsert msize palloc pfree d m b)"
proof -
  let ?len = "int (length d)" and ?n = "length (buf_data b)"
  have o: "pinv (cb_pool b)" "msize (cb_pool b) (cb_mData b) = Some (cb_mCapacity b)" "0 \<le> cb_mRangeOffset b" "0 \<le> cb_mRangeLen b"
    "cb_mRangeOffset b + cb_mRangeLen b \<le> cb_mCapacity b" "cb_mCapacity b \<le> 1073741824" "cb_mRangeLen b + ?len \<le> 1073741824"
    using ok c by (auto simp: buf_ok_def Let_def)
  have u: "u32 (cb_mRangeLen b + ?len) = cb_mRangeLen b + ?len" using o by (intro u32_id) auto
  have n: "cb_mRangeLen b = int ?n" using o(4) by (simp add: buf_data_length)
  have rd: "buf_data b = mem_read (cb_mem b) (cb_mData b + cb_mRangeOffset b) ?n"
    using n by (simp add: buf_data_def CdxBufferGetData_def CdxBufferGetSize_def)
  consider (room) "?len \<le> cb_mRangeOffset b"
    | (move) "\<not> ?len \<le> cb_mRangeOffset b" "cb_mRangeLen b + ?len \<le> cb_mCapacity b"
    | (grow) "\<not> ?len \<le> cb_mRangeOffset b" "cb_mCapacity b < cb_mRangeLen b + ?len" by linarith
  then show ?thesis
  proof cases
    case room
    define e where "e = b\<lparr>cb_mRangeOffset := cb_mRangeOffset b - ?len, cb_mRangeLen := cb_mRangeLen b + ?len\<rparr>"
    obtain mm where mm: "buf_write msize (cb_mData b) (cb_mRangeOffset b - ?len) d e = Ok (e\<lparr>cb_mem := mm\<rparr>)"
      "mem_read mm (cb_mData b + (cb_mRangeOffset b - ?len)) (length d) = d"
      "mem_read mm (cb_mData b + cb_mRangeOffset b) ?n = mem_read (cb_mem b) (cb_mData b + cb_mRangeOffset b) ?n"
      using buf_write_ok [of msize e "cb_mData b" "cb_mCapacity b" "cb_mRangeOffset b - ?len" d] o room by (auto simp: e_def)
    have "buf_data (e\<lparr>cb_mem := mm\<rparr>) = d @ buf_data b"
      by (rule buf_data_joined [of _ "cb_mRangeOffset b - ?len"]) (use mm rd n in \<open>simp_all add: e_def\<close>)
    moreover have "buf_ok pinv msize (e\<lparr>cb_mem := mm\<rparr>)" using o room by (simp add: buf_ok_def e_def)
    ultimately show ?thesis using room u mm(1) by (simp add: edit_ok_def CdxBufferInsert_def Let_def e_def)
  next
    case move
    obtain mm where mm: "buf_write msize (cb_mData b) ?len (buf_data b) b = Ok (b\<lparr>cb_mem := mm\<rparr>)"
      "mem_read mm (cb_mData b + ?len) ?n = buf_data b"
      using buf_write_ok [of msize b "cb_mData b" "cb_mCapacity b" ?len "buf_data b"] o(2) move(2) n by auto
    obtain mm2 where mm2: "buf_write msize (cb_mData b) 0 d (b\<lparr>cb_mem := mm\<rparr>) = Ok (b\<lparr>cb_mem := mm2\<rparr>)"
      "mem_read mm2 (cb_mData b) (length d) = d" "mem_read mm2 (cb_mData b + ?len) ?n = mem_read mm (cb_mData b + ?len) ?n"
      using buf_write_ok [of msize "b\<lparr>cb_mem := mm\<rparr>" "cb_mData b" "cb_mCapacity b" 0 d] o(2,4) move(2) by auto
    have rdb: "buf_read msize (cb_mData b) (cb_mRangeOffset b) (cb_mRangeLen b) b = Ok (buf_data b)"
      using buf_read_ok [of msize b "cb_mData b" "cb_mCapacity b" "cb_mRangeLen b" "cb_mRangeOffset b"] o rd n by simp
    let ?b = "b\<lparr>cb_mem := mm2, cb_mRangeOffset := 0, cb_mRangeLen := cb_mRangeLen b + ?len\<rparr>"
    have "buf_data ?b = d @ buf_data b" by (rule buf_data_joined [of _ 0]) (use mm(2) mm2 n in simp_all)
    moreover have "buf_ok pinv msize ?b" using o move(2) by (simp add: buf_ok_def)
    ultimately show ?thesis using move u mm(1) mm2(1) rdb by (simp add: edit_ok_def CdxBufferInsert_def insert_move_def Let_def)
  next
    case grow
    obtain c' where c': "Align2Power (cb_mRangeLen b + ?len) = Some c'" "cb_mRangeLen b + ?len \<le> c'" "c' \<le> 1073741824" "i32 c' = c'"
      using Align2Power_ok [OF o(7)] by metis
    have "granted (cb_pool b) c' m" using c grow(2) c'(1) by (simp add: Let_def)
    then obtain q s where q: "palloc (cb_pool b) c' m = Ok (q, s)" "pinv s" "msize s q = Some c'"
      "cb_mData b \<noteq> q" "msize s (cb_mData b) = Some (cb_mCapacity b)"
      "q + c' \<le> cb_mData b \<or> cb_mData b + cb_mCapacity b \<le> q"
      using alloc_law [OF o(1), of c' m] o(2) by blast
    define e where "e = b\<lparr>cb_mCapacity := c', cb_pool := s\<rparr>"
    obtain mm where mm: "buf_write msize q 0 d e = Ok (e\<lparr>cb_mem := mm\<rparr>)" "mem_read mm q (length d) = d"
      "\<forall>a n. a + int n \<le> q + 0 \<or> q + 0 + ?len \<le> a \<longrightarrow> mem_read mm a n = mem_read (cb_mem e) a n"
      using buf_write_ok [of msize e q c' 0 d] q(3) c'(2) o(4) by (auto simp: e_def)
    have "mem_read mm (cb_mData b + cb_mRangeOffset b) ?n = mem_read (cb_mem b) (cb_mData b + cb_mRangeOffset b) ?n"
    proof -
      have "cb_mData b + cb_mRangeOffset b + int ?n \<le> q + 0 \<or> q + 0 + ?len \<le> cb_mData b + cb_mRangeOffset b"
        using q(6) o c'(2) n by linarith
      from mm(3) [rule_format, OF this] show ?thesis by (simp add: e_def)
    qed
    then have "mem_read mm (cb_mData b + cb_mRangeOffset b) ?n = buf_data b" using rd by (rule trans [OF _ sym])
    then have rdb: "buf_read msize (cb_mData b) (cb_mRangeOffset b) (cb_mRangeLen b) (e\<lparr>cb_mem := mm\<rparr>) = Ok (buf_data b)"
      using buf_read_ok [of msize "e\<lparr>cb_mem := mm\<rparr>" "cb_mData b" "cb_mCapacity b" "cb_mRangeLen b" "cb_mRangeOffset b"] q(5) o n
      by (simp add: e_def)
    obtain mm2 where mm2: "buf_write msize q ?len (buf_data b) (e\<lparr>cb_mem := mm\<rparr>) = Ok (e\<lparr>cb_mem := mm2\<rparr>)"
      "mem_read mm2 (q + ?len) ?n = buf_data b" "mem_read mm2 q (length d) = mem_read mm q (length d)"
      using buf_write_ok [of msize "e\<lparr>cb_mem := mm\<rparr>" q c' ?len "buf_data b"] q(3) c'(2) n by (auto simp: e_def)
    obtain s2 where s2: "pfree s (cb_mData b) = Ok s2" "pinv s2" "msize s2 = (msize s)(cb_mData b := None)"
      using free_law [OF q(2,5)] by blast
    let ?b = "e\<lparr>cb_mem := mm2, cb_pool := s2, cb_mData := q, cb_mRangeOffset := 0, cb_mRangeLen := cb_mRangeLen b + ?len\<rparr>"
    have "buf_data ?b = d @ buf_data b" by (rule buf_data_joined [of _ 0]) (use mm(2) mm2(2,3) n in simp_all)
    moreover have "buf_ok pinv msize ?b" using s2(2,3) q(3,4) o(4) c'(2,3) by (simp add: buf_ok_def e_def)
    ultimately show ?thesis using grow u c'(1,4) q(1) mm(1) mm2(1) rdb s2(1)
      by (simp add: edit_ok_def CdxBufferInsert_def insert_grow_def Let_def e_def)
  qed
qed

text \<open>Every call a client may make returns, keeps the buffer well formed and does to the contents what it says.\<close>

lemma call_refines:
  assumes "buf_ok pinv msize b" "buf_call_ok granted op b"
  shows "edit_ok pinv msize (buf_spec op (cb_mRangeOffset b) (buf_data b)) (buf_call msize palloc prealloc pfree op b)"
  using assms append_ok insert_ok SetRange_ok [where granted = granted] SeekRange_ok [where granted = granted]
  by (cases op) simp_all

end


section \<open>Buffers in the pools of the player\<close>

text \<open>The calls of \<open>Aw_Pool\<close> as a buffer uses them. \<open>AwRealloc\<close> copies the old memory when it moves it.\<close>

definition pool_msize :: "int \<Rightarrow> AwPool \<Rightarrow> addr \<Rightarrow> int option" where
  "pool_msize hs p ptr = map_option pm_size (p_mems p (ptr - hs))"

definition pool_palloc :: "int \<Rightarrow> int \<Rightarrow> AwPool \<Rightarrow> int \<Rightarrow> addr option \<Rightarrow> (addr \<times> AwPool) exec" where
  "pool_palloc hs ds p n m = ebind (AwPalloc hs ds p n m) (\<lambda>(ptr, p1, es). Ok (ptr, p1))"

definition pool_prealloc ::
  "int \<Rightarrow> int \<Rightarrow> AwPool \<Rightarrow> memory \<Rightarrow> addr \<Rightarrow> int \<Rightarrow> addr option \<Rightarrow> (addr \<times> AwPool \<times> memory) exec" where
  "pool_prealloc hs ds p mm ptr n m = ebind (AwRealloc hs ds p ptr n m) (\<lambda>(newP, p1, es).
     Ok (newP, p1, if newP = 0 \<or> newP = ptr then mm
                   else mem_write mm newP (mem_read mm ptr (nat (the (pool_msize hs p ptr))))))"

definition pool_pfree :: "int \<Rightarrow> AwPool \<Rightarrow> addr \<Rightarrow> AwPool exec" where
  "pool_pfree hs p ptr = ebind (AwPfree hs p ptr) (\<lambda>(p1, es). Ok p1)"

definition pool_granted :: "int \<Rightarrow> AwPool \<Rightarrow> int \<Rightarrow> addr option \<Rightarrow> bool" where
  "pool_granted hs p n m \<longleftrightarrow> alloc_size_ok hs n \<and> malloc_ok hs p n m \<and> m \<noteq> None"

lemma pool_mem_pos:
  assumes "sizes_ok hs ds" "pool_inv hs ds p" "p_mems p m = Some x"
  shows "0 < m"
  using assms
proof (cases rule: pool_inv_mem)
  case large
  then show ?thesis using pool_invD(5) [OF assms(2)] by (auto simp: large_ok_def)
next
  case (block d)
  then show ?thesis using assms(1) by (auto simp: sizes_ok_def)
qed

interpretation pool: byte_pool "\<lambda>p. sizes_ok hs ds \<and> pool_inv hs ds p" "pool_msize hs" "pool_granted hs"
  "pool_palloc hs ds" "pool_prealloc hs ds" "pool_pfree hs" for hs ds
proof (unfold_locales, goal_cases)
  case (1 p n m)
  then have a: "alloc_result hs ds p n m (AwPalloc hs ds p n m)" "m \<noteq> None" by (auto simp: pool_granted_def intro: AwPalloc_ok)
  then obtain ptr p1 es ow where p1: "AwPalloc hs ds p n m = Ok (ptr, p1, es)" "pool_inv hs ds p1" "p_mems p (ptr - hs) = None"
    "p_mems p1 = (p_mems p)(ptr - hs \<mapsto> \<lparr>pm_owner = ow, pm_size = n\<rparr>)" unfolding alloc_result_def by blast
  have z: "sizes_ok hs ds" "0 < hs" using 1 by (auto simp: sizes_ok_def)
  have "q \<noteq> ptr \<and> pool_msize hs p1 q = Some k \<and> (ptr + n \<le> q \<or> q + k \<le> ptr)" if q: "pool_msize hs p q = Some k" for q k
  proof -
    obtain x where x: "p_mems p (q - hs) = Some x" "pm_size x = k" using q by (auto simp: pool_msize_def)
    then have ne: "q \<noteq> ptr" using p1(3) by auto
    then have x1: "p_mems p1 (q - hs) = Some x" using p1(4) x by simp
    have "ptr - hs + hs + n \<le> q - hs \<or> q - hs + hs + pm_size x \<le> ptr - hs"
      using pool_mems_apart [OF z(1) p1(2), of "ptr - hs" "\<lparr>pm_owner = ow, pm_size = n\<rparr>" "q - hs" x] p1(4) x1 ne by auto
    then show ?thesis using ne x x1 z(2) by (auto simp: pool_msize_def)
  qed
  then show ?case using p1 z(1) by (auto simp: pool_palloc_def pool_msize_def)
next
  case (2 p n m ptr k mm)
  then obtain x where x: "p_mems p (ptr - hs) = Some x" "pm_size x = k" by (auto simp: pool_msize_def)
  have z: "sizes_ok hs ds" "pool_inv hs ds p" "0 < hs" using 2 by (auto simp: sizes_ok_def)
  have "0 < ptr" using pool_mem_pos [OF z(1,2) x(1)] z(3) by simp
  then have "realloc_ok hs p ptr n m" using 2 x by (simp add: realloc_ok_def pool_granted_def)
  from AwRealloc_ok [OF z(1,2) this] obtain q p1 es ow where q: "AwRealloc hs ds p ptr n m = Ok (q, p1, es)" "pool_inv hs ds p1" "0 < q"
    "p_mems p1 = (p_mems p)(ptr - hs := None, q - hs \<mapsto> \<lparr>pm_owner = ow, pm_size = n\<rparr>)"
    using 2 unfolding realloc_result_def pool_granted_def by blast
  then show ?case using z(1) x mem_read_write_same [of mm q "mem_read mm ptr (nat k)"]
    by (auto simp: pool_prealloc_def pool_msize_def)
next
  case (3 p ptr k)
  then obtain x where x: "p_mems p (ptr - hs) = Some x" by (auto simp: pool_msize_def)
  obtain p1 es where "AwPfree hs p ptr = Ok (p1, es)" "pool_inv hs ds p1" "p_mems p1 = (p_mems p)(ptr - hs := None)"
    using AwPfree_ok [OF _ _ x] 3 unfolding free_result_def by blast
  then show ?case using 3 by (auto simp: pool_pfree_def pool_msize_def fun_eq_iff)
qed

text \<open>A sequence of edits, each allowed where it is made.\<close>

fun buf_run :: "int \<Rightarrow> int \<Rightarrow> buf_op list \<Rightarrow> AwPool CdxBuffer \<Rightarrow> AwPool CdxBuffer exec option" where
  "buf_run hs ds [] b = Some (Ok b)"
| "buf_run hs ds (op # ops) b =
     (case buf_call (pool_msize hs) (pool_palloc hs ds) (pool_prealloc hs ds) (pool_pfree hs) op b of
        Some (Ok b1) \<Rightarrow> buf_run hs ds ops b1
      | r \<Rightarrow> r)"

fun buf_run_ok :: "int \<Rightarrow> int \<Rightarrow> buf_op list \<Rightarrow> AwPool CdxBuffer \<Rightarrow> bool" where
  "buf_run_ok hs ds [] b = True"
| "buf_run_ok hs ds (op # ops) b \<longleftrightarrow> buf_call_ok (pool_granted hs) op b \<and>
     (case buf_call (pool_msize hs) (pool_palloc hs ds) (pool_prealloc hs ds) (pool_pfree hs) op b of
        Some (Ok b1) \<Rightarrow> buf_run_ok hs ds ops b1 | _ \<Rightarrow> True)"

fun edit_spec :: "buf_op list \<Rightarrow> 8 word list \<Rightarrow> 8 word list" where
  "edit_spec [] xs = xs"
| "edit_spec (BufAppend d m # ops) xs = edit_spec ops (xs @ d)"
| "edit_spec (BufInsert d m # ops) xs = edit_spec ops (d @ xs)"
| "edit_spec (BufSeekRange l r # ops) xs = edit_spec ops (take (length xs - nat l - nat (- r)) (drop (nat l) xs))"
| "edit_spec (BufSetRange x l # ops) xs = edit_spec ops []"

text \<open>C14. A buffer refines a list of bytes: over any sequence of appends, inserts, moves of the ends of the range inwards
  and resets to an empty range, every call returns without touching memory outside the buffer, and the bytes from
  \<open>CdxBufferGetData\<close> on, \<open>CdxBufferGetSize\<close> of them, are those of the list. The buffer holds at most 1 GB, and
  its pool can serve the requests.\<close>

theorem buffer_refines_list:
  assumes z: "sizes_ok hs ds" and b: "pool_inv hs ds (cb_pool b)" "pool_msize hs (cb_pool b) (cb_mData b) = Some (cb_mCapacity b)"
    "0 \<le> cb_mRangeOffset b" "0 \<le> cb_mRangeLen b" "cb_mRangeOffset b + cb_mRangeLen b \<le> cb_mCapacity b"
    "cb_mCapacity b \<le> 1073741824"
    and ops: "buf_run_ok hs ds ops b" "\<And>x l. BufSetRange x l \<in> set ops \<Longrightarrow> l = 0"
  shows "\<exists>b1. buf_run hs ds ops b = Some (Ok b1) \<and>
    mem_read (cb_mem b1) (CdxBufferGetData b1) (nat (CdxBufferGetSize b1)) =
      edit_spec ops (mem_read (cb_mem b) (CdxBufferGetData b) (nat (CdxBufferGetSize b)))"
proof -
  have "\<exists>b1. buf_run hs ds ops b = Some (Ok b1) \<and> buf_data b1 = edit_spec ops (buf_data b)"
    if "buf_ok (\<lambda>p. sizes_ok hs ds \<and> pool_inv hs ds p) (pool_msize hs) b" "buf_run_ok hs ds ops b" for b
    using that ops(2)
  proof (induction ops arbitrary: b)
    case (Cons op ops)
    have c: "buf_call_ok (pool_granted hs) op b" using Cons.prems(2) by simp
    obtain b1 where b1: "buf_call (pool_msize hs) (pool_palloc hs ds) (pool_prealloc hs ds) (pool_pfree hs) op b = Some (Ok b1)"
      "buf_ok (\<lambda>p. sizes_ok hs ds \<and> pool_inv hs ds p) (pool_msize hs) b1"
      "buf_data b1 = buf_spec op (cb_mRangeOffset b) (buf_data b)"
      using pool.call_refines [OF Cons.prems(1) c] unfolding edit_ok_def by blast
    have "l = 0" if "op = BufSetRange x l" for x l using Cons.prems(3) [of x l] that by simp
    then have "edit_spec (op # ops) (buf_data b) = edit_spec ops (buf_data b1)"
      using b1(3) by (cases op) auto
    then show ?case using Cons.IH [OF b1(2)] Cons.prems(2,3) b1(1) by auto
  qed simp
  moreover have "buf_ok (\<lambda>p. sizes_ok hs ds \<and> pool_inv hs ds p) (pool_msize hs) b" using z b by (simp add: buf_ok_def)
  ultimately show ?thesis using ops(1) by (simp add: buf_data_def)
qed

definition demo_buf_pool :: AwPool where
  "demo_buf_pool = demo_pool\<lparr>p_blocks := [10000 \<mapsto> \<lparr>pd_last = 10064, pd_end = 18192, pd_pmList = [10032], pd_ref = 2,
     pd_failed = 0\<rparr>], p_mems := [10032 \<mapsto> \<lparr>pm_owner = 10000, pm_size = 4\<rparr>]\<rparr>"

definition demo_buffer :: "AwPool CdxBuffer" where
  "demo_buffer = \<lparr>cb_pool = demo_buf_pool, cb_mem = (\<lambda>_. 0), cb_mData = 10056, cb_mCapacity = 4, cb_mRangeOffset = 0,
     cb_mRangeLen = 0\<rparr>"

definition demo_edits :: "buf_op list" where
  "demo_edits = [BufAppend [1, 2, 3] None, BufInsert [9] None, BufSeekRange 1 0, BufAppend [4, 5] (Some 50000)]"

lemma demo_edits_ok: "buf_run_ok 24 32 demo_edits demo_buffer"
  by code_simp

lemma demo_buf_pool_inv: "pool_inv 24 32 demo_buf_pool"
proof -
  have z: "sizes_ok 24 32" by (simp add: sizes_ok_def)
  have "PoolNodeCreate 32 (Some 2000) (Some 10000) True = (Some (2000, demo_pool), [Alloc 2000, Alloc 10000])"
    by (simp add: PoolNodeCreate_def demo_pool_def)
  then have i: "pool_inv 24 32 demo_pool" by (rule PoolNodeCreate_inv(1) [OF _ z]) simp
  have "AwPalloc 24 32 demo_pool 4 None = Ok (10056, demo_buf_pool, [])"
    by (simp add: AwPalloc_def AwAlign_eight i32_id int32_range_def from_current_def search_list_def demo_pool_def demo_buf_pool_def Let_def)
  then show ?thesis using AwPalloc_ok [OF z i, of 4 None]
    by (auto simp: alloc_result_def alloc_size_ok_def malloc_ok_def AwAlign_eight)
qed

theorem buffer_refines_list_witness:
  "\<exists>b1. buf_run 24 32 demo_edits demo_buffer = Some (Ok b1) \<and>
     mem_read (cb_mem b1) (CdxBufferGetData b1) (nat (CdxBufferGetSize b1)) = [1, 2, 3, 4, 5]"
proof -
  have "edit_spec demo_edits [] = [1, 2, 3, 4, 5]" by (simp add: demo_edits_def)
  moreover have "mem_read (cb_mem demo_buffer) (CdxBufferGetData demo_buffer) (nat (CdxBufferGetSize demo_buffer)) = []"
    by (simp add: demo_buffer_def CdxBufferGetSize_def mem_read_def)
  ultimately show ?thesis
    using buffer_refines_list [of 24 32 demo_buffer demo_edits] demo_buf_pool_inv demo_edits_ok
    by (simp add: sizes_ok_def demo_buffer_def pool_msize_def demo_buf_pool_def demo_edits_def)
qed

text \<open>C40. A buffer that would grow beyond 1 GB never returns: the loop of \<open>Align2Power\<close> shifts the bit out of
  the 32-bit word and goes on with 0.\<close>

theorem buffer_huge_append_hangs:
  assumes "0 \<le> cb_mRangeOffset b" "0 \<le> cb_mRangeLen b" "cb_mCapacity b \<le> 1073741824"
    "1073741824 < cb_mRangeOffset b + cb_mRangeLen b + int (length d)"
    "cb_mRangeOffset b + cb_mRangeLen b + int (length d) < 4294967296"
  shows "CdxBufferAppend msize prealloc d m b = None"
proof -
  have "u32 (cb_mRangeOffset b + cb_mRangeLen b) = cb_mRangeOffset b + cb_mRangeLen b"
    "u32 (cb_mRangeOffset b + cb_mRangeLen b + int (length d)) = cb_mRangeOffset b + cb_mRangeLen b + int (length d)"
    using assms by (auto intro!: u32_id)
  then show ?thesis using assms Align2Power_hangs [of "cb_mRangeOffset b + cb_mRangeLen b + int (length d)"]
    by (simp add: CdxBufferAppend_def onWrite_def)
qed

theorem buffer_huge_append_hangs_witness:
  "CdxBufferAppend (pool_msize 24) (pool_prealloc 24 32) [7] None (demo_buffer\<lparr>cb_mCapacity := 1073741824,
     cb_mRangeLen := 1073741824\<rparr>) = None"
  by (rule buffer_huge_append_hangs) (simp_all add: demo_buffer_def)

end
