(* ===== verification/Spec2Isabelle.thy ===== *)
theory Spec2Isabelle
  imports Vdecoder Message_Queue Stream_Manager Estimaters Bit_Reader Stream_Cache Lockfree_Queue
    Cdx_Buffer
begin

text \<open>
  Verification of the buffer and queue code of the Allwinner media stack in this package feed
  (\<open>allwinner/libcedarc\<close>, the interface of the video decoder, and \<open>allwinner/libcedarx\<close>,
  the player). All file names below are relative to \<open>src/allwinner/\<close>.

  \<^bold>\<open>The program.\<close> A demuxer thread obtains space for compressed data, fills it and submits frames.
  The decoder takes the frames, decodes them into picture buffers and shows the pictures; a
  renderer takes pictures and gives them back. The threads of the player talk through message
  queues. The parts:

  \<^item> The \<^emph>\<open>stream buffer manager\<close> (\<open>libcedarc/vdecoder/sbm.c\<close>) is a cyclic byte buffer with a
    cyclic table of frames. Theory \<open>Sbm\<close>: record \<open>Sbm\<close>, one definition per function
    (\<open>SbmCreate\<close> to \<open>SbmFlushStream\<close>). A pointer into the frame table is an index.
  \<^item> The \<^emph>\<open>frame buffer manager\<close> (\<open>libcedarc/vdecoder/fbm.c\<close>) owns the picture buffers and keeps
    them in three linked queues. Theories \<open>Fbm_Data\<close> (data, queue primitives), \<open>Fbm\<close> (the calls of
    decoder and renderer, \<open>FbmRequestBuffer\<close> to \<open>FbmFlush\<close>, the queries and the interface for
    displays that supply the frames), \<open>Fbm_Alloc\<close> (\<open>FbmCreate\<close>, \<open>FbmDestroy\<close>,
    \<open>FbmAllocatePictureBuffer\<close>). The two managers of a decoder and the structure they share are
    one record, \<open>FbmWorld\<close>.
  \<^item> The \<^emph>\<open>decoder interface\<close> (\<open>libcedarc/vdecoder/vdecoder.c\<close>) connects demuxer and renderer to
    the managers. Theory \<open>Vdecoder\<close>: record \<open>VideoDecoderContext\<close>, the functions from
    \<open>RequestVideoStreamBuffer\<close> and \<open>SubmitVideoStreamData\<close> to \<open>RequestPicture\<close> and
    \<open>ReturnPicture\<close>; it calls the definitions of \<open>Sbm\<close> and \<open>Fbm\<close>.
  \<^item> The \<^emph>\<open>message queue\<close> (\<open>libcedarx/libcore/base/AwMessageQueue.c\<close>): theory \<open>Message_Queue\<close>. The
    section of a call under the mutex is one step, each semaphore operation another.
  \<^item> The \<^emph>\<open>stream manager\<close> (\<open>libcedarx/libcore/playback/streamManager.c\<close>), the ring of frames of
    the audio and subtitle paths, with rewind: theory \<open>Stream_Manager\<close>.
  \<^item> The \<^emph>\<open>bit rate and frame rate estimaters\<close> (\<open>libcedarx/libcore/playback/bitrateEstimater.c\<close>
    and \<open>framerateEstimater.c\<close>): theory \<open>Estimaters\<close>.
  \<^item> The \<^emph>\<open>bit reader\<close> of the parsers (\<open>libcedarx/libcore/base/CdxBitReader.c\<close>): theory
    \<open>Bit_Reader\<close>.
  \<^item> The \<^emph>\<open>stream cache\<close> (\<open>libcedarx/xplayer/cache.c\<close>) between the thread that reads the network and
    the one that feeds the decoders, with seeks inside the cached frames. Theory \<open>Stream_Cache\<close>:
    records \<open>CacheNode\<close> and \<open>StreamCache\<close>, nodes in a heap, one definition per function
    (\<open>StreamCacheCreate\<close> to \<open>StreamCacheSeekTo\<close>); theory \<open>Key_Frames\<close>: the scans of
    \<open>StreamCacheIsMpeg12KeyFrame\<close> and its siblings for WMV3, H.264 and H.265 over the bytes of a frame.
  \<^item> The \<^emph>\<open>queue without locks\<close> (\<open>libcedarx/libcore/base/CdxQueue.c\<close>): theory \<open>Lockfree_Queue\<close>. A push
    and a pop are sequences of steps, one per access to shared memory (\<open>queue_pc\<close>).
  \<^item> The \<^emph>\<open>linked lists\<close> (\<open>libcedarx/libcore/base/include/CdxList.i\<close>), circular and doubly linked
    with a head node: theory \<open>Cdx_List\<close>.
  \<^item> The \<^emph>\<open>memory pools\<close> (\<open>libcedarx/libcore/base/AwPool.c\<close>): theory \<open>Aw_Pool\<close>. Records \<open>AwPool\<close>,
    \<open>PoolData\<close> (a block) and \<open>PoolMemory\<close> (a header), one definition per function; the tree of pools
    is linked by the nodes of \<open>Cdx_List\<close>.
  \<^item> The \<^emph>\<open>byte buffers\<close> (\<open>libcedarx/libcore/base/CdxBuffer.c\<close>), which grow in a pool: theory
    \<open>Cdx_Buffer\<close>, with the calls of the pool as arguments and the contents of memory as a map of bytes.

  \<^bold>\<open>Library.\<close> \<open>Cedar_Prelude\<close> has the vocabulary: wrap-around of \<open>int\<close> (\<open>i32\<close>), C division, the
  outcome of a call (\<open>exec\<close>: \<open>Ok\<close>, \<open>Abort\<close> for \<open>abort()\<close>, \<open>Fault\<close> for a wild access or a walk
  that does not end), arrays with bounds. \<open>Ring\<close> has cyclic tables and their slices,
  \<open>Linked_Queue\<close> lists threaded through a table, \<open>Mem_Trace\<close> traces of allocations and releases.
  \<open>Frame_Fifo\<close> states the contract of a queue between two stages as the locale \<open>frame_fifo\<close>, and
  its extension \<open>held_fifo\<close> for a queue whose consumer can give items back; the stream buffer
  manager, the display queue of the frame buffer manager, the message queue, the stream
  manager and the stream cache are interpreted in it, and the theorems on order rest on it.

  \<^bold>\<open>What is shown.\<close>

  \<^item> \<open>Sbm\<close>: every interleaving of demuxer and decoder keeps the invariant and stays inside the
    table; frames come out in order; returning a frame undoes the request; space that was
    granted can be used; creation and destruction balance. A flush of an unread frame is shown
    to break the counters.
  \<^item> \<open>Fbm_Spec\<close>, \<open>Fbm_Protocol\<close>: an abstract manager that names the owner of every frame
    (\<open>FrameSpec\<close>, \<open>spec_call\<close>), the representation relation \<open>fbm_rel\<close>, and that every call
    implements its abstract counterpart; from it, safety in every reachable state, no frame is
    lost or doubled, display order. Two defects are shown: a frame shared while the renderer
    holds it, and the return through the second handle of a 3D stream.
  \<^item> \<open>Fbm_Alloc\<close>: creation establishes the invariant, creation and destruction balance on every
    path and for every pixel format, the planes of a planar picture tile its block.
  \<^item> \<open>Vdecoder\<close>: the space handed to the demuxer is disjoint from all data in use, frames
    submitted in parts are put together, pictures return to the manager they came from. A
    frame the stream buffer refuses is shown to be lost although the call reports success.
  \<^item> \<open>Message_Queue\<close>: all interleavings refine a bounded first-in first-out list, no wakeup is
    lost, the deadline of the timed wait is exact, memory balances.
  \<^item> \<open>Stream_Manager\<close>: memory safety of all runs with ownership of the data blocks, order, the
    frames kept for rewinding, what a rewind does; three defects at the edges of the ring.
  \<^item> \<open>Estimaters\<close>: well-formedness, the run of packets used and the median used; what is wrong
    near time 0 and for long durations.
  \<^item> \<open>Bit_Reader\<close>: the reader is a cursor in the bit string, reading and putting back cancel,
    skipping; reading past the end does not return.
  \<^item> \<open>Key_Frames\<close>: each scan answers exactly whether the start code it looks for occurs, and reads
    inside the frame.
  \<^item> \<open>Stream_Cache\<close>: every run of calls keeps the list and its counters, frees every block once and
    leaks none; frames leave in order; a seek by time goes to the nearest key frame, a seek by
    offset to the frame with that byte; a full cache can start the player. Two defects: an add
    that never returns, and a count of video frames that drifts.
  \<^item> \<open>Lockfree_Queue\<close>: with one producer and one consumer every interleaving is safe and first-in
    first-out; with two producers a push can use a node that was freed.
  \<^item> \<open>Cdx_List\<close>: the operations implement those on sequences of nodes; deleting a node twice faults.
  \<^item> \<open>Aw_Pool\<close>: the life of a pool is safe and leaves nothing behind, memory in use never
    overlaps. Two defects: memory of sizes just below 4095 cannot be given back, and a pool with a child
    cannot be destroyed.
  \<^item> \<open>Cdx_Buffer\<close>: the locale \<open>byte_pool\<close> says what a buffer relies on and is interpreted on the pools of
    \<open>Aw_Pool\<close>; a buffer in a pool refines a list of bytes under its edits. Growing beyond 1 GB never returns.

  \<^bold>\<open>Bounds and loops.\<close> No definition uses fuel. Loops with a counter are structural recursions on
  it; walks along linked nodes (\<open>list_tail\<close>), the data count after a rewind (\<open>sm_data_from\<close>), the loops of
  the stream cache (\<open>node_loop\<close>, \<open>sc_free_all\<close>, \<open>sc_make_room\<close>), \<open>Align2Power\<close> of the buffers and those of the bit reader are partial functions with value \<open>None\<close> when the loop does not end, and their results are proved to
  exist. Numbers bounded in hypotheses: stream buffers of at most 2^30 bytes, frames of fewer than 2^30
  bytes at most 255 picture frames, memory of at most 2147483000 bytes from a pool, far above what the code configures (\<open>DecideStreamBufferSize\<close> gives at most 34 MB); within
  these bounds no 32-bit sum of the code overflows.

  \<^bold>\<open>Not under \<open>src\<close>.\<close> The video engine is prebuilt: \<open>VideoEngineGetFbm\<close> is the parameter \<open>getFbm\<close>,
  the size of picture buffers it computes and the memory operations are parameters of \<open>Fbm_Alloc\<close>.
  Results of \<open>malloc\<close> and of locking are arguments of the definitions, and so is what the player
  answers to the stream cache.

  \<^bold>\<open>Not modelled.\<close> Logging, debug output and cache maintenance other than the ranges it is given;
  start-up, decode call and shut-down of \<open>vdecoder.c\<close>, which run the engine; the float play
  rate of the frame rate estimater; destructors that only free one structure; \<open>getSeekOffset\<close>
  and \<open>StreamCachePlayerCacheTime\<close> of the cache, which compute with \<open>double\<close> on answers of the player; the other parts
  of the two libraries (other containers of \<open>libcore/base\<close>, the player threads, parsers, stream
  sources, OpenMAX adapters) and the rest of the feed, which are packages of their own.
\<close>

end
